(* ===== verification/Xv6_Base.thy ===== *)
theory Xv6_Base
  imports Main "HOL-Library.Word"
begin

text \<open>
  Prelude of the development: the machine integers of the kernel (\<^verbatim>\<open>types.h\<close>), the
  outcome of a kernel routine (a value and the next state, a \<^verbatim>\<open>panic\<close>, an access the C
  code makes through a null or dangling pointer, or a loop that never returns), the
  collections of rewrite rules the component proofs share, and the generic facts on 32-bit
  words that the page arithmetic of every component rests on.
\<close>

unbundle bit_operations_syntax

section \<open>Machine integers\<close>

text \<open>\<^verbatim>\<open>uchar\<close>, \<^verbatim>\<open>ushort\<close> and \<^verbatim>\<open>uint\<close>. A C \<^verbatim>\<open>int\<close> is the same 32-bit word, read
  with the signed comparisons \<open><s\<close> and \<open>\<le>s\<close>; addition wraps in both readings.\<close>

type_synonym u8 = "8 word"
type_synonym u16 = "16 word"
type_synonym u32 = "32 word"
type_synonym i32 = "32 word"

section \<open>Outcomes of kernel routines\<close>

text \<open>
  \<open>Ok x s\<close>: the routine returned \<open>x\<close> in state \<open>s\<close>. \<open>Panic m\<close>: it called
  \<^verbatim>\<open>panic(m)\<close>, which never returns. \<open>Fault m\<close>: it dereferenced a null pointer (\<open>m\<close>
  says where), so nothing is known of the result. \<open>Diverge\<close>: a loop of it never ends.
\<close>

datatype ('a, 's) outcome = Ok 'a 's | Panic string | Fault string | Diverge

primrec bindO :: "('a, 's) outcome \<Rightarrow> ('a \<Rightarrow> 's \<Rightarrow> ('b, 't) outcome) \<Rightarrow> ('b, 't) outcome" where
  "bindO (Ok x s) f = f x s"
| "bindO (Panic m) f = Panic m"
| "bindO (Fault m) f = Fault m"
| "bindO Diverge f = Diverge"

lemma bindO_eq_Ok: "bindO m f = Ok y t \<longleftrightarrow> (\<exists>x s. m = Ok x s \<and> f x s = Ok y t)"
  by (cases m) auto

lemma bindO_assoc: "bindO (bindO m f) g = bindO m (\<lambda>x s. bindO (f x s) g)"
  by (cases m) auto

lemma bindO_cong [fundef_cong]:
  "m = m' \<Longrightarrow> (\<And>x s. m' = Ok x s \<Longrightarrow> f x s = f' x s) \<Longrightarrow> bindO m f = bindO m' f'"
  by (cases m') auto

section \<open>Collections of facts\<close>

named_theorems mmu_defs \<open>the macros of mmu.h and memlayout.h\<close>
named_theorems mem_simps \<open>loads after stores and fills\<close>
named_theorems page_simps \<open>page-aligned addresses and their offsets\<close>

section \<open>Words and natural numbers\<close>

lemma unat_add_lt:
  fixes a b :: "'a::len word"
  assumes "unat a + unat b < 2 ^ LENGTH('a)"
  shows "unat (a + b) = unat a + unat b"
  using assms by (simp add: unat_word_ariths)

lemma unat_sub_le:
  fixes a b :: "'a::len word"
  assumes "b \<le> a"
  shows "unat (a - b) = unat a - unat b"
  using assms by (simp add: unat_sub)

lemma u32_lt_4G: "unat (a :: u32) < 4294967296"
  using unsigned_less [of a] by simp

lemma unat_minus_one_u32 [simp]: "unat (- 1 :: u32) = 4294967295"
  by (simp add: unsigned_minus_1_eq_mask mask_eq_exp_minus_1)

lemma u32_eq_iff_unat: "(a :: u32) = b \<longleftrightarrow> unat a = unat b"
  by (simp add: word_unat_eq_iff)

lemma u32_le_iff_unat: "(a :: u32) \<le> b \<longleftrightarrow> unat a \<le> unat b"
  by (simp add: word_le_nat_alt)

lemma u32_less_iff_unat: "(a :: u32) < b \<longleftrightarrow> unat a < unat b"
  by (simp add: word_less_nat_alt)

lemma mask_12_u32: "(4095 :: u32) = mask 12"
  by (simp add: mask_eq_exp_minus_1)

lemma mask_10_u32: "(1023 :: u32) = mask 10"
  by (simp add: mask_eq_exp_minus_1)

lemma mask_2_u32: "(3 :: u32) = mask 2"
  by (simp add: mask_eq_exp_minus_1)

lemma unat_take_bit: "unat (take_bit n (a :: 'a::len word)) = unat a mod 2 ^ n"
  unfolding unsigned_take_bit_eq by (rule take_bit_eq_mod)

lemma unat_and_mask: "unat ((a :: 'a::len word) AND mask n) = unat a mod 2 ^ n"
  by (simp add: unat_take_bit flip: take_bit_eq_mask)

lemma unat_drop_bit_div: "unat (drop_bit n (a :: 'a::len word)) = unat a div 2 ^ n"
  unfolding unat_drop_bit_eq by (rule drop_bit_eq_div)

lemma and_not_mask: "(a :: 'a::len word) AND NOT (mask n) = push_bit n (drop_bit n a)"
  by (rule bit_word_eqI) (auto simp: bit_simps)

lemma unat_and_not_mask: "unat ((a :: 'a::len word) AND NOT (mask n)) = unat a div 2 ^ n * 2 ^ n"
proof -
  have "push_bit n (drop_bit n a) = a - take_bit n a"
    by (metis add_diff_cancel_right' bits_ident)
  moreover have "take_bit n a \<le> a"
    by (simp add: word_le_nat_alt unat_take_bit)
  ultimately have "unat (push_bit n (drop_bit n a)) = unat a - unat a mod 2 ^ n"
    by (simp add: unat_sub_le unat_take_bit)
  then show ?thesis
    by (simp add: and_not_mask minus_mod_eq_div_mult)
qed

section \<open>Signed integers\<close>

lemma sint_i32:
  "sint (x :: i32) = (if unat x < 2147483648 then int (unat x) else int (unat x) - 4294967296)"
proof -
  define k where "k = unat x"
  have k: "uint x = int k" "k < 4294967296"
    using unsigned_less [of x] by (simp_all add: k_def)
  have "bit (int k) 31 \<longleftrightarrow> \<not> k < 2147483648"
  proof -
    have "k div 2147483648 = (if k < 2147483648 then 0 else 1)"
      using k(2) by (auto intro!: div_nat_eqI)
    then have "odd (k div 2147483648) \<longleftrightarrow> \<not> k < 2147483648" by simp
    then show ?thesis by (simp add: bit_iff_odd flip: of_nat_div)
      (metis even_of_nat of_nat_div of_nat_numeral)
  qed
  moreover have "take_bit 32 (int k) = int k"
    using k(2) by (simp add: take_bit_int_eq_self_iff)
  ultimately show ?thesis
    by (simp add: sint_uint signed_take_bit_eq_take_bit_minus k k_def [symmetric])
qed

lemma i32_small:
  assumes "unat (a :: i32) < 2147483648" "unat b < 2147483648"
  shows "a <s b \<longleftrightarrow> unat a < unat b" "a \<le>s b \<longleftrightarrow> unat a \<le> unat b"
  unfolding word_sless_alt word_sle_eq sint_i32 using assms
  by (simp_all only: if_True of_nat_less_iff of_nat_le_iff)

lemma i32_neg_iff: "(a :: i32) <s 0 \<longleftrightarrow> 2147483648 \<le> unat a"
proof -
  define k where "k = unat a"
  have "(if k < 2147483648 then int k else int k - 4294967296) < 0 \<longleftrightarrow> 2147483648 \<le> k"
    using u32_lt_4G [of a] by (auto simp: k_def [symmetric])
  then show ?thesis
    by (simp only: word_sless_alt sint_i32 [of a] k_def sint_0)
qed

end
