(* ===== verification/Mmu.thy ===== *)
theory Mmu
  imports Xv6_Base
begin

text \<open>
  The address arithmetic of \<^verbatim>\<open>mmu.h\<close>, \<^verbatim>\<open>memlayout.h\<close> and \<^verbatim>\<open>mmap.h\<close>: page rounding,
  the split of a linear address into directory index, table index and offset, the
  address and flag fields of a page table entry, the direct map between physical and
  kernel virtual addresses, and the facts about them in terms of \<^const>\<open>unat\<close> and of
  page-aligned addresses.
\<close>

section \<open>Constants\<close>

abbreviation (input) PGSIZE :: u32 where "PGSIZE \<equiv> 4096"
abbreviation (input) NPDENTRIES :: u32 where "NPDENTRIES \<equiv> 1024"
abbreviation (input) PTXSHIFT :: nat where "PTXSHIFT \<equiv> 12"
abbreviation (input) PDXSHIFT :: nat where "PDXSHIFT \<equiv> 22"
abbreviation (input) PTE_P :: u32 where "PTE_P \<equiv> 0x001"
abbreviation (input) PTE_W :: u32 where "PTE_W \<equiv> 0x002"
abbreviation (input) PTE_U :: u32 where "PTE_U \<equiv> 0x004"
abbreviation (input) EXTMEM :: u32 where "EXTMEM \<equiv> 0x100000"
abbreviation (input) PHYSTOP :: u32 where "PHYSTOP \<equiv> 0xE000000"
abbreviation (input) DEVSPACE :: u32 where "DEVSPACE \<equiv> 0xFE000000"
abbreviation (input) KERNBASE :: u32 where "KERNBASE \<equiv> 0x80000000"
abbreviation (input) KERNLINK :: u32 where "KERNLINK \<equiv> 0x80100000"
abbreviation (input) MAX_ADDR :: u32 where "MAX_ADDR \<equiv> 0x80000000"
abbreviation (input) MIN_ADDR :: u32 where "MIN_ADDR \<equiv> 0x60000000"

section \<open>Macros\<close>

definition PDX :: "u32 \<Rightarrow> u32" where
  "PDX va = drop_bit PDXSHIFT va AND 0x3FF"

definition PTX :: "u32 \<Rightarrow> u32" where
  "PTX va = drop_bit PTXSHIFT va AND 0x3FF"

definition PGADDR :: "u32 \<Rightarrow> u32 \<Rightarrow> u32 \<Rightarrow> u32" where
  "PGADDR d t off = push_bit PDXSHIFT d OR push_bit PTXSHIFT t OR off"

definition PGROUNDUP :: "u32 \<Rightarrow> u32" where
  "PGROUNDUP sz = (sz + PGSIZE - 1) AND NOT (PGSIZE - 1)"

definition PGROUNDDOWN :: "u32 \<Rightarrow> u32" where
  "PGROUNDDOWN a = a AND NOT (PGSIZE - 1)"

definition PTE_ADDR :: "u32 \<Rightarrow> u32" where
  "PTE_ADDR pte = pte AND NOT 0xFFF"

definition PTE_FLAGS :: "u32 \<Rightarrow> u32" where
  "PTE_FLAGS pte = pte AND 0xFFF"

definition V2P :: "u32 \<Rightarrow> u32" where
  "V2P a = a - KERNBASE"

definition P2V :: "u32 \<Rightarrow> u32" where
  "P2V a = a + KERNBASE"

lemmas [mmu_defs] = PDX_def PTX_def PGADDR_def PGROUNDUP_def PGROUNDDOWN_def PTE_ADDR_def
  PTE_FLAGS_def V2P_def P2V_def

text \<open>\<^verbatim>\<open>a % PGSIZE == 0\<close>.\<close>

definition page_aligned :: "u32 \<Rightarrow> bool" where
  "page_aligned a \<longleftrightarrow> a mod PGSIZE = 0"

section \<open>Reading the macros as natural numbers\<close>

lemma page_aligned_unat: "page_aligned a \<longleftrightarrow> unat a mod 4096 = 0"
  by (simp add: page_aligned_def u32_eq_iff_unat unat_mod)

lemma unat_PGROUNDDOWN: "unat (PGROUNDDOWN a) = unat a div 4096 * 4096"
  using unat_and_not_mask [of a 12] by (simp add: PGROUNDDOWN_def mask_12_u32)

lemma unat_PGROUNDUP:
  assumes "unat a + 4095 < 4294967296"
  shows "unat (PGROUNDUP a) = (unat a + 4095) div 4096 * 4096"
proof -
  have "unat (a + 4095) = unat a + 4095"
    using assms by (subst unat_add_lt) simp_all
  then show ?thesis
    using unat_and_not_mask [of "a + 4095" 12] by (simp add: PGROUNDUP_def mask_12_u32 add.commute)
qed

lemma unat_PDX: "unat (PDX a) = unat a div 4194304"
proof -
  have "unat a div 4194304 < 1024"
    using u32_lt_4G [of a] by simp
  then show ?thesis
    by (simp add: PDX_def mask_10_u32 unat_and_mask unat_drop_bit_div)
qed

lemma unat_PTX: "unat (PTX a) = unat a div 4096 mod 1024"
  by (simp add: PTX_def mask_10_u32 unat_and_mask unat_drop_bit_div)

lemma PDX_less [simp]: "PDX a < 1024" and PTX_less [simp]: "PTX a < 1024"
  using u32_lt_4G [of a] by (simp_all add: u32_less_iff_unat unat_PDX unat_PTX)

lemma unat_PTE_ADDR: "unat (PTE_ADDR a) = unat a div 4096 * 4096"
  using unat_and_not_mask [of a 12] by (simp add: PTE_ADDR_def mask_12_u32)

section \<open>Page-aligned addresses\<close>

lemma page_aligned_take_bit: "page_aligned a \<longleftrightarrow> take_bit 12 a = 0"
  by (simp add: page_aligned_def take_bit_eq_mod)

lemma page_aligned_PGROUNDDOWN [simp]: "page_aligned (PGROUNDDOWN a)"
  by (simp add: page_aligned_unat unat_PGROUNDDOWN)

lemma page_aligned_PTE_ADDR [simp]: "page_aligned (PTE_ADDR a)"
  by (simp add: page_aligned_unat unat_PTE_ADDR)

lemma page_aligned_PGROUNDUP [simp]: "page_aligned (PGROUNDUP a)"
  using page_aligned_PGROUNDDOWN [of "a + PGSIZE - 1"]
  by (simp only: PGROUNDUP_def PGROUNDDOWN_def)

lemma page_aligned_0 [simp]: "page_aligned 0"
  by (simp add: page_aligned_def)

lemma page_aligned_PGSIZE [simp]: "page_aligned PGSIZE"
  by (simp add: page_aligned_def)

lemma page_aligned_eq: "page_aligned p \<Longrightarrow> unat p div 4096 * 4096 = unat p"
  by (simp add: page_aligned_unat mod_eq_0_iff_dvd)

lemma page_aligned_mult: "page_aligned p \<longleftrightarrow> (\<exists>k. p = PGSIZE * k)"
proof
  assume "page_aligned p"
  then obtain n where "unat p = 4096 * n"
    by (auto simp: page_aligned_unat mod_eq_0_iff_dvd)
  then have "of_nat (unat p) = (of_nat (4096 * n) :: u32)"
    by (rule arg_cong)
  then have "p = PGSIZE * of_nat n"
    by simp
  then show "\<exists>k. p = PGSIZE * k" by blast
next
  assume "\<exists>k. p = PGSIZE * k"
  then show "page_aligned p"
    by (auto simp: page_aligned_unat unat_word_ariths mod_mod_cancel)
qed

lemma page_aligned_add: "page_aligned p \<Longrightarrow> page_aligned q \<Longrightarrow> page_aligned (p + q)"
  by (metis page_aligned_mult distrib_left)

lemma page_aligned_sub: "page_aligned p \<Longrightarrow> page_aligned q \<Longrightarrow> page_aligned (p - q)"
  by (metis page_aligned_mult right_diff_distrib)

lemma PGROUNDDOWN_aligned [simp]: "page_aligned a \<Longrightarrow> PGROUNDDOWN a = a"
  by (simp add: u32_eq_iff_unat unat_PGROUNDDOWN page_aligned_eq)

lemma PTE_ADDR_aligned [simp]: "page_aligned a \<Longrightarrow> PTE_ADDR a = a"
  by (simp add: u32_eq_iff_unat unat_PTE_ADDR page_aligned_eq)

lemma page_aligned_bound:
  assumes "page_aligned p"
  shows "unat p \<le> 4294963200"
proof -
  have "unat p div 4096 \<le> 1048575"
    using u32_lt_4G [of p] by linarith
  then show ?thesis
    using page_aligned_eq [OF assms] by linarith
qed

lemma PGROUNDUP_ge:
  assumes "unat a + 4095 < 4294967296"
  shows "unat a \<le> unat (PGROUNDUP a)" "unat (PGROUNDUP a) < unat a + 4096"
  using assms unfolding unat_PGROUNDUP [OF assms] by (linarith, linarith)

lemma PGROUNDUP_least:
  assumes "unat a + 4095 < 4294967296" "page_aligned p" "unat a \<le> unat p"
  shows "unat (PGROUNDUP a) \<le> unat p"
proof -
  have "(unat a + 4095) div 4096 \<le> unat p div 4096"
    using assms(3) page_aligned_eq [OF assms(2)] by linarith
  then show ?thesis
    using page_aligned_eq [OF assms(2)] unfolding unat_PGROUNDUP [OF assms(1)] by linarith
qed

lemma unat_page_offset:
  assumes "page_aligned p" "off < PGSIZE"
  shows "unat (p + off) = unat p + unat off"
  using assms page_aligned_bound [of p]
  by (subst unat_add_lt) (simp_all add: u32_less_iff_unat)

lemma div_page_offset:
  assumes "page_aligned p" "off < PGSIZE"
  shows "unat (p + off) div 4096 = unat p div 4096"
proof -
  obtain k where k: "unat p = 4096 * k"
    using assms(1) by (auto simp: page_aligned_unat mod_eq_0_iff_dvd)
  then show ?thesis
    using assms by (simp add: unat_page_offset u32_less_iff_unat)
qed

lemma PGROUNDDOWN_offset [simp]:
  "page_aligned p \<Longrightarrow> off < PGSIZE \<Longrightarrow> PGROUNDDOWN (p + off) = p"
  by (simp add: u32_eq_iff_unat unat_PGROUNDDOWN div_page_offset page_aligned_eq)

lemma in_page_iff: "page_aligned p \<Longrightarrow> a - p < PGSIZE \<longleftrightarrow> PGROUNDDOWN a = p"
proof
  assume "page_aligned p" "a - p < PGSIZE"
  from PGROUNDDOWN_offset [OF this] show "PGROUNDDOWN a = p" by simp
next
  have "PGROUNDDOWN a \<le> a"
    by (simp add: u32_le_iff_unat unat_PGROUNDDOWN)
  then have "unat (a - PGROUNDDOWN a) < 4096"
    by (simp add: unat_sub_le unat_PGROUNDDOWN minus_div_mult_eq_mod)
  then show "PGROUNDDOWN a = p \<Longrightarrow> a - p < PGSIZE"
    by (auto simp: u32_less_iff_unat)
qed

lemma PDX_PGROUNDDOWN [simp]: "PDX (PGROUNDDOWN va) = PDX va"
  and PTX_PGROUNDDOWN [simp]: "PTX (PGROUNDDOWN va) = PTX va"
  by (simp_all add: u32_eq_iff_unat unat_PDX unat_PTX unat_PGROUNDDOWN
      div_mult2_eq [of _ 4096 1024, simplified])

lemma page_eq_iff:
  assumes "page_aligned a" "page_aligned b"
  shows "a = b \<longleftrightarrow> PDX a = PDX b \<and> PTX a = PTX b"
proof -
  have split: "unat p = (unat p div 4194304 * 1024 + unat p div 4096 mod 1024) * 4096"
    if "page_aligned p" for p
  proof -
    have "unat p div 4096 = unat p div 4096 div 1024 * 1024 + unat p div 4096 mod 1024"
      by simp
    then show ?thesis
      using page_aligned_eq [OF that] by (simp flip: div_mult2_eq)
  qed
  have "unat a = unat b" if "unat a div 4194304 = unat b div 4194304"
    "unat a div 4096 mod 1024 = unat b div 4096 mod 1024"
    by (subst split [OF assms(1)], subst split [OF assms(2)]) (simp add: that)
  then show ?thesis by (auto simp: u32_eq_iff_unat unat_PDX unat_PTX)
qed

lemma PGADDR_PDX_PTX: "PGADDR (PDX va) (PTX va) (PTE_FLAGS va) = va"
  unfolding PGADDR_def PDX_def PTX_def PTE_FLAGS_def mask_12_u32 mask_10_u32
proof (rule bit_word_eqI)
  fix n assume "n < LENGTH(32)"
  then consider "n < 12" | "12 \<le> n" "n < 22" | "22 \<le> n" "n < 32"
    by fastforce
  then show "bit (push_bit 22 (drop_bit 22 va AND mask 10) OR push_bit 12 (drop_bit 12 va AND mask 10)
      OR va AND mask 12) n = bit va n"
    by cases (auto simp: bit_simps)
qed

section \<open>Page table entries\<close>

lemma PTE_ADDR_or:
  assumes "page_aligned pa" "take_bit 12 flags = flags"
  shows "PTE_ADDR (pa OR flags) = pa"
proof (rule bit_word_eqI)
  fix n assume "n < LENGTH(32)"
  moreover have "bit (take_bit 12 pa) n = bit (0::u32) n" "bit (take_bit 12 flags) n = bit flags n"
    using assms by (simp_all only: page_aligned_take_bit)
  ultimately show "bit (PTE_ADDR (pa OR flags)) n = bit pa n"
    by (auto simp: PTE_ADDR_def mask_12_u32 bit_simps)
qed

lemma PTE_FLAGS_or:
  assumes "page_aligned pa" "take_bit 12 flags = flags"
  shows "PTE_FLAGS (pa OR flags) = flags"
proof (rule bit_word_eqI)
  fix n assume "n < LENGTH(32)"
  moreover have "bit (take_bit 12 pa) n = bit (0::u32) n" "bit (take_bit 12 flags) n = bit flags n"
    using assms by (simp_all only: page_aligned_take_bit)
  ultimately show "bit (PTE_FLAGS (pa OR flags)) n = bit flags n"
    by (auto simp: PTE_FLAGS_def mask_12_u32 bit_simps)
qed

section \<open>The direct map\<close>

lemma V2P_P2V [simp]: "V2P (P2V a) = a" and P2V_V2P [simp]: "P2V (V2P a) = a"
  by (simp_all add: V2P_def P2V_def)

lemma page_aligned_KERNBASE: "page_aligned KERNBASE"
  by (simp add: page_aligned_def)

lemma page_aligned_V2P [simp]: "page_aligned (V2P a) \<longleftrightarrow> page_aligned a"
  using page_aligned_add [of "V2P a" KERNBASE] page_aligned_sub [of a KERNBASE] page_aligned_KERNBASE
  by (auto simp: V2P_def)

lemma page_aligned_P2V [simp]: "page_aligned (P2V a) \<longleftrightarrow> page_aligned a"
  using page_aligned_V2P [of "P2V a"] by simp

end
