(* ===== verification/Memory.thy ===== *)
theory Memory
  imports Mmu
begin

text \<open>
  Kernel memory as bytes addressed by kernel virtual address, the little-endian 32-bit
  loads and stores the kernel makes through \<^verbatim>\<open>uint*\<close> pointers (page tables, the free
  list), and the block and string routines of \<^verbatim>\<open>string.c\<close> that work on it.
\<close>

type_synonym memory = "u32 \<Rightarrow> u8"

section \<open>32-bit loads and stores\<close>

definition load32 :: "memory \<Rightarrow> u32 \<Rightarrow> u32" where
  "load32 m a = ucast (m a) OR push_bit 8 (ucast (m (a + 1)))
     OR push_bit 16 (ucast (m (a + 2))) OR push_bit 24 (ucast (m (a + 3)))"

definition store32 :: "memory \<Rightarrow> u32 \<Rightarrow> u32 \<Rightarrow> memory" where
  "store32 m a v = m(a := ucast v, a + 1 := ucast (drop_bit 8 v),
     a + 2 := ucast (drop_bit 16 v), a + 3 := ucast (drop_bit 24 v))"

definition aligned4 :: "u32 \<Rightarrow> bool" where
  "aligned4 a \<longleftrightarrow> a mod 4 = 0"

text \<open>The \<open>n\<close> addresses from \<open>p\<close> on are those with \<^term>\<open>x - p < n\<close>, also where the
  block wraps around the end of the address space.\<close>

lemma load32_cong:
  assumes "\<And>x. x - a < 4 \<Longrightarrow> m x = m' x"
  shows "load32 m a = load32 m' a"
  using assms [of a] assms [of "a + 1"] assms [of "a + 2"] assms [of "a + 3"]
  by (simp add: load32_def)

lemma store32_elsewhere:
  assumes "\<not> x - a < 4"
  shows "store32 m a v x = m x"
  using assms by (auto simp: store32_def)

lemma load32_store32_same [simp, mem_simps]: "load32 (store32 m a v) a = v"
proof (rule bit_word_eqI)
  fix n assume n: "n < LENGTH(32)"
  then consider "n < 8" | "8 \<le> n" "n < 16" | "16 \<le> n" "n < 24" | "24 \<le> n" "n < 32"
    by fastforce
  then show "bit (load32 (store32 m a v) a) n = bit v n"
    by cases (auto simp: load32_def store32_def bit_simps)
qed

lemma aligned4_unat: "aligned4 a \<longleftrightarrow> unat a mod 4 = 0"
  by (simp add: aligned4_def u32_eq_iff_unat unat_mod)

lemma aligned4_offset:
  assumes "aligned4 a" "aligned4 b" "a + i = b + j" "i < 4" "j < 4"
  shows "a = b"
proof -
  have step: "unat (p + k) div 4 = unat p div 4" "unat p = unat p div 4 * 4"
    if "aligned4 p" "k < 4" for p k :: u32
  proof -
    have q: "unat p = 4 * (unat p div 4)"
      using that(1) unfolding aligned4_unat by (simp add: mod_eq_0_iff_dvd)
    have k: "unat k < 4"
      using that(2) by (simp add: u32_less_iff_unat)
    have "unat p div 4 \<le> 1073741823"
      using u32_lt_4G [of p] by linarith
    with q k have "unat p + unat k < 4294967296"
      by linarith
    with q have "unat (p + k) = 4 * (unat p div 4) + unat k"
      by (simp add: unat_add_lt)
    then show "unat (p + k) div 4 = unat p div 4" "unat p = unat p div 4 * 4"
      using k q by simp_all
  qed
  show ?thesis
    using step [OF assms(1,4)] step [OF assms(2,5)] assms(3) by (simp add: u32_eq_iff_unat)
qed

lemma aligned4_disjoint:
  assumes "aligned4 a" "aligned4 b" "a \<noteq> b" "x - a < 4"
  shows "\<not> x - b < 4"
  using assms aligned4_offset [of a b "x - a" "x - b"] by auto

lemma load32_store32_other [mem_simps]:
  assumes "aligned4 a" "aligned4 b" "a \<noteq> b"
  shows "load32 (store32 m a v) b = load32 m b"
  by (rule load32_cong, rule store32_elsewhere, rule aligned4_disjoint [of b a])
    (use assms in auto)

section \<open>Filling and copying blocks\<close>

text \<open>The instructions \<^verbatim>\<open>rep stosb\<close> and \<^verbatim>\<open>rep stosl\<close>, as \<^verbatim>\<open>x86.h\<close> issues them: \<open>n\<close> bytes,
  or \<open>n\<close> 32-bit words, stored at increasing addresses.\<close>

primrec stosb :: "memory \<Rightarrow> u32 \<Rightarrow> u8 \<Rightarrow> nat \<Rightarrow> memory" where
  "stosb m a c 0 = m"
| "stosb m a c (Suc n) = stosb (m(a := c)) (a + 1) c n"

primrec stosl :: "memory \<Rightarrow> u32 \<Rightarrow> u32 \<Rightarrow> nat \<Rightarrow> memory" where
  "stosl m a v 0 = m"
| "stosl m a v (Suc n) = stosl (store32 m a v) (a + 4) v n"

definition memset :: "memory \<Rightarrow> u32 \<Rightarrow> i32 \<Rightarrow> u32 \<Rightarrow> memory" where
  "memset m dst c n =
     (if dst mod 4 = 0 \<and> n mod 4 = 0 then
        let c = c AND 0xFF
        in stosl m dst (push_bit 24 c OR push_bit 16 c OR push_bit 8 c OR c) (unat (n div 4))
      else stosb m dst (ucast c) (unat n))"

text \<open>What every fill comes to: the byte \<open>c\<close> at the \<open>n\<close> addresses from \<open>p\<close>.\<close>

definition fill :: "memory \<Rightarrow> u32 \<Rightarrow> u32 \<Rightarrow> u8 \<Rightarrow> memory" where
  "fill m p n c = (\<lambda>a. if a - p < n then c else m a)"

lemma stosb_fill:
  "n < 4294967296 \<Longrightarrow> stosb m a c n = (\<lambda>x. if unat (x - a) < n then c else m x)"
proof (induction n arbitrary: m a)
  case 0
  then show ?case by simp
next
  case (Suc n)
  have "unat (x - (a + 1)) < n \<and> x \<noteq> a \<or> x = a \<longleftrightarrow> unat (x - a) < Suc n" for x
  proof (cases "x = a")
    case False
    then have "unat (x - a) = Suc (unat (x - a - 1))"
      by (simp add: unat_minus_one unat_gt_0)
    then show ?thesis using False by (simp add: diff_diff_eq)
  qed simp
  moreover have "\<not> unat (a - (a + 1)) < n"
    using Suc.prems by simp
  ultimately show ?case
    using Suc by (auto simp: fun_eq_iff)
qed

lemma stosl_stosb:
  assumes "v = push_bit 24 c OR push_bit 16 c OR push_bit 8 c OR c" "c = b AND 0xFF"
  shows "stosl m a v n = stosb m a (ucast b) (4 * n)"
proof -
  have m8: "(255 :: u32) = mask 8"
    by (simp add: mask_eq_exp_minus_1)
  have byte: "ucast (drop_bit k v) = (ucast b :: u8)" if "k \<in> {0, 8, 16, 24}" for k
  proof (rule bit_word_eqI)
    fix i assume "i < LENGTH(8)"
    then have i: "i < 8" by simp
    from that show "bit (ucast (drop_bit k v) :: u8) i = bit (ucast b :: u8) i"
      unfolding assms m8 by (elim insertE emptyE) (use i in \<open>simp_all add: bit_simps\<close>)
  qed
  have "store32 m a v = stosb m a (ucast b) 4" for m a
    using byte [of 0] byte [of 8] byte [of 16] byte [of 24]
    by (simp add: store32_def numeral_eq_Suc ac_simps)
  moreover have "stosb m a x (4 + k) = stosb (stosb m a x 4) (a + 4) x k" for m a x k
    by (simp add: numeral_eq_Suc ac_simps)
  ultimately show ?thesis
    by (induction n arbitrary: m a) simp_all
qed

theorem memset_fill: "memset m dst c n = fill m dst n (ucast c)"
proof (cases "dst mod 4 = 0 \<and> n mod 4 = 0")
  case True
  then have n4: "4 * unat (n div 4) = unat n"
    unfolding u32_eq_iff_unat unat_mod unat_div by (simp add: mod_eq_0_iff_dvd)
  have "memset m dst c n = stosb m dst (ucast c) (unat n)"
    unfolding memset_def Let_def if_P [OF True] stosl_stosb [OF refl refl] n4 ..
  then show ?thesis
    using u32_lt_4G [of n] by (simp add: stosb_fill fill_def u32_less_iff_unat)
next
  case False
  then show ?thesis
    unfolding memset_def if_not_P [OF False]
    using u32_lt_4G [of n] by (simp add: stosb_fill fill_def u32_less_iff_unat)
qed

lemma load32_fill_outside [mem_simps]:
  assumes "\<And>x. x - a < 4 \<Longrightarrow> \<not> x - p < n"
  shows "load32 (fill m p n c) a = load32 m a"
  using assms by (intro load32_cong) (simp add: fill_def)

lemma load32_fill_zero [mem_simps]:
  assumes "\<And>x. x - a < 4 \<Longrightarrow> x - p < n"
  shows "load32 (fill m p n 0) a = 0"
proof -
  have "load32 (fill m p n 0) a = load32 (\<lambda>_. 0) a"
    using assms by (intro load32_cong) (simp add: fill_def)
  then show ?thesis by (simp add: load32_def)
qed

section \<open>Copying\<close>

primrec copy_up :: "memory \<Rightarrow> u32 \<Rightarrow> u32 \<Rightarrow> nat \<Rightarrow> memory" where
  "copy_up m d s 0 = m"
| "copy_up m d s (Suc n) = copy_up (m(d := m s)) (d + 1) (s + 1) n"

primrec copy_down :: "memory \<Rightarrow> u32 \<Rightarrow> u32 \<Rightarrow> nat \<Rightarrow> memory" where
  "copy_down m d s 0 = m"
| "copy_down m d s (Suc n) = copy_down (m(d - 1 := m (s - 1))) (d - 1) (s - 1) n"

definition memmove :: "memory \<Rightarrow> u32 \<Rightarrow> u32 \<Rightarrow> u32 \<Rightarrow> memory" where
  "memmove m dst src n =
     (if src < dst \<and> dst < src + n then copy_down m (dst + n) (src + n) (unat n)
      else copy_up m dst src (unat n))"

text \<open>What a copy should do: every byte of the destination block is the byte the source
  block had before the call.\<close>

definition blit :: "memory \<Rightarrow> u32 \<Rightarrow> u32 \<Rightarrow> u32 \<Rightarrow> memory" where
  "blit m d s n = (\<lambda>x. if x - d < n then m (s + (x - d)) else m x)"

lemma copy_up_blit:
  assumes "n < 4294967296" "\<And>i j. i < j \<Longrightarrow> j < n \<Longrightarrow> s + of_nat j \<noteq> d + of_nat i"
  shows "copy_up m d s n = (\<lambda>x. if unat (x - d) < n then m (s + (x - d)) else m x)"
  using assms
proof (induction n arbitrary: m d s)
  case 0
  then show ?case by simp
next
  case (Suc n)
  have IH: "copy_up (m(d := m s)) (d + 1) (s + 1) n =
      (\<lambda>x. if unat (x - (d + 1)) < n then (m(d := m s)) (s + 1 + (x - (d + 1))) else (m(d := m s)) x)"
  proof (rule Suc.IH)
    show "n < 4294967296" using Suc.prems(1) by simp
    show "s + 1 + of_nat j \<noteq> d + 1 + of_nat i" if "i < j" "j < n" for i j
      using Suc.prems(2) [of "Suc i" "Suc j"] that by (simp add: ac_simps)
  qed
  have "copy_up m d s (Suc n) x = (if unat (x - d) < Suc n then m (s + (x - d)) else m x)" for x
  proof (cases "x = d")
    case True
    then show ?thesis using IH Suc.prems(1) by simp
  next
    case False
    then have u: "unat (x - d) = Suc (unat (x - (d + 1)))"
      by (simp add: unat_minus_one unat_gt_0 diff_diff_eq [symmetric])
    have "s + (x - d) \<noteq> d" if "unat (x - d) < Suc n"
      using Suc.prems(2) [of 0 "unat (x - d)"] that u by simp
    then show ?thesis using False u IH by (auto simp: algebra_simps)
  qed
  then show ?case by blast
qed

lemma copy_down_blit:
  assumes "n < 4294967296" "\<And>i j. j < i \<Longrightarrow> i < n \<Longrightarrow> s + of_nat j \<noteq> d + of_nat i"
  shows "copy_down m (d + of_nat n) (s + of_nat n) n =
    (\<lambda>x. if unat (x - d) < n then m (s + (x - d)) else m x)"
  using assms
proof (induction n arbitrary: m)
  case 0
  then show ?case by simp
next
  case (Suc n)
  let ?m = "m(d + of_nat n := m (s + of_nat n))"
  have IH: "copy_down ?m (d + of_nat n) (s + of_nat n) n =
      (\<lambda>x. if unat (x - d) < n then ?m (s + (x - d)) else ?m x)"
    using Suc.prems by (intro Suc.IH) auto
  have unat_n: "unat (of_nat n :: u32) = n"
    using Suc.prems(1) by (simp add: unat_of_nat take_bit_nat_eq_self)
  have "copy_down m (d + of_nat (Suc n)) (s + of_nat (Suc n)) (Suc n) x =
      (if unat (x - d) < Suc n then m (s + (x - d)) else m x)" for x
  proof (cases "unat (x - d) = n")
    case True
    moreover have "of_nat (unat (x - d)) = x - d" by simp
    ultimately have "x - d = of_nat n" by metis
    then have "x = d + of_nat n" by (simp add: algebra_simps)
    then show ?thesis using IH unat_n by (simp add: algebra_simps)
  next
    case False
    then have "x \<noteq> d + of_nat n" using unat_n by auto
    moreover have "s + (x - d) \<noteq> d + of_nat n" if "unat (x - d) < n"
      using Suc.prems(2) [of "unat (x - d)" n] that by simp
    ultimately show ?thesis using IH False by (auto simp: less_Suc_eq algebra_simps)
  qed
  then show ?case by blast
qed

lemma unat_of_nat_u32: "n < 4294967296 \<Longrightarrow> unat (of_nat n :: u32) = n"
  by (simp add: unat_of_nat take_bit_nat_eq_self)

theorem memmove_blit:
  assumes src: "unat src + unat n < 4294967296" and dst: "unat dst + unat n \<le> 4294967296"
  shows "memmove m dst src n = blit m dst src n"
proof -
  have at: "unat (p + of_nat k) = unat p + k"
    if "k < unat n" "unat p + unat n \<le> 4294967296" for p :: u32 and k
    using that by (subst unat_add_lt) (simp_all add: unat_of_nat_u32)
  have end_src: "unat (src + n) = unat src + unat n"
    using src by (simp add: unat_add_lt)
  show ?thesis
  proof (cases "src < dst \<and> dst < src + n")
    case True
    have "copy_down m (dst + of_nat (unat n)) (src + of_nat (unat n)) (unat n) =
        (\<lambda>x. if unat (x - dst) < unat n then m (src + (x - dst)) else m x)"
    proof (rule copy_down_blit)
      fix i j assume "j < i" "i < unat n"
      then have "unat (src + of_nat j) < unat (dst + of_nat i)"
        using True src dst by (simp add: at u32_less_iff_unat)
      then show "src + of_nat j \<noteq> dst + of_nat i" by auto
    qed (rule u32_lt_4G)
    with True show ?thesis
      by (simp add: memmove_def blit_def u32_less_iff_unat)
  next
    case False
    have "copy_up m dst src (unat n) =
        (\<lambda>x. if unat (x - dst) < unat n then m (src + (x - dst)) else m x)"
    proof (rule copy_up_blit)
      fix i j assume "i < j" "j < unat n"
      then have "unat (src + of_nat j) \<noteq> unat (dst + of_nat i)"
        using False src dst by (auto simp: at u32_less_iff_unat end_src)
      then show "src + of_nat j \<noteq> dst + of_nat i" by metis
    qed (rule u32_lt_4G)
    then show ?thesis
      unfolding memmove_def if_not_P [OF False] by (simp add: blit_def u32_less_iff_unat)
  qed
qed

section \<open>Bytes from elsewhere\<close>

text \<open>The destination of a copy whose source is not kernel memory (a file's bytes, the image of
  the first program, memory of a running program): the bytes of the source, as a list, land
  at \<open>a\<close>.\<close>

definition poke :: "memory \<Rightarrow> u32 \<Rightarrow> u8 list \<Rightarrow> memory" where
  "poke m a bs = (\<lambda>x. if unat (x - a) < length bs then bs ! unat (x - a) else m x)"

definition peek :: "memory \<Rightarrow> u32 \<Rightarrow> nat \<Rightarrow> u8 list" where
  "peek m a n = map (\<lambda>i. m (a + of_nat i)) [0..<n]"

lemma poke_Nil [simp]: "poke m a [] = m"
  by (simp add: poke_def)

lemma peek_poke: "length bs \<le> 4294967296 \<Longrightarrow> peek (poke m a bs) a (length bs) = bs"
  by (auto simp: peek_def poke_def unat_of_nat_u32 intro!: nth_equalityI)

section \<open>Pages and the 32-bit entries of a page\<close>

text \<open>\<^verbatim>\<open>&pgdir[i]\<close> for a \<^verbatim>\<open>uint *pgdir\<close>.\<close>

definition entry :: "u32 \<Rightarrow> u32 \<Rightarrow> u32" where
  "entry p i = p + 4 * i"

lemma unat_entry:
  assumes "page_aligned p" "i < 1024"
  shows "unat (entry p i) = unat p + 4 * unat i"
proof -
  have "unat (4 * i) = 4 * unat i" and "4 * i < PGSIZE"
    using assms(2) by (simp_all add: u32_less_iff_unat unat_word_ariths)
  then show ?thesis
    using assms(1) by (simp add: entry_def unat_page_offset)
qed

lemma entry_in_page: "page_aligned p \<Longrightarrow> i < 1024 \<Longrightarrow> entry p i - p < PGSIZE"
  by (simp add: entry_def u32_less_iff_unat unat_word_ariths)

lemma aligned4_entry [simp]: "page_aligned p \<Longrightarrow> i < 1024 \<Longrightarrow> aligned4 (entry p i)"
  by (auto simp: aligned4_unat unat_entry page_aligned_unat mod_eq_0_iff_dvd intro: dvd_trans)

lemma same_page:
  assumes "page_aligned p" "page_aligned q" "x - p < PGSIZE" "x - q < PGSIZE"
  shows "p = q"
  using PGROUNDDOWN_offset [OF assms(1,3)] PGROUNDDOWN_offset [OF assms(2,4)] by simp

lemma page_between:
  assumes "page_aligned a" "page_aligned p" "unat p \<le> unat a" "unat a < unat p + 4096"
  shows "a = p"
  using assms by (intro same_page [of a p a])
    (simp_all add: u32_less_iff_unat unat_sub_le u32_le_iff_unat)

lemma entry_eq_iff:
  assumes "page_aligned p" "page_aligned q" "i < 1024" "j < 1024"
  shows "entry p i = entry q j \<longleftrightarrow> p = q \<and> i = j"
proof
  assume eq: "entry p i = entry q j"
  with assms have "p = q"
    by (metis same_page entry_in_page)
  moreover from this eq assms have "i = j"
    by (simp add: u32_eq_iff_unat unat_entry)
  ultimately show "p = q \<and> i = j" by simp
qed simp

lemma entry_word_in_page:
  assumes "page_aligned p" "i < 1024" "x - entry p i < 4"
  shows "x - p < PGSIZE"
proof -
  have "unat (x - p) = 4 * unat i + unat (x - entry p i)"
  proof -
    have i: "unat (4 * i) = 4 * unat i"
      using assms(2) by (simp add: u32_less_iff_unat unat_word_ariths)
    then have "unat (4 * i + (x - entry p i)) = 4 * unat i + unat (x - entry p i)"
      using assms(2,3) by (subst unat_add_lt) (simp_all add: u32_less_iff_unat)
    moreover have "4 * i + (x - entry p i) = x - p" by (simp add: entry_def)
    ultimately show ?thesis by simp
  qed
  then show ?thesis using assms(2,3) by (simp add: u32_less_iff_unat)
qed

lemma load32_store32_entry:
  assumes "page_aligned p" "page_aligned q" "i < 1024" "j < 1024"
  shows "load32 (store32 m (entry p i) v) (entry q j) =
    (if p = q \<and> i = j then v else load32 m (entry q j))"
  using assms by (auto simp: load32_store32_other entry_eq_iff)

lemma store32_entry_elsewhere:
  assumes "page_aligned p" "i < 1024" "\<not> x - p < PGSIZE"
  shows "store32 m (entry p i) v x = m x"
  using assms entry_word_in_page [of p i x] by (auto intro: store32_elsewhere)

lemma load32_fill_page:
  assumes "page_aligned p" "page_aligned q" "j < 1024"
  shows "load32 (fill m p PGSIZE 0) (entry q j) = (if p = q then 0 else load32 m (entry q j))"
proof (cases "p = q")
  case True
  then show ?thesis
    using assms entry_word_in_page [of q j] by (simp add: load32_fill_zero)
next
  case False
  have "load32 (fill m p PGSIZE 0) (entry q j) = load32 m (entry q j)"
    using False assms entry_word_in_page [of q j] same_page [of p q]
    by (intro load32_fill_outside) blast
  with False show ?thesis by simp
qed

end
