(* ===== verification/Kalloc.thy ===== *)
theory Kalloc
  imports Memory
begin

text \<open>
  The physical page allocator of \<^verbatim>\<open>kalloc.c\<close>. The free list lives in the free pages
  themselves: the first word of a free page is the address of the next one, and
  \<^verbatim>\<open>kmem.freelist\<close> is the first page of the list. The section under \<^verbatim>\<open>kmem.lock\<close> is one
  atomic step here (the lock itself is the subject of theory Spinlock). The theory shows
  that the routines implement a stack of distinct pages, states that contract as the locale
  \<open>page_allocator\<close>, and derives what its clients rely on there.
\<close>

section \<open>State\<close>

text \<open>The addresses the linker script \<^verbatim>\<open>kernel.ld\<close> gives to \<^verbatim>\<open>end\<close> (first address after the
  kernel image) and \<^verbatim>\<open>data\<close> (start of the writable kernel data).\<close>

record ksyms =
  sym_end :: u32
  sym_data :: u32

record kstate =
  mem :: memory
  use_lock :: bool
  freelist :: u32

section \<open>Operations\<close>

definition kfree :: "ksyms \<Rightarrow> u32 \<Rightarrow> kstate \<Rightarrow> (unit, kstate) outcome" where
  "kfree L v s =
     (if v mod PGSIZE \<noteq> 0 \<or> v < sym_end L \<or> V2P v \<ge> PHYSTOP then Panic ''kfree''
      else
        let m = memset (mem s) v 1 PGSIZE;
            m = store32 m v (freelist s)
        in Ok () (s\<lparr>mem := m, freelist := v\<rparr>))"

definition kalloc :: "kstate \<Rightarrow> u32 \<times> kstate" where
  "kalloc s =
     (let r = freelist s
      in (r, if r \<noteq> 0 then s\<lparr>freelist := load32 (mem s) r\<rparr> else s))"

text \<open>A loop that steps an address by \<^const>\<open>plus\<close> \<^verbatim>\<open>PGSIZE\<close> meets every page once in
  \<^term>\<open>2 ^ 20 :: nat\<close> rounds; one that has not stopped by then never does.\<close>

definition page_fuel :: nat where
  "page_fuel = 1048577"

primrec freerange_loop :: "ksyms \<Rightarrow> nat \<Rightarrow> u32 \<Rightarrow> u32 \<Rightarrow> kstate \<Rightarrow> (unit, kstate) outcome" where
  "freerange_loop L 0 p vend s = Diverge"
| "freerange_loop L (Suc fuel) p vend s =
     (if p + PGSIZE \<le> vend
      then bindO (kfree L p s) (\<lambda>_ s. freerange_loop L fuel (p + PGSIZE) vend s)
      else Ok () s)"

lemma freerange_loop_step:
  "0 < fuel \<Longrightarrow> freerange_loop L fuel p vend s =
     (if p + PGSIZE \<le> vend
      then bindO (kfree L p s) (\<lambda>_ s. freerange_loop L (fuel - 1) (p + PGSIZE) vend s)
      else Ok () s)"
  by (cases fuel) simp_all

definition freerange :: "ksyms \<Rightarrow> u32 \<Rightarrow> u32 \<Rightarrow> kstate \<Rightarrow> (unit, kstate) outcome" where
  "freerange L vstart vend s = freerange_loop L page_fuel (PGROUNDUP vstart) vend s"

definition kinit1 :: "ksyms \<Rightarrow> u32 \<Rightarrow> u32 \<Rightarrow> kstate \<Rightarrow> (unit, kstate) outcome" where
  "kinit1 L vstart vend s = freerange L vstart vend (s\<lparr>use_lock := False\<rparr>)"

definition kinit2 :: "ksyms \<Rightarrow> u32 \<Rightarrow> u32 \<Rightarrow> kstate \<Rightarrow> (unit, kstate) outcome" where
  "kinit2 L vstart vend s =
     bindO (freerange L vstart vend s) (\<lambda>_ s. Ok () (s\<lparr>use_lock := True\<rparr>))"

section \<open>The free list as a list of pages\<close>

text \<open>The pages \<^const>\<open>kfree\<close> accepts.\<close>

definition kpage :: "ksyms \<Rightarrow> u32 \<Rightarrow> bool" where
  "kpage L p \<longleftrightarrow> page_aligned p \<and> sym_end L \<le> p \<and> V2P p < PHYSTOP"

primrec flist :: "memory \<Rightarrow> u32 \<Rightarrow> u32 list \<Rightarrow> bool" where
  "flist m p [] \<longleftrightarrow> p = 0"
| "flist m p (x # xs) \<longleftrightarrow> p = x \<and> p \<noteq> 0 \<and> flist m (load32 m p) xs"

definition free_rep :: "ksyms \<Rightarrow> kstate \<Rightarrow> u32 list \<Rightarrow> bool" where
  "free_rep L s xs \<longleftrightarrow> flist (mem s) (freelist s) xs \<and> distinct xs \<and> list_all (kpage L) xs"

lemma kpage_aligned [dest]: "kpage L p \<Longrightarrow> page_aligned p"
  by (simp add: kpage_def)

lemma kpage_nonzero: "kpage L p \<Longrightarrow> p \<noteq> 0"
  by (auto simp: kpage_def V2P_def)

lemma flist_cong:
  "(\<And>x. x \<in> set xs \<Longrightarrow> load32 m x = load32 m' x) \<Longrightarrow> flist m p xs = flist m' p xs"
  by (induction xs arbitrary: p) auto

lemma load32_page_head: "load32 m p = load32 m (entry p 0)"
  by (simp add: entry_def)

lemma free_rep_frame:
  assumes "free_rep L s xs" "freelist s' = freelist s"
    and "\<And>a. PGROUNDDOWN a \<in> set xs \<Longrightarrow> mem s' a = mem s a"
  shows "free_rep L s' xs"
proof -
  have "load32 (mem s') x = load32 (mem s) x" if "x \<in> set xs" for x
  proof (rule load32_cong)
    fix a :: u32 assume a: "a - x < 4"
    have "page_aligned x"
      using assms(1) that by (auto simp: free_rep_def list_all_iff)
    moreover have "a - x < PGSIZE"
      using a by (simp add: u32_less_iff_unat)
    ultimately have "PGROUNDDOWN a = x"
      using PGROUNDDOWN_offset [of x "a - x"] by simp
    with assms(3) that show "mem s' a = mem s a" by simp
  qed
  then have "flist (mem s') p xs = flist (mem s) p xs" for p
    by (rule flist_cong)
  with assms(1,2) show ?thesis
    by (simp add: free_rep_def)
qed

section \<open>The operations on the list\<close>

lemma kalloc_empty: "free_rep L s [] \<Longrightarrow> kalloc s = (0, s)"
  by (simp add: free_rep_def kalloc_def)

lemma kalloc_cons:
  assumes "free_rep L s (x # xs)"
  shows "kalloc s = (x, s\<lparr>freelist := load32 (mem s) x\<rparr>)"
    and "free_rep L (s\<lparr>freelist := load32 (mem s) x\<rparr>) xs"
  using assms by (auto simp: free_rep_def kalloc_def)

lemma kalloc_mem [simp]: "mem (snd (kalloc s)) = mem s"
  by (simp add: kalloc_def Let_def)

lemma kalloc_use_lock [simp]: "use_lock (snd (kalloc s)) = use_lock s"
  by (simp add: kalloc_def Let_def)

lemma kfree_panic: "\<not> kpage L v \<Longrightarrow> kfree L v s = Panic ''kfree''"
  by (simp add: kfree_def kpage_def page_aligned_def linorder_not_less linorder_not_le)

lemma kfree_kpage:
  "kpage L v \<Longrightarrow> kfree L v s =
    Ok () (s\<lparr>mem := store32 (fill (mem s) v PGSIZE 1) v (freelist s), freelist := v\<rparr>)"
  by (simp add: kfree_def kpage_def page_aligned_def memset_fill Let_def linorder_not_less
      linorder_not_le)

lemma kfree_rep:
  assumes "free_rep L s xs" "kpage L v" "v \<notin> set xs" "kfree L v s = Ok u s'"
  shows "free_rep L s' (v # xs)"
proof -
  from assms(2,4) have s': "s' = s\<lparr>mem := store32 (fill (mem s) v PGSIZE 1) v (freelist s), freelist := v\<rparr>"
    by (simp add: kfree_kpage)
  have "mem s' a = mem s a" if "PGROUNDDOWN a \<in> set xs" for a
  proof -
    have "\<not> a - v < PGSIZE"
      using that assms(2,3) PGROUNDDOWN_offset [of v "a - v"] by auto
    then show ?thesis
      using assms(2) s' store32_entry_elsewhere [of v 0 a]
      by (auto simp: entry_def fill_def)
  qed
  then have "free_rep L (s'\<lparr>freelist := freelist s\<rparr>) xs"
    by (intro free_rep_frame [OF assms(1)]) simp_all
  moreover have "load32 (mem s') v = freelist s"
    by (simp add: s')
  ultimately show ?thesis
    using assms(2,3) kpage_nonzero [OF assms(2)] by (simp add: free_rep_def s')
qed

section \<open>Initialisation\<close>

primrec pages :: "u32 \<Rightarrow> nat \<Rightarrow> u32 list" where
  "pages p 0 = []"
| "pages p (Suc n) = p # pages (p + PGSIZE) n"

lemma set_pages:
  assumes "page_aligned p" "unat p + 4096 * n \<le> 4294967296"
  shows "set (pages p n) = {a. page_aligned a \<and> unat p \<le> unat a \<and> unat a < unat p + 4096 * n}"
  using assms
proof (induction n arbitrary: p)
  case 0
  then show ?case by simp
next
  case (Suc n)
  have "set (pages (p + PGSIZE) n) =
      {a. page_aligned a \<and> unat p + 4096 \<le> unat a \<and> unat a < unat p + 4096 * Suc n}"
  proof (cases n)
    case 0
    then show ?thesis by auto
  next
    case (Suc k)
    with Suc.prems have "unat (p + PGSIZE) = unat p + 4096"
      by (subst unat_add_lt) simp_all
    then show ?thesis
      using Suc.IH [of "p + PGSIZE"] Suc.prems by (simp add: page_aligned_add add.assoc)
  qed
  moreover have "page_aligned a \<and> unat p \<le> unat a \<and> unat a < unat p + 4096 * Suc n \<longleftrightarrow>
      a = p \<or> page_aligned a \<and> unat p + 4096 \<le> unat a \<and> unat a < unat p + 4096 * Suc n" for a
    using page_between [of a p] Suc.prems(1) by force
  ultimately show ?case by auto
qed

lemma freerange_loop_rep:
  assumes "free_rep L s xs" "page_aligned p" "n < fuel" "unat vend \<le> 4294963199"
    and "unat p + 4096 * n \<le> unat vend" "unat vend < unat p + 4096 * n + 4096"
    and "\<And>a. a \<in> set (pages p n) \<Longrightarrow> kpage L a \<and> a \<notin> set xs"
  shows "\<exists>s'. freerange_loop L fuel p vend s = Ok () s' \<and> free_rep L s' (rev (pages p n) @ xs)"
  using assms
proof (induction n arbitrary: fuel p s xs)
  case 0
  then obtain f where "fuel = Suc f" by (cases fuel) auto
  moreover have "\<not> p + PGSIZE \<le> vend"
    using "0.prems" by (simp add: u32_le_iff_unat unat_add_lt)
  ultimately show ?case using "0.prems" by simp
next
  case (Suc n)
  then obtain f where f: "fuel = Suc f" by (cases fuel) auto
  have p': "unat (p + PGSIZE) = unat p + 4096"
    using Suc.prems by (subst unat_add_lt) simp_all
  have kp: "kpage L p" "p \<notin> set xs"
    using Suc.prems(7) [of p] by simp_all
  then obtain s1 where s1: "kfree L p s = Ok () s1"
    by (simp add: kfree_kpage)
  from kfree_rep [OF Suc.prems(1) kp this] have rep: "free_rep L s1 (p # xs)" .
  have later: "kpage L a \<and> a \<notin> set (p # xs)" if "a \<in> set (pages (p + PGSIZE) n)" for a
  proof -
    have "unat p < unat a"
      using that Suc.prems p' by (subst (asm) set_pages) (simp_all add: page_aligned_add)
    with Suc.prems(7) [of a] that show ?thesis by auto
  qed
  have "\<exists>s'. freerange_loop L f (p + PGSIZE) vend s1 = Ok () s' \<and>
      free_rep L s' (rev (pages (p + PGSIZE) n) @ p # xs)"
    by (rule Suc.IH [OF rep]) (use Suc.prems f p' later in \<open>auto simp: page_aligned_add\<close>)
  moreover have "p + PGSIZE \<le> vend"
    using Suc.prems p' by (simp add: u32_le_iff_unat)
  ultimately show ?case using f s1 by simp
qed

lemma freerange_use_lock: "freerange L vstart vend s = Ok u s' \<Longrightarrow> use_lock s' = use_lock s"
proof -
  have "freerange_loop L fuel p vend s = Ok u s' \<Longrightarrow> use_lock s' = use_lock s" for fuel p s
    by (induction fuel arbitrary: p s)
      (auto simp: bindO_eq_Ok kfree_def Let_def split: if_splits)
  then show "freerange L vstart vend s = Ok u s' \<Longrightarrow> use_lock s' = use_lock s"
    by (simp add: freerange_def)
qed

text \<open>
  C34: Freeing a range of memory (\<^verbatim>\<open>freerange\<close>, as \<^verbatim>\<open>kinit1\<close> and \<^verbatim>\<open>kinit2\<close> call it) returns,
  without a panic, and puts on the free list exactly the pages that lie wholly inside the
  range, each once, before the pages that were free already. The range is one of kernel
  addresses above \<^verbatim>\<open>end\<close> and below the end of physical memory, and none of its pages is
  free yet.
\<close>

theorem freerange_frees_range:
  assumes rep: "free_rep L s xs"
    and range: "sym_end L \<le> vstart" "KERNBASE \<le> vstart" "vstart \<le> vend"
      "vend \<le> KERNBASE + PHYSTOP"
    and fresh: "\<And>a. a \<in> set xs \<Longrightarrow> vend \<le> a \<or> a < vstart"
  shows "\<exists>s' ys. freerange L vstart vend s = Ok () s' \<and> free_rep L s' (ys @ xs) \<and> use_lock s' = use_lock s \<and>
    set ys = {a. page_aligned a \<and> vstart \<le> a \<and> unat a + 4096 \<le> unat vend}"
proof -
  define p where "p = PGROUNDUP vstart"
  define n where "n = (unat vend - unat p) div 4096"
  have vs: "unat vstart + 4095 < 4294967296" and ve: "unat vend \<le> 2382364672"
    using range by (simp_all add: u32_le_iff_unat)
  have p: "page_aligned p" "unat vstart \<le> unat p"
    and least: "page_aligned a \<Longrightarrow> unat vstart \<le> unat a \<Longrightarrow> unat p \<le> unat a" for a
    using PGROUNDUP_ge [OF vs] PGROUNDUP_least [OF vs] by (simp_all add: p_def)
  show ?thesis
  proof (cases "unat p \<le> unat vend")
    case True
    have n: "unat p + 4096 * n \<le> unat vend" "unat vend < unat p + 4096 * n + 4096"
      using True unfolding n_def by linarith+
    have "unat a + 4096 \<le> unat p + 4096 * n"
      if "page_aligned a" "unat a < unat p + 4096 * n" for a
    proof -
      have "unat a div 4096 < unat p div 4096 + n"
        using that p(1) page_aligned_eq [of a] page_aligned_eq [of p] by linarith
      then show ?thesis
        using that p(1) page_aligned_eq [of a] page_aligned_eq [of p] by linarith
    qed
    then have set: "set (pages p n) = {a. page_aligned a \<and> vstart \<le> a \<and> unat a + 4096 \<le> unat vend}"
      using n ve p least by (subst set_pages) (fastforce simp: u32_le_iff_unat)+
    have "kpage L a \<and> a \<notin> set xs" if "a \<in> set (pages p n)" for a
    proof -
      from that set have a: "page_aligned a" "vstart \<le> a" "unat a + 4096 \<le> unat vend"
        by auto
      then have "unat (V2P a) = unat a - 2147483648"
        using range(2) by (simp add: V2P_def unat_sub_le)
      with a ve range fresh [of a] show ?thesis
        by (auto simp: kpage_def u32_less_iff_unat u32_le_iff_unat)
    qed
    then have "\<exists>s'. freerange L vstart vend s = Ok () s' \<and> free_rep L s' (rev (pages p n) @ xs)"
      unfolding freerange_def p_def [symmetric]
      by (intro freerange_loop_rep [OF rep p(1)]) (use n ve in \<open>auto simp: page_fuel_def\<close>)
    then show ?thesis
      using set freerange_use_lock by (metis set_rev)
  next
    case False
    have "unat p < unat vstart + 4096"
      using PGROUNDUP_ge [OF vs] by (simp add: p_def)
    with False ve range(3) have "\<not> p + PGSIZE \<le> vend"
      by (simp add: u32_le_iff_unat unat_add_lt)
    then have "freerange L vstart vend s = Ok () s"
      by (simp add: freerange_def p_def page_fuel_def freerange_loop_step)
    moreover have "{a. page_aligned a \<and> vstart \<le> a \<and> unat a + 4096 \<le> unat vend} = {}"
      using False least by (fastforce simp: u32_le_iff_unat)
    ultimately show ?thesis
      using rep by (metis append_Nil list.set(1))
  qed
qed

section \<open>The contract with the clients\<close>

text \<open>
  What the rest of the kernel relies on: an allocator state represents a list of free
  pages; allocation takes the first page or fails with 0 when there is none, freeing a
  valid page that is not free puts it in front, freeing anything else panics.
\<close>

locale page_allocator =
  fixes alloc :: "'s \<Rightarrow> u32 \<times> 's"
    and free :: "u32 \<Rightarrow> 's \<Rightarrow> (unit, 's) outcome"
    and valid :: "u32 \<Rightarrow> bool"
    and rep :: "'s \<Rightarrow> u32 list \<Rightarrow> bool"
  assumes rep_distinct: "rep s xs \<Longrightarrow> distinct xs"
    and rep_valid: "rep s xs \<Longrightarrow> x \<in> set xs \<Longrightarrow> valid x"
    and valid_nonzero: "valid v \<Longrightarrow> v \<noteq> 0"
    and alloc_nil: "rep s [] \<Longrightarrow> alloc s = (0, s)"
    and alloc_cons: "rep s (x # xs) \<Longrightarrow> \<exists>s'. alloc s = (x, s') \<and> rep s' xs"
    and free_valid: "rep s xs \<Longrightarrow> valid v \<Longrightarrow> v \<notin> set xs \<Longrightarrow> \<exists>s'. free v s = Ok () s' \<and> rep s' (v # xs)"
    and free_invalid: "\<not> valid v \<Longrightarrow> free v s = Panic ''kfree''"
begin

primrec alloc_n :: "nat \<Rightarrow> 's \<Rightarrow> u32 list \<times> 's" where
  "alloc_n 0 s = ([], s)"
| "alloc_n (Suc n) s =
     (let (p, s) = alloc s; (ps, s) = alloc_n n s in (p # ps, s))"

lemma alloc_zero_iff: "rep s xs \<Longrightarrow> fst (alloc s) = 0 \<longleftrightarrow> xs = []"
proof (cases xs)
  case (Cons y ys)
  assume rep: "rep s xs"
  with Cons obtain s' where "alloc s = (y, s')" using alloc_cons by blast
  moreover have "y \<noteq> 0"
    using rep_valid [OF rep, of y] valid_nonzero [of y] Cons by simp
  ultimately show ?thesis using Cons by simp
qed (simp add: alloc_nil)

lemma alloc_n_take:
  "rep s xs \<Longrightarrow> n \<le> length xs \<Longrightarrow> \<exists>s'. alloc_n n s = (take n xs, s') \<and> rep s' (drop n xs)"
proof (induction n arbitrary: s xs)
  case (Suc n)
  then obtain y ys where xs: "xs = y # ys" by (cases xs) auto
  with Suc.prems obtain s1 where "alloc s = (y, s1)" "rep s1 ys"
    using alloc_cons by blast
  with Suc.IH [of s1 ys] Suc.prems xs show ?case by auto
qed simp

lemma alloc_n_distinct:
  assumes "rep s xs" "n \<le> length xs"
  shows "distinct (fst (alloc_n n s))" "0 \<notin> set (fst (alloc_n n s))"
proof -
  obtain s' where s': "alloc_n n s = (take n xs, s')"
    using alloc_n_take [OF assms] by blast
  show "distinct (fst (alloc_n n s))"
    using rep_distinct [OF assms(1)] s' by simp
  show "0 \<notin> set (fst (alloc_n n s))"
    using rep_valid [OF assms(1)] valid_nonzero s' by (auto dest: in_set_takeD)
qed

lemma free_alloc:
  assumes "rep s xs" "valid v" "v \<notin> set xs"
  shows "\<exists>s1 s2. free v s = Ok () s1 \<and> alloc s1 = (v, s2) \<and> rep s2 xs"
  using free_valid [OF assms] alloc_cons by blast

end

interpretation kmem: page_allocator kalloc "kfree L" "kpage L" "free_rep L" for L
proof unfold_locales
  show "\<exists>s'. kfree L v s = Ok () s' \<and> free_rep L s' (v # xs)"
    if "free_rep L s xs" "kpage L v" "v \<notin> set xs" for s xs v
    using kfree_rep [OF that] kfree_kpage [OF that(2)] by simp
qed (auto simp: free_rep_def list_all_iff kpage_nonzero kfree_panic kalloc_def)

section \<open>What the kernel relies on\<close>

text \<open>A boot-time state and layout, the input of the witnesses of this theory.\<close>

definition demo_syms :: ksyms where
  "demo_syms = \<lparr>sym_end = 0x80110000, sym_data = 0x80108000\<rparr>"

definition demo_kstate :: kstate where
  "demo_kstate = \<lparr>mem = (\<lambda>_. 0), use_lock = False, freelist = 0\<rparr>"

lemma demo_kstate_rep: "free_rep demo_syms demo_kstate []"
  by (simp add: free_rep_def demo_kstate_def)

theorem freerange_frees_range_witness:
  "\<exists>s' ys. freerange demo_syms 0x80110001 0x80113000 demo_kstate = Ok () s' \<and>
    free_rep demo_syms s' (ys @ []) \<and> use_lock s' = use_lock demo_kstate \<and>
    set ys = {a. page_aligned a \<and> 0x80110001 \<le> a \<and> unat a + 4096 \<le> unat (0x80113000 :: u32)}"
  by (rule freerange_frees_range [OF demo_kstate_rep]) (simp_all add: demo_syms_def)

text \<open>
  C35: \<^verbatim>\<open>kfree\<close> and \<^verbatim>\<open>kalloc\<close> undo each other: after freeing a page the allocator accepts
  and that is not on the free list already, the next allocation returns that very page and
  leaves the free list as it was before; meanwhile the page's 4096 bytes have been
  overwritten and no byte outside the page has changed.
\<close>

theorem kfree_kalloc:
  assumes "free_rep L s xs" "kpage L v" "v \<notin> set xs"
  shows "\<exists>s1 s2. kfree L v s = Ok () s1 \<and> kalloc s1 = (v, s2) \<and> free_rep L s2 xs \<and>
    freelist s2 = freelist s \<and> (\<forall>a. \<not> a - v < PGSIZE \<longrightarrow> mem s2 a = mem s a)"
proof -
  obtain s1 s2 where s: "kfree L v s = Ok () s1" "kalloc s1 = (v, s2)" "free_rep L s2 xs"
    using kmem.free_alloc [OF assms] by blast
  have s1: "s1 = s\<lparr>mem := store32 (fill (mem s) v PGSIZE 1) v (freelist s), freelist := v\<rparr>"
    using s(1) assms(2) by (simp add: kfree_kpage)
  have "s2 = s1\<lparr>freelist := load32 (mem s1) v\<rparr>"
    using s(2) kpage_nonzero [OF assms(2)] by (auto simp: kalloc_def Let_def s1)
  then show ?thesis
    using s s1 assms(2) store32_entry_elsewhere [of v 0] by (auto simp: entry_def fill_def)
qed

theorem kfree_kalloc_witness:
  "\<exists>s1 s2. kfree demo_syms 0x80120000 demo_kstate = Ok () s1 \<and> kalloc s1 = (0x80120000, s2) \<and>
    free_rep demo_syms s2 [] \<and> freelist s2 = freelist demo_kstate \<and>
    (\<forall>a. \<not> a - 0x80120000 < PGSIZE \<longrightarrow> mem s2 a = mem demo_kstate a)"
  by (rule kfree_kalloc [OF demo_kstate_rep])
    (simp_all add: kpage_def demo_syms_def page_aligned_def V2P_def)

text \<open>
  C36: \<^verbatim>\<open>kfree\<close> guards the free list: it panics exactly on an address that is not page
  aligned, lies below the end of the kernel image or beyond physical memory; on any other
  address it returns.
\<close>

theorem kfree_guard:
  "if v mod PGSIZE = 0 \<and> sym_end L \<le> v \<and> KERNBASE \<le> v \<and> v < KERNBASE + PHYSTOP
   then \<exists>s'. kfree L v s = Ok () s' else kfree L v s = Panic ''kfree''"
proof -
  have "V2P v < PHYSTOP \<longleftrightarrow> KERNBASE \<le> v \<and> v < KERNBASE + PHYSTOP"
    unfolding V2P_def by (simp add: word_less_nat_alt word_le_nat_alt unat_sub_if') linarith
  then have "kpage L v \<longleftrightarrow>
      v mod PGSIZE = 0 \<and> sym_end L \<le> v \<and> KERNBASE \<le> v \<and> v < KERNBASE + PHYSTOP"
    by (simp add: kpage_def page_aligned_def)
  then show ?thesis
    using kfree_panic [of L v s] kfree_kpage [of L v s] by (cases "kpage L v") simp_all
qed

end
