(* ===== verification/Vm.thy ===== *)
theory Vm
  imports Kalloc "HOL-Library.Sublist"
begin

text \<open>
  The page tables of \<^verbatim>\<open>vm.c\<close>, as they lie in kernel memory: a page directory and the page
  tables it points to are pages of 1024 entries of 32 bits. The theory models
  \<^verbatim>\<open>walkpgdir\<close> and \<^verbatim>\<open>mappages\<close>, gives a page directory a meaning (the entry it holds for
  every virtual address), and shows that mapping a range changes exactly the entries of
  that range, takes its page tables from the free list and touches no other memory.
\<close>

section \<open>Operations\<close>

definition walkpgdir :: "u32 \<Rightarrow> u32 \<Rightarrow> bool \<Rightarrow> kstate \<Rightarrow> u32 \<times> kstate" where
  "walkpgdir pgdir va alloc s =
     (let pde = entry pgdir (PDX va)
      in if load32 (mem s) pde AND PTE_P \<noteq> 0 then
           let pgtab = P2V (PTE_ADDR (load32 (mem s) pde)) in (entry pgtab (PTX va), s)
         else if \<not> alloc then (0, s)
         else
           let (pgtab, s) = kalloc s
           in if pgtab = 0 then (0, s)
              else
                let m = memset (mem s) pgtab 0 PGSIZE;
                    m = store32 m pde (V2P pgtab OR PTE_P OR PTE_W OR PTE_U)
                in (entry pgtab (PTX va), s\<lparr>mem := m\<rparr>))"

primrec mappages_loop :: "nat \<Rightarrow> u32 \<Rightarrow> u32 \<Rightarrow> u32 \<Rightarrow> u32 \<Rightarrow> u32 \<Rightarrow> kstate \<Rightarrow> (i32, kstate) outcome" where
  "mappages_loop 0 pgdir a lasta pa perm s = Diverge"
| "mappages_loop (Suc fuel) pgdir a lasta pa perm s =
     (let (pte, s) = walkpgdir pgdir a True s
      in if pte = 0 then Ok (- 1) s
         else if load32 (mem s) pte AND PTE_P \<noteq> 0 then Panic ''remap''
         else
           let s = s\<lparr>mem := store32 (mem s) pte (pa OR perm OR PTE_P)\<rparr>
           in if a = lasta then Ok 0 s
              else mappages_loop fuel pgdir (a + PGSIZE) lasta (pa + PGSIZE) perm s)"

definition mappages :: "u32 \<Rightarrow> u32 \<Rightarrow> u32 \<Rightarrow> u32 \<Rightarrow> u32 \<Rightarrow> kstate \<Rightarrow> (i32, kstate) outcome" where
  "mappages pgdir va sz pa perm s =
     (let a = PGROUNDDOWN va; lasta = PGROUNDDOWN (va + sz - 1)
      in mappages_loop page_fuel pgdir a lasta pa perm s)"

section \<open>The meaning of a page directory\<close>

definition pde_at :: "memory \<Rightarrow> u32 \<Rightarrow> u32 \<Rightarrow> u32" where
  "pde_at m pgdir d = load32 m (entry pgdir d)"

definition present :: "u32 \<Rightarrow> bool" where
  "present e \<longleftrightarrow> e AND PTE_P \<noteq> 0"

definition pgtab_at :: "memory \<Rightarrow> u32 \<Rightarrow> u32 \<Rightarrow> u32" where
  "pgtab_at m pgdir d = P2V (PTE_ADDR (pde_at m pgdir d))"

text \<open>The page table entry of an address; 0 (not present) where there is no page table.\<close>

definition pte_at :: "memory \<Rightarrow> u32 \<Rightarrow> u32 \<Rightarrow> u32" where
  "pte_at m pgdir va =
     (if present (pde_at m pgdir (PDX va))
      then load32 m (entry (pgtab_at m pgdir (PDX va)) (PTX va)) else 0)"

text \<open>The pages a page directory is made of.\<close>

definition pt_pages :: "memory \<Rightarrow> u32 \<Rightarrow> u32 set" where
  "pt_pages m pgdir = insert pgdir (pgtab_at m pgdir ` {d. d < 1024 \<and> present (pde_at m pgdir d)})"

definition pt_wf :: "ksyms \<Rightarrow> memory \<Rightarrow> u32 \<Rightarrow> bool" where
  "pt_wf L m pgdir \<longleftrightarrow> kpage L pgdir \<and>
     (\<forall>d < 1024. present (pde_at m pgdir d) \<longrightarrow>
        kpage L (pgtab_at m pgdir d) \<and> pgtab_at m pgdir d \<noteq> pgdir \<and>
        (\<forall>d' < 1024. present (pde_at m pgdir d') \<longrightarrow>
           pgtab_at m pgdir d' = pgtab_at m pgdir d \<longrightarrow> d' = d))"

text \<open>A page directory next to the free list \<open>xs\<close>.\<close>

definition vm_inv :: "ksyms \<Rightarrow> kstate \<Rightarrow> u32 \<Rightarrow> u32 list \<Rightarrow> bool" where
  "vm_inv L s pgdir xs \<longleftrightarrow>
     free_rep L s xs \<and> pt_wf L (mem s) pgdir \<and> set xs \<inter> pt_pages (mem s) pgdir = {}"

subsection \<open>Basic facts\<close>

lemma present_bit: "present e \<longleftrightarrow> bit e 0"
  by (simp add: present_def and_one_eq bit_0 odd_iff_mod_2_eq_one)

lemma present_or [simp]: "present (a OR b) \<longleftrightarrow> present a \<or> present b"
  by (simp add: present_bit bit_or_iff)

lemma present_numeral [simp]: "present 0 = False" "present 1 = True"
  "present (numeral (num.Bit1 n)) = True" "present (numeral (num.Bit0 n)) = False"
  by (simp_all add: present_bit)

lemma pt_wf_pgdir: "pt_wf L m pgdir \<Longrightarrow> kpage L pgdir"
  by (simp add: pt_wf_def)

lemma pt_wf_pgtab:
  assumes "pt_wf L m pgdir" "d < 1024" "present (pde_at m pgdir d)"
  shows "kpage L (pgtab_at m pgdir d)" "pgtab_at m pgdir d \<noteq> pgdir"
    "page_aligned (pgtab_at m pgdir d)"
  using assms kpage_aligned unfolding pt_wf_def by blast+

lemma pt_wf_inj:
  assumes "pt_wf L m pgdir" "d < 1024" "present (pde_at m pgdir d)"
    "d' < 1024" "present (pde_at m pgdir d')"
  shows "pgtab_at m pgdir d' = pgtab_at m pgdir d \<longleftrightarrow> d' = d"
  using assms unfolding pt_wf_def by blast

lemma kpage_entry_nonzero:
  assumes "kpage L p" "i < 1024"
  shows "entry p i \<noteq> 0"
proof
  assume "entry p i = 0"
  moreover have "unat (entry p i) = unat p + 4 * unat i"
    using assms by (intro unat_entry) auto
  ultimately have "p = 0"
    by (simp add: u32_eq_iff_unat)
  with kpage_nonzero [OF assms(1)] show False ..
qed

lemma pt_pages_pgdir [simp, intro]: "pgdir \<in> pt_pages m pgdir"
  by (simp add: pt_pages_def)

lemma pt_pages_pgtab [intro]:
  "d < 1024 \<Longrightarrow> present (pde_at m pgdir d) \<Longrightarrow> pgtab_at m pgdir d \<in> pt_pages m pgdir"
  by (auto simp: pt_pages_def)

lemma pte_at_page: "pte_at m pgdir (PGROUNDDOWN va) = pte_at m pgdir va"
  by (simp add: pte_at_def)

text \<open>A page directory depends on its own pages only.\<close>

lemma load32_entry_frame:
  assumes "page_aligned p" "i < 1024" "\<And>a. PGROUNDDOWN a = p \<Longrightarrow> m' a = m a"
  shows "load32 m' (entry p i) = load32 m (entry p i)"
proof (rule load32_cong)
  fix x assume "x - entry p i < 4"
  with assms(1,2) have "x - p < PGSIZE" by (rule entry_word_in_page)
  with assms(1) have "PGROUNDDOWN x = p"
    by (simp add: in_page_iff)
  then show "m' x = m x" by (rule assms(3))
qed

lemma pt_frame:
  assumes "pt_wf L m pgdir" "\<And>a. PGROUNDDOWN a \<in> pt_pages m pgdir \<Longrightarrow> m' a = m a"
  shows "d < 1024 \<Longrightarrow> pde_at m' pgdir d = pde_at m pgdir d"
    and "pte_at m' pgdir va = pte_at m pgdir va"
    and "pt_wf L m' pgdir" and "pt_pages m' pgdir = pt_pages m pgdir"
proof -
  have pde: "pde_at m' pgdir d = pde_at m pgdir d" if "d < 1024" for d
    unfolding pde_at_def using that assms(2) kpage_aligned [OF pt_wf_pgdir [OF assms(1)]]
    by (intro load32_entry_frame) simp_all
  then show "d < 1024 \<Longrightarrow> pde_at m' pgdir d = pde_at m pgdir d" .
  have tab: "pgtab_at m' pgdir d = pgtab_at m pgdir d" if "d < 1024" for d
    using pde [OF that] by (simp add: pgtab_at_def)
  show "pte_at m' pgdir va = pte_at m pgdir va"
    using pde [of "PDX va"] tab [of "PDX va"] pt_wf_pgtab [OF assms(1), of "PDX va"]
    by (auto simp: pte_at_def intro!: load32_entry_frame assms(2) pt_pages_pgtab)
  show "pt_wf L m' pgdir"
    using assms(1) pde tab unfolding pt_wf_def by simp
  show "pt_pages m' pgdir = pt_pages m pgdir"
    unfolding pt_pages_def using pde tab by (intro arg_cong [where f = "insert pgdir"] image_cong) auto
qed

section \<open>Storing an entry\<close>

text \<open>Writing the entry of \<open>va\<close> in its page table.\<close>

lemma store_pte:
  fixes m pgdir va v
  defines "m' \<equiv> store32 m (entry (pgtab_at m pgdir (PDX va)) (PTX va)) v"
  assumes wf: "pt_wf L m pgdir" and pr: "present (pde_at m pgdir (PDX va))"
  shows "pt_wf L m' pgdir" and "pt_pages m' pgdir = pt_pages m pgdir"
    and "pte_at m' pgdir va' = (if PGROUNDDOWN va' = PGROUNDDOWN va then v else pte_at m pgdir va')"
    and "\<And>a. PGROUNDDOWN a \<notin> pt_pages m pgdir \<Longrightarrow> m' a = m a"
    and "d < 1024 \<Longrightarrow> pde_at m' pgdir d = pde_at m pgdir d"
proof -
  have al: "page_aligned pgdir" "page_aligned (pgtab_at m pgdir (PDX va))"
    using pt_wf_pgdir [OF wf] pt_wf_pgtab [OF wf _ pr] by auto
  have pde: "pde_at m' pgdir d = pde_at m pgdir d" if "d < 1024" for d
    using that al pt_wf_pgtab [OF wf _ pr] by (simp add: pde_at_def m'_def load32_store32_entry)
  then show "d < 1024 \<Longrightarrow> pde_at m' pgdir d = pde_at m pgdir d" .
  have tab: "pgtab_at m' pgdir d = pgtab_at m pgdir d" if "d < 1024" for d
    using pde [OF that] by (simp add: pgtab_at_def)
  show "pt_wf L m' pgdir"
    using wf pde tab unfolding pt_wf_def by simp
  show "pt_pages m' pgdir = pt_pages m pgdir"
    unfolding pt_pages_def using pde tab by (intro arg_cong [where f = "insert pgdir"] image_cong) auto
  have same: "PGROUNDDOWN va' = PGROUNDDOWN va \<longleftrightarrow> PDX va' = PDX va \<and> PTX va' = PTX va"
    by (simp add: page_eq_iff)
  show "pte_at m' pgdir va' = (if PGROUNDDOWN va' = PGROUNDDOWN va then v else pte_at m pgdir va')"
  proof (cases "present (pde_at m pgdir (PDX va'))")
    case True
    then have "load32 m' (entry (pgtab_at m pgdir (PDX va')) (PTX va')) =
        (if PDX va' = PDX va \<and> PTX va' = PTX va then v
         else load32 m (entry (pgtab_at m pgdir (PDX va')) (PTX va')))"
      using al pt_wf_pgtab [OF wf _ True] pt_wf_inj [OF wf _ True _ pr]
      unfolding m'_def by (subst load32_store32_entry) auto
    then show ?thesis using True same by (simp add: pte_at_def pde tab)
  next
    case False
    then show ?thesis using pr same by (auto simp: pte_at_def pde)
  qed
  show "m' a = m a" if "PGROUNDDOWN a \<notin> pt_pages m pgdir" for a
  proof -
    have "\<not> a - pgtab_at m pgdir (PDX va) < PGSIZE"
      using that pt_pages_pgtab [OF PDX_less pr] by (auto simp: in_page_iff [OF al(2)])
    then show ?thesis
      unfolding m'_def by (intro store32_entry_elsewhere al) simp_all
  qed
qed

section \<open>Walking\<close>

lemma walkpgdir_present:
  "present (pde_at (mem s) pgdir (PDX va)) \<Longrightarrow>
   walkpgdir pgdir va alloc s = (entry (pgtab_at (mem s) pgdir (PDX va)) (PTX va), s)"
  by (simp add: walkpgdir_def present_def pde_at_def pgtab_at_def Let_def)

lemma walkpgdir_absent:
  "\<not> present (pde_at (mem s) pgdir (PDX va)) \<Longrightarrow> walkpgdir pgdir va False s = (0, s)"
  by (simp add: walkpgdir_def present_def pde_at_def Let_def)

lemma walkpgdir_full:
  "\<not> present (pde_at (mem s) pgdir (PDX va)) \<Longrightarrow> free_rep L s [] \<Longrightarrow>
   walkpgdir pgdir va alloc s = (0, s)"
  by (simp add: walkpgdir_def present_def pde_at_def Let_def kalloc_empty)

text \<open>A new page table: the directory entry is set to an empty page off the free list, so
  no address changes its entry.\<close>

lemma walkpgdir_new:
  assumes inv: "vm_inv L s pgdir (x # xs)"
    and ab: "\<not> present (pde_at (mem s) pgdir (PDX va))"
    and w: "walkpgdir pgdir va True s = (pte, s')"
  shows "vm_inv L s' pgdir xs"
    and "pte = entry (pgtab_at (mem s') pgdir (PDX va)) (PTX va)"
    and "present (pde_at (mem s') pgdir (PDX va))"
    and "pte_at (mem s') pgdir va' = pte_at (mem s) pgdir va'"
    and "pt_pages (mem s') pgdir = insert x (pt_pages (mem s) pgdir)"
    and "\<And>a. PGROUNDDOWN a \<notin> {pgdir, x} \<Longrightarrow> mem s' a = mem s a"
    and "d < 1024 \<Longrightarrow> present (pde_at (mem s') pgdir d) \<longleftrightarrow> d = PDX va \<or> present (pde_at (mem s) pgdir d)"
proof -
  let ?e = "V2P x OR PTE_P OR PTE_W OR PTE_U"
  from inv have rep: "free_rep L s (x # xs)" and wf: "pt_wf L (mem s) pgdir"
    and x_new: "x \<notin> pt_pages (mem s) pgdir" and xs_new: "set xs \<inter> pt_pages (mem s) pgdir = {}"
    by (auto simp: vm_inv_def)
  have x: "kpage L x" "page_aligned x" "x \<noteq> 0" and pd: "page_aligned pgdir" and x_xs: "x \<notin> set xs"
    using rep pt_wf_pgdir [OF wf] kpage_nonzero by (auto simp: free_rep_def)
  define m where "m = store32 (fill (mem s) x PGSIZE 0) (entry pgdir (PDX va)) ?e"
  have s': "s' = s\<lparr>freelist := load32 (mem s) x, mem := m\<rparr>" and pte: "pte = entry x (PTX va)"
    using w ab kalloc_cons(1) [OF rep] x(3)
    by (simp_all add: walkpgdir_def present_def pde_at_def Let_def memset_fill m_def)
  have addr: "PTE_ADDR ?e = V2P x"
    using PTE_ADDR_or [of "V2P x" "PTE_P OR PTE_W OR PTE_U"] x(2) by (simp add: or.assoc)
  have "pgdir \<noteq> x" using x_new by auto
  have word: "load32 m (entry q j) =
      (if q = pgdir \<and> j = PDX va then ?e else if q = x then 0 else load32 (mem s) (entry q j))"
    if "page_aligned q" "j < 1024" for q j
    using that pd x(2) by (auto simp: m_def load32_store32_entry load32_fill_page)
  then have pde: "pde_at m pgdir d = (if d = PDX va then ?e else pde_at (mem s) pgdir d)"
    if "d < 1024" for d
    using that pd \<open>pgdir \<noteq> x\<close> by (simp add: pde_at_def)
  have tab: "pgtab_at m pgdir d = (if d = PDX va then x else pgtab_at (mem s) pgdir d)"
    if "d < 1024" for d
    using pde [OF that] addr by (simp add: pgtab_at_def)
  have old: "pgtab_at (mem s) pgdir d \<noteq> x" if "d < 1024" "present (pde_at (mem s) pgdir d)" for d
    using x_new pt_pages_pgtab [OF that] by auto
  have frame: "m a = mem s a" if "PGROUNDDOWN a \<notin> {pgdir, x}" for a
    using that pd x(2) by (simp add: m_def store32_entry_elsewhere fill_def in_page_iff)
  then show "mem s' a = mem s a" if "PGROUNDDOWN a \<notin> {pgdir, x}" for a
    using that by (simp add: s')
  show pr: "present (pde_at (mem s') pgdir (PDX va))"
    by (simp add: s' pde)
  show "present (pde_at (mem s') pgdir d) \<longleftrightarrow> d = PDX va \<or> present (pde_at (mem s) pgdir d)"
    if "d < 1024"
    using that by (simp add: s' pde)
  show "pte = entry (pgtab_at (mem s') pgdir (PDX va)) (PTX va)"
    by (simp add: s' pte tab)
  show pages: "pt_pages (mem s') pgdir = insert x (pt_pages (mem s) pgdir)"
    unfolding pt_pages_def s' using pde tab ab by (auto simp: image_iff)
  have "pt_wf L m pgdir"
    using wf x(1) \<open>pgdir \<noteq> x\<close> old unfolding pt_wf_def by (auto simp: pde tab)
  moreover have "free_rep L s' xs"
    using x_xs xs_new by (intro free_rep_frame [OF kalloc_cons(2) [OF rep]]) (auto simp: s' intro!: frame)
  ultimately show "vm_inv L s' pgdir xs"
    using pages x_xs xs_new by (auto simp: vm_inv_def s')
  show "pte_at (mem s') pgdir va' = pte_at (mem s) pgdir va'"
  proof (cases "PDX va' = PDX va")
    case True
    then show ?thesis
      using ab \<open>pgdir \<noteq> x\<close> x(2) by (simp add: pte_at_def s' pde tab word)
  next
    case False
    then show ?thesis
      using old [of "PDX va'"] pt_wf_pgtab [OF wf, of "PDX va'"]
      by (auto simp: pte_at_def s' pde tab word)
  qed
qed

text \<open>What \<^const>\<open>walkpgdir\<close> with \<^verbatim>\<open>alloc\<close> does in all cases.\<close>

lemma walkpgdir_alloc:
  assumes inv: "vm_inv L s pgdir xs" and w: "walkpgdir pgdir va True s = (pte, s')"
  obtains (full) "pte = 0" "s' = s" "xs = []" "\<not> present (pde_at (mem s) pgdir (PDX va))"
  | (found) ys where "vm_inv L s' pgdir ys" "suffix ys xs"
      "length xs = length ys + of_bool (\<not> present (pde_at (mem s) pgdir (PDX va)))"
      "pte = entry (pgtab_at (mem s') pgdir (PDX va)) (PTX va)" "pte \<noteq> 0"
      "present (pde_at (mem s') pgdir (PDX va))"
      "pte_at (mem s') pgdir = pte_at (mem s) pgdir"
      "pt_pages (mem s') pgdir \<union> set ys = pt_pages (mem s) pgdir \<union> set xs"
      "\<And>a. PGROUNDDOWN a \<notin> pt_pages (mem s') pgdir \<Longrightarrow> mem s' a = mem s a"
      "\<And>d. d < 1024 \<Longrightarrow> present (pde_at (mem s') pgdir d) \<longleftrightarrow>
         d = PDX va \<or> present (pde_at (mem s) pgdir d)"
proof (cases "present (pde_at (mem s) pgdir (PDX va))")
  case True
  have nz: "entry (pgtab_at (mem s) pgdir (PDX va)) (PTX va) \<noteq> 0"
    using inv True pt_wf_pgtab(1) by (intro kpage_entry_nonzero [of L]) (auto simp: vm_inv_def)
  show thesis
    using True w nz inv by (intro found [of xs]) (auto simp: walkpgdir_present)
next
  case False
  show thesis
  proof (cases xs)
    case Nil
    with False inv w show thesis
      by (intro full) (auto simp: vm_inv_def walkpgdir_full)
  next
    case (Cons x ys)
    note new = walkpgdir_new [OF inv [unfolded Cons] False w]
    show thesis
    proof (rule found [of ys])
      show "pte \<noteq> 0"
        unfolding new(2) using new(1,3) pt_wf_pgtab(1)
        by (intro kpage_entry_nonzero [of L]) (auto simp: vm_inv_def)
      show "mem s' a = mem s a" if "PGROUNDDOWN a \<notin> pt_pages (mem s') pgdir" for a
        using that new(5) pt_pages_pgdir [of pgdir "mem s"] by (intro new(6)) auto
      show "length xs = length ys + of_bool (\<not> present (pde_at (mem s) pgdir (PDX va)))"
        using Cons False by simp
      show "present (pde_at (mem s') pgdir d) \<longleftrightarrow> d = PDX va \<or> present (pde_at (mem s) pgdir d)"
        if "d < 1024" for d
        using that by (rule new(7))
    qed (use new(1-5) Cons in \<open>auto simp: suffix_ConsI\<close>)
  qed
qed

section \<open>Mapping a range\<close>

text \<open>The entry for \<open>va\<close> read and written through the pointer \<^const>\<open>walkpgdir\<close> returned.\<close>

lemma load32_pte:
  "present (pde_at m pgdir (PDX va)) \<Longrightarrow>
   load32 m (entry (pgtab_at m pgdir (PDX va)) (PTX va)) = pte_at m pgdir va"
  by (simp add: pte_at_def)

lemma vm_inv_store_pte:
  fixes s pgdir va v
  defines "s' \<equiv> s\<lparr>mem := store32 (mem s) (entry (pgtab_at (mem s) pgdir (PDX va)) (PTX va)) v\<rparr>"
  assumes inv: "vm_inv L s pgdir xs" and pr: "present (pde_at (mem s) pgdir (PDX va))"
  shows "vm_inv L s' pgdir xs"
    and "pte_at (mem s') pgdir = (\<lambda>va'. if PGROUNDDOWN va' = PGROUNDDOWN va then v else pte_at (mem s) pgdir va')"
    and "pt_pages (mem s') pgdir = pt_pages (mem s) pgdir"
    and "\<And>a. PGROUNDDOWN a \<notin> pt_pages (mem s) pgdir \<Longrightarrow> mem s' a = mem s a"
    and "d < 1024 \<Longrightarrow> pde_at (mem s') pgdir d = pde_at (mem s) pgdir d"
proof -
  have wf: "pt_wf L (mem s) pgdir" using inv by (simp add: vm_inv_def)
  note st = store_pte [OF wf pr, where v = v]
  show frame: "mem s' a = mem s a" if "PGROUNDDOWN a \<notin> pt_pages (mem s) pgdir" for a
    using st(4) that by (simp add: s'_def)
  show "d < 1024 \<Longrightarrow> pde_at (mem s') pgdir d = pde_at (mem s) pgdir d"
    using st(5) by (simp add: s'_def)
  show pages: "pt_pages (mem s') pgdir = pt_pages (mem s) pgdir"
    using st(2) by (simp add: s'_def)
  show "pte_at (mem s') pgdir = (\<lambda>va'. if PGROUNDDOWN va' = PGROUNDDOWN va then v else pte_at (mem s) pgdir va')"
    using st(3) by (auto simp: s'_def fun_eq_iff)
  have "free_rep L s' xs"
  proof (rule free_rep_frame [of L s xs])
    show "mem s' a = mem s a" if "PGROUNDDOWN a \<in> set xs" for a
      using inv that by (intro frame) (auto simp: vm_inv_def)
  qed (use inv in \<open>simp_all add: vm_inv_def s'_def\<close>)
  then show "vm_inv L s' pgdir xs"
    using inv st(1) pages by (simp add: vm_inv_def s'_def)
qed

text \<open>The specification of \<^const>\<open>mappages\<close> on the meaning of a directory: \<open>n\<close> pages from
  \<open>a\<close> on map to the physical pages from \<open>pa\<close> on.\<close>

definition map_spec :: "(u32 \<Rightarrow> u32) \<Rightarrow> u32 \<Rightarrow> nat \<Rightarrow> u32 \<Rightarrow> u32 \<Rightarrow> u32 \<Rightarrow> u32" where
  "map_spec f a n pa perm va =
     (let off = PGROUNDDOWN va - a
      in if unat off < 4096 * n then (pa + off) OR perm OR PTE_P else f va)"

lemma map_spec_0 [simp]: "map_spec f a 0 pa perm = f"
  by (simp add: map_spec_def fun_eq_iff)

lemma page_diff:
  assumes "page_aligned a" "page_aligned b" "b \<noteq> a"
  shows "4096 \<le> unat (b - a)" "unat (b - (a + PGSIZE)) = unat (b - a) - 4096"
proof -
  have "4096 dvd unat (b - a)" "0 < unat (b - a)"
    using page_aligned_sub [OF assms(2,1)] assms(3)
    by (simp_all add: page_aligned_unat dvd_eq_mod_eq_0 unat_gt_0)
  then show ge: "4096 \<le> unat (b - a)"
    by (rule dvd_imp_le)
  have "unat (b - a - PGSIZE) = unat (b - a) - unat PGSIZE"
    using ge by (intro unat_sub_le) (simp add: u32_le_iff_unat)
  then show "unat (b - (a + PGSIZE)) = unat (b - a) - 4096"
    by (simp add: diff_diff_eq)
qed

lemma page_before: "unat (a - (a + PGSIZE)) = 4294963200"
proof -
  have "a - (a + PGSIZE) = 0xFFFFF000" by simp
  then show ?thesis by simp
qed

lemma map_spec_Suc:
  assumes "page_aligned a" "n < 1048576"
  shows "map_spec (\<lambda>va. if PGROUNDDOWN va = a then pa OR perm OR PTE_P else f va) (a + PGSIZE) n
      (pa + PGSIZE) perm = map_spec f a (Suc n) pa perm"
proof
  fix va
  show "map_spec (\<lambda>va. if PGROUNDDOWN va = a then pa OR perm OR PTE_P else f va) (a + PGSIZE) n
      (pa + PGSIZE) perm va = map_spec f a (Suc n) pa perm va"
  proof (cases "PGROUNDDOWN va = a")
    case True
    with page_before [of a] assms(2) show ?thesis by (simp add: map_spec_def Let_def)
  next
    case False
    have eq: "pa + PGSIZE + (PGROUNDDOWN va - (a + PGSIZE)) = pa + (PGROUNDDOWN va - a)"
      by simp
    have "unat (PGROUNDDOWN va - (a + PGSIZE)) < 4096 * n \<longleftrightarrow> unat (PGROUNDDOWN va - a) < 4096 * Suc n"
      using page_diff [OF assms(1) page_aligned_PGROUNDDOWN False] by auto
    with False show ?thesis
      unfolding map_spec_def Let_def eq by simp
  qed
qed

text \<open>How the memory may change while pages are mapped in \<open>pgdir\<close>: page tables come off the
  front of the free list, and no byte outside the directory's pages changes.\<close>

definition vm_ext :: "ksyms \<Rightarrow> u32 \<Rightarrow> kstate \<Rightarrow> u32 list \<Rightarrow> kstate \<Rightarrow> u32 list \<Rightarrow> bool" where
  "vm_ext L pgdir s xs s' ys \<longleftrightarrow> vm_inv L s' pgdir ys \<and> suffix ys xs \<and>
     pt_pages (mem s) pgdir \<subseteq> pt_pages (mem s') pgdir \<and>
     pt_pages (mem s') pgdir \<union> set ys = pt_pages (mem s) pgdir \<union> set xs \<and>
     (\<forall>a. PGROUNDDOWN a \<notin> pt_pages (mem s') pgdir \<longrightarrow> mem s' a = mem s a)"

lemma vm_ext_refl: "vm_inv L s pgdir xs \<Longrightarrow> vm_ext L pgdir s xs s xs"
  by (simp add: vm_ext_def)

lemma vm_ext_trans:
  "vm_ext L pgdir s xs s1 ys \<Longrightarrow> vm_ext L pgdir s1 ys s2 zs \<Longrightarrow> vm_ext L pgdir s xs s2 zs"
  unfolding vm_ext_def by (metis (no_types, lifting) subset_eq suffix_order.trans)

lemma vm_ext_inv: "vm_ext L pgdir s xs s' ys \<Longrightarrow> vm_inv L s' pgdir ys"
  by (simp add: vm_ext_def)

text \<open>One round of the loop of \<^const>\<open>mappages\<close>.\<close>

lemma map_one_page:
  assumes inv: "vm_inv L s pgdir xs" and w: "walkpgdir pgdir va True s = (pte, s1)"
  obtains (full) "pte = 0" "s1 = s" "xs = []" "\<not> present (pde_at (mem s) pgdir (PDX va))"
  | (found) ys where "pte \<noteq> 0" "load32 (mem s1) pte = pte_at (mem s) pgdir va"
      "length xs = length ys + of_bool (\<not> present (pde_at (mem s) pgdir (PDX va)))"
      "\<And>v. vm_ext L pgdir s xs (s1\<lparr>mem := store32 (mem s1) pte v\<rparr>) ys"
      "\<And>v. pte_at (store32 (mem s1) pte v) pgdir =
        (\<lambda>va'. if PGROUNDDOWN va' = PGROUNDDOWN va then v else pte_at (mem s) pgdir va')"
      "\<And>v d. d < 1024 \<Longrightarrow> present (pde_at (store32 (mem s1) pte v) pgdir d) \<longleftrightarrow>
         d = PDX va \<or> present (pde_at (mem s) pgdir d)"
  using inv w
proof (cases rule: walkpgdir_alloc)
  case full
  then show ?thesis by (rule that(1))
next
  case (found ys)
  note st = vm_inv_store_pte [OF found(1,6), folded found(4)]
  have "pt_pages (mem s) pgdir \<subseteq> pt_pages (mem s1) pgdir"
    using found(8) set_mono_suffix [OF found(2)] inv unfolding vm_inv_def by blast
  then have ext: "vm_ext L pgdir s xs (s1\<lparr>mem := store32 (mem s1) pte v\<rparr>) ys" for v
    using found(2,8,9) st(1-4) [where v = v] by (simp add: vm_ext_def)
  show ?thesis
  proof (rule that(2) [OF found(5) _ found(3)])
    show "load32 (mem s1) pte = pte_at (mem s) pgdir va"
      using load32_pte [OF found(6)] found(4,7) by simp
    show "vm_ext L pgdir s xs (s1\<lparr>mem := store32 (mem s1) pte v\<rparr>) ys" for v
      by (rule ext)
    show "pte_at (store32 (mem s1) pte v) pgdir =
        (\<lambda>va'. if PGROUNDDOWN va' = PGROUNDDOWN va then v else pte_at (mem s) pgdir va')" for v
      using st(2) [where v = v] found(7) by (simp add: fun_eq_iff)
    show "present (pde_at (store32 (mem s1) pte v) pgdir d) \<longleftrightarrow>
        d = PDX va \<or> present (pde_at (mem s) pgdir d)" if "d < 1024" for v d
      using st(5) [OF that, where v = v] found(10) [OF that] by simp
  qed
qed

text \<open>The directory entries for which the range still needs a page table.\<close>

definition missing :: "memory \<Rightarrow> u32 \<Rightarrow> u32 \<Rightarrow> nat \<Rightarrow> u32 set" where
  "missing m pgdir a n =
     {PDX va |va. unat (PGROUNDDOWN va - a) < 4096 * n \<and> \<not> present (pde_at m pgdir (PDX va))}"

lemma finite_missing [simp]: "finite (missing m pgdir a n)"
  by (rule finite_subset [of _ UNIV]) simp_all

lemma missing_first:
  "page_aligned a \<Longrightarrow> \<not> present (pde_at m pgdir (PDX a)) \<Longrightarrow> PDX a \<in> missing m pgdir a (Suc k)"
  by (auto simp: missing_def intro!: exI [of _ a])

lemma missing_one: "page_aligned a \<Longrightarrow> missing m pgdir a 1 \<subseteq> {PDX a}"
proof
  fix d assume a: "page_aligned a" and "d \<in> missing m pgdir a 1"
  then obtain va where va: "d = PDX va" "unat (PGROUNDDOWN va - a) < 4096"
    by (auto simp: missing_def)
  then have "PGROUNDDOWN va = a"
    using page_diff(1) [OF a page_aligned_PGROUNDDOWN, of va] by linarith
  then show "d \<in> {PDX a}" using va(1) by auto
qed

lemma card_missing_one: "page_aligned a \<Longrightarrow> card (missing m pgdir a 1) \<le> 1"
  using card_mono [OF _ missing_one] by fastforce

lemma missing_step:
  assumes a: "page_aligned a" and k: "k < 1048576"
    and pr: "\<And>d. d < 1024 \<Longrightarrow> present (pde_at m' pgdir d) \<longleftrightarrow> d = PDX a \<or> present (pde_at m pgdir d)"
  shows "missing m pgdir a (Suc k) =
      (if present (pde_at m pgdir (PDX a)) then {} else {PDX a}) \<union> missing m' pgdir (a + PGSIZE) k"
    and "card (missing m pgdir a (Suc k)) =
      card (missing m' pgdir (a + PGSIZE) k) + of_bool (\<not> present (pde_at m pgdir (PDX a)))"
proof -
  have "d \<in> missing m pgdir a (Suc k) \<longleftrightarrow> d \<in> missing m' pgdir (a + PGSIZE) k" if d: "d \<noteq> PDX a" for d
  proof -
    have "unat (PGROUNDDOWN va - a) < 4096 * Suc k \<longleftrightarrow> unat (PGROUNDDOWN va - (a + PGSIZE)) < 4096 * k"
      if "PDX va \<noteq> PDX a" for va
    proof -
      have "PGROUNDDOWN va \<noteq> a" using that by auto
      from page_diff [OF a page_aligned_PGROUNDDOWN this] show ?thesis by auto
    qed
    then show ?thesis
      using d pr [OF PDX_less] by (auto simp: missing_def)
  qed
  moreover have "PDX a \<notin> missing m' pgdir (a + PGSIZE) k"
    using pr by (auto simp: missing_def)
  moreover have "PDX a \<in> missing m pgdir a (Suc k) \<longleftrightarrow> \<not> present (pde_at m pgdir (PDX a))"
    using missing_first [OF a, of m pgdir k] by (auto simp: missing_def)
  ultimately have "d \<in> missing m pgdir a (Suc k) \<longleftrightarrow>
      d \<in> (if present (pde_at m pgdir (PDX a)) then {} else {PDX a}) \<union> missing m' pgdir (a + PGSIZE) k" for d
    by (cases "d = PDX a") auto
  then show eq: "missing m pgdir a (Suc k) =
      (if present (pde_at m pgdir (PDX a)) then {} else {PDX a}) \<union> missing m' pgdir (a + PGSIZE) k"
    by blast
  with \<open>PDX a \<notin> missing m' pgdir (a + PGSIZE) k\<close> show "card (missing m pgdir a (Suc k)) =
      card (missing m' pgdir (a + PGSIZE) k) + of_bool (\<not> present (pde_at m pgdir (PDX a)))"
    by simp
qed

lemma mappages_loop_found:
  assumes "walkpgdir pgdir a True s = (pte, s1)" "pte \<noteq> 0" "\<not> present (load32 (mem s1) pte)"
  shows "mappages_loop (Suc f) pgdir a lasta pa perm s =
    (let s2 = s1\<lparr>mem := store32 (mem s1) pte (pa OR perm OR PTE_P)\<rparr>
     in if a = lasta then Ok 0 s2
        else mappages_loop f pgdir (a + PGSIZE) lasta (pa + PGSIZE) perm s2)"
  using assms by (simp add: present_def)

text \<open>The outcome of mapping \<open>n\<close> pages: all of them mapped, or the free list ran out of page
  tables after the first ones.\<close>

definition mapped_or_full ::
  "ksyms \<Rightarrow> u32 \<Rightarrow> kstate \<Rightarrow> u32 list \<Rightarrow> u32 \<Rightarrow> nat \<Rightarrow> u32 \<Rightarrow> u32 \<Rightarrow> (i32, kstate) outcome \<Rightarrow> bool" where
  "mapped_or_full L pgdir s xs a n pa perm r \<longleftrightarrow> (\<exists>s' ys. vm_ext L pgdir s xs s' ys \<and>
     (r = Ok 0 s' \<and> pte_at (mem s') pgdir = map_spec (pte_at (mem s) pgdir) a n pa perm \<and>
        length xs = length ys + card (missing (mem s) pgdir a n) \<and>
        (\<forall>d < 1024. present (pde_at (mem s') pgdir d) \<longleftrightarrow>
           present (pde_at (mem s) pgdir d) \<or> d \<in> missing (mem s) pgdir a n) \<or>
      r = Ok (- 1) s' \<and> (\<exists>i < n. pte_at (mem s') pgdir = map_spec (pte_at (mem s) pgdir) a i pa perm) \<and>
        length xs < card (missing (mem s) pgdir a n) \<and> ys = []))"

lemma mapped_or_full_0:
  "vm_inv L s pgdir xs \<Longrightarrow> mapped_or_full L pgdir s xs a 0 pa perm (Ok 0 s)"
  unfolding mapped_or_full_def map_spec_0 using vm_ext_refl by (fastforce simp: missing_def)

lemma mapped_or_full_none:
  assumes "vm_inv L s pgdir xs" "page_aligned a" "\<not> present (pde_at (mem s) pgdir (PDX a))"
    and "xs = []"
  shows "mapped_or_full L pgdir s xs a (Suc k) pa perm (Ok (- 1) s)"
proof -
  have "0 < card (missing (mem s) pgdir a (Suc k))"
    using missing_first [OF assms(2,3), of k] by (auto simp: card_gt_0_iff)
  moreover have "pte_at (mem s) pgdir = map_spec (pte_at (mem s) pgdir) a 0 pa perm"
    by (simp add: map_spec_0)
  ultimately show ?thesis
    unfolding mapped_or_full_def using vm_ext_refl [OF assms(1)] assms(4) by auto
qed

lemma mapped_or_full_step:
  assumes ext: "vm_ext L pgdir s xs s2 ys" and a: "page_aligned a" and n: "n < 1048576"
    and upd: "pte_at (mem s2) pgdir =
      (\<lambda>va. if PGROUNDDOWN va = a then pa OR perm OR PTE_P else pte_at (mem s) pgdir va)"
    and pr: "\<And>d. d < 1024 \<Longrightarrow> present (pde_at (mem s2) pgdir d) \<longleftrightarrow> d = PDX a \<or> present (pde_at (mem s) pgdir d)"
    and len: "length xs = length ys + of_bool (\<not> present (pde_at (mem s) pgdir (PDX a)))"
    and rest: "mapped_or_full L pgdir s2 ys (a + PGSIZE) n (pa + PGSIZE) perm r"
  shows "mapped_or_full L pgdir s xs a (Suc n) pa perm r"
proof -
  have step: "map_spec (pte_at (mem s2) pgdir) (a + PGSIZE) i (pa + PGSIZE) perm =
      map_spec (pte_at (mem s) pgdir) a (Suc i) pa perm" if "i \<le> n" for i
    unfolding upd using that a n by (intro map_spec_Suc) auto
  have card: "card (missing (mem s) pgdir a (Suc n)) = card (missing (mem s2) pgdir (a + PGSIZE) n) +
      of_bool (\<not> present (pde_at (mem s) pgdir (PDX a)))"
    by (rule missing_step(2) [OF a n pr])
  have tabs: "present (pde_at (mem s2) pgdir d) \<or> d \<in> missing (mem s2) pgdir (a + PGSIZE) n \<longleftrightarrow>
      present (pde_at (mem s) pgdir d) \<or> d \<in> missing (mem s) pgdir a (Suc n)" if "d < 1024" for d
    using missing_step(1) [OF a n pr] pr [OF that] by auto
  from rest obtain s' zs where s': "vm_ext L pgdir s2 ys s' zs"
    and c: "r = Ok 0 s' \<and> pte_at (mem s') pgdir = map_spec (pte_at (mem s2) pgdir) (a + PGSIZE) n (pa + PGSIZE) perm \<and>
        length ys = length zs + card (missing (mem s2) pgdir (a + PGSIZE) n) \<and>
        (\<forall>d < 1024. present (pde_at (mem s') pgdir d) \<longleftrightarrow>
           present (pde_at (mem s2) pgdir d) \<or> d \<in> missing (mem s2) pgdir (a + PGSIZE) n) \<or>
      r = Ok (- 1) s' \<and> (\<exists>i < n. pte_at (mem s') pgdir =
          map_spec (pte_at (mem s2) pgdir) (a + PGSIZE) i (pa + PGSIZE) perm) \<and>
        length ys < card (missing (mem s2) pgdir (a + PGSIZE) n) \<and> zs = []"
    unfolding mapped_or_full_def by blast
  note ext' = vm_ext_trans [OF ext s']
  from c show ?thesis
  proof (elim disjE conjE exE)
    assume "r = Ok 0 s'" "pte_at (mem s') pgdir = map_spec (pte_at (mem s2) pgdir) (a + PGSIZE) n (pa + PGSIZE) perm"
      "length ys = length zs + card (missing (mem s2) pgdir (a + PGSIZE) n)"
      "\<forall>d < 1024. present (pde_at (mem s') pgdir d) \<longleftrightarrow>
         present (pde_at (mem s2) pgdir d) \<or> d \<in> missing (mem s2) pgdir (a + PGSIZE) n"
    then show ?thesis
      unfolding mapped_or_full_def using ext' step [of n] card len tabs
      by (intro exI [of _ s'] exI [of _ zs]) simp
  next
    fix i assume "r = Ok (- 1) s'" "i < n" "pte_at (mem s') pgdir =
        map_spec (pte_at (mem s2) pgdir) (a + PGSIZE) i (pa + PGSIZE) perm"
      "length ys < card (missing (mem s2) pgdir (a + PGSIZE) n)" "zs = []"
    then show ?thesis
      unfolding mapped_or_full_def using ext' step [of i] card len
      by (intro exI [of _ s'] exI [of _ zs] conjI disjI2 exI [of _ "Suc i"]) simp_all
  qed
qed

lemma page_step_neq:
  assumes "Suc k < 1048576" shows "a \<noteq> a + PGSIZE * of_nat (Suc k)"
proof
  assume "a = a + PGSIZE * of_nat (Suc k)"
  then have "PGSIZE * of_nat (Suc k) = (0::u32)" by simp
  moreover have "unat (PGSIZE * of_nat (Suc k) :: u32) = 4096 * Suc k"
    using assms by (simp add: unat_word_ariths unat_of_nat_u32 del: of_nat_Suc)
  ultimately show False by simp
qed

lemma mappages_loop_spec:
  assumes "vm_inv L s pgdir xs" "page_aligned a" "k < fuel" "k < 1048576"
    and "\<And>va. unat (PGROUNDDOWN va - a) < 4096 * Suc k \<Longrightarrow> \<not> present (pte_at (mem s) pgdir va)"
  shows "mapped_or_full L pgdir s xs a (Suc k) pa perm
    (mappages_loop fuel pgdir a (a + PGSIZE * of_nat k) pa perm s)"
  using assms
proof (induction k arbitrary: fuel a pa s xs)
  case (0 fuel a pa s xs)
  obtain f where f: "fuel = Suc f" using 0(3) by (cases fuel) auto
  obtain pte s1 where w: "walkpgdir pgdir a True s = (pte, s1)" by force
  have aa: "PGROUNDDOWN a = a" using 0(2) by (rule PGROUNDDOWN_aligned)
  from 0(1) w show ?case
  proof (cases rule: map_one_page)
    case full
    then show ?thesis
      using w f mapped_or_full_none [OF 0(1,2)] by simp
  next
    case (found ys)
    have "\<not> present (load32 (mem s1) pte)" using 0(5) [of a] found(2) aa by simp
    note run = mappages_loop_found [OF w found(1) this, of f a pa perm]
    have "mapped_or_full L pgdir s xs a (Suc 0) pa perm
      (Ok 0 (s1\<lparr>mem := store32 (mem s1) pte (pa OR perm OR PTE_P)\<rparr>))"
      by (rule mapped_or_full_step [OF found(4) 0(2) _ _ _ _ mapped_or_full_0])
        (use found(3,5,6) aa in \<open>simp_all add: vm_ext_inv [OF found(4)]\<close>)
    then show ?thesis using run f by simp
  qed
next
  case (Suc k fuel a pa s xs)
  obtain f where f: "fuel = Suc f" using Suc.prems(3) by (cases fuel) auto
  obtain pte s1 where w: "walkpgdir pgdir a True s = (pte, s1)" by force
  have aa: "PGROUNDDOWN a = a" using Suc.prems(2) by (rule PGROUNDDOWN_aligned)
  from Suc.prems(1) w show ?case
  proof (cases rule: map_one_page)
    case full
    then show ?thesis
      using w f mapped_or_full_none [OF Suc.prems(1,2)] by simp
  next
    case (found ys)
    have "\<not> present (load32 (mem s1) pte)" using Suc.prems(5) [of a] found(2) aa by simp
    note run = mappages_loop_found [OF w found(1) this, of f "a + PGSIZE * of_nat (Suc k)" pa perm]
    let ?s2 = "s1\<lparr>mem := store32 (mem s1) pte (pa OR perm OR PTE_P)\<rparr>"
    have ne: "a \<noteq> a + PGSIZE * of_nat (Suc k)"
      using Suc.prems(4) by (rule page_step_neq)
    have "mapped_or_full L pgdir ?s2 ys (a + PGSIZE) (Suc k) (pa + PGSIZE) perm
      (mappages_loop f pgdir (a + PGSIZE) (a + PGSIZE + PGSIZE * of_nat k) (pa + PGSIZE) perm ?s2)"
    proof (rule Suc.IH)
      show "\<not> present (pte_at (mem ?s2) pgdir va)"
        if "unat (PGROUNDDOWN va - (a + PGSIZE)) < 4096 * Suc k" for va
        using that Suc.prems(4,5) page_diff [OF Suc.prems(2) page_aligned_PGROUNDDOWN]
          page_before [of a] found(5) aa
        by (cases "PGROUNDDOWN va = a") simp_all
    qed (use vm_ext_inv [OF found(4)] Suc.prems f in \<open>simp_all add: page_aligned_add\<close>)
    then have "mapped_or_full L pgdir s xs a (Suc (Suc k)) pa perm
      (mappages_loop f pgdir (a + PGSIZE) (a + PGSIZE + PGSIZE * of_nat k) (pa + PGSIZE) perm ?s2)"
      by (intro mapped_or_full_step [OF found(4) Suc.prems(2)])
        (use found(3,5,6) aa Suc.prems(4) in simp_all)
    then show ?thesis using run f ne by (simp add: algebra_simps)
  qed
qed

text \<open>The pages from that of \<open>va\<close> to that of the last byte of the range.\<close>

definition npages :: "u32 \<Rightarrow> u32 \<Rightarrow> nat" where
  "npages va sz = Suc ((unat va + unat sz - 1) div 4096 - unat va div 4096)"

lemma npages_last:
  assumes "0 < sz" "unat va + unat sz \<le> 4294967296"
  shows "PGROUNDDOWN (va + sz - 1) = PGROUNDDOWN va + PGSIZE * of_nat (npages va sz - 1)"
    and "npages va sz - 1 < 1048576"
proof -
  have sz: "0 < unat sz" using assms(1) by (simp add: u32_less_iff_unat)
  have "unat (sz - 1) = unat sz - 1"
    using sz by (subst unat_sub_le) (simp_all add: u32_le_iff_unat)
  then have "unat (va + (sz - 1)) = unat va + (unat sz - 1)"
    using assms(2) sz by (subst unat_add_lt) simp_all
  then have last: "unat (va + sz - 1) = unat va + unat sz - 1"
    using sz by (simp add: add_diff_eq)
  have q: "(unat va + unat sz - 1) div 4096 < 1048576"
    using assms(2) sz by linarith
  then show lt: "npages va sz - 1 < 1048576"
    by (simp add: npages_def)
  have le: "unat va div 4096 \<le> (unat va + unat sz - 1) div 4096"
    using sz by (intro div_le_mono) linarith
  have "unat (PGSIZE * of_nat (npages va sz - 1)) = 4096 * (npages va sz - 1)"
    using lt by (simp add: unat_word_ariths unat_of_nat_u32)
  moreover have "unat va div 4096 * 4096 + 4096 * (npages va sz - 1) =
      (unat va + unat sz - 1) div 4096 * 4096"
    using le by (simp add: npages_def algebra_simps)
  ultimately show "PGROUNDDOWN (va + sz - 1) = PGROUNDDOWN va + PGSIZE * of_nat (npages va sz - 1)"
    using q by (subst u32_eq_iff_unat, subst unat_add_lt) (simp_all add: unat_PGROUNDDOWN last)
qed

lemma mappages_spec:
  assumes inv: "vm_inv L s pgdir xs" and sz: "0 < sz" "unat va + unat sz \<le> 4294967296"
    and free: "\<And>v. unat (PGROUNDDOWN v - PGROUNDDOWN va) < 4096 * npages va sz \<Longrightarrow>
      \<not> present (pte_at (mem s) pgdir v)"
  shows "mapped_or_full L pgdir s xs (PGROUNDDOWN va) (npages va sz) pa perm
    (mappages pgdir va sz pa perm s)"
proof -
  obtain k where k: "npages va sz = Suc k" by (simp add: npages_def)
  with npages_last [OF sz] have
    last: "PGROUNDDOWN (va + sz - 1) = PGROUNDDOWN va + PGSIZE * of_nat k" and "k < 1048576"
    by simp_all
  then show ?thesis
    using mappages_loop_spec [OF inv page_aligned_PGROUNDDOWN [of va], of k page_fuel pa perm] free
    unfolding mappages_def Let_def last k by (simp add: page_fuel_def)
qed

lemma mappages_one: "page_aligned va \<Longrightarrow> mappages pgdir va PGSIZE pa perm s =
    mappages_loop page_fuel pgdir va va pa perm s"
proof -
  assume va: "page_aligned va"
  have "PGROUNDDOWN (va + 4095) = va"
    using va by (intro PGROUNDDOWN_offset) (simp_all add: u32_less_iff_unat)
  moreover have "va + PGSIZE - 1 = va + 4095" by simp
  ultimately have "PGROUNDDOWN (va + PGSIZE - 1) = va" by (simp only:)
  with va show ?thesis by (simp add: mappages_def)
qed

lemma mappages_loop_returns:
  assumes "page_aligned a" "page_aligned lasta" "unat (lasta - a) < 4096 * fuel"
  shows "mappages_loop fuel pgdir a lasta pa perm s \<noteq> Diverge"
  using assms
proof (induction fuel arbitrary: a pa s)
  case 0
  then show ?case by simp
next
  case (Suc fuel)
  have "mappages_loop fuel pgdir (a + PGSIZE) lasta (pa + PGSIZE) perm s' \<noteq> Diverge"
    if "a \<noteq> lasta" for s'
    using Suc.prems page_diff [OF Suc.prems(1,2)] that
    by (intro Suc.IH) (auto simp: page_aligned_add)
  then show ?case by (auto simp: Let_def split: prod.split)
qed

section \<open>What mapping promises\<close>

text \<open>
  C28: \<^verbatim>\<open>mappages\<close> maps a range: when no page of the range is mapped yet and the free list
  has a page for every page table the range still needs, the call returns 0, and afterwards
  the page directory has, for every page of the range, the entry for the corresponding
  physical page with the given permissions and the present bit, and for every other address
  the entry it had before. Exactly the missing page tables are taken from the front of the
  free list, and no memory outside the directory's own pages changes.
\<close>

theorem mappages_maps_range:
  assumes "vm_inv L s pgdir xs" "0 < sz" "unat va + unat sz \<le> 4294967296"
    and "\<And>v. unat (PGROUNDDOWN v - PGROUNDDOWN va) < 4096 * npages va sz \<Longrightarrow>
      \<not> present (pte_at (mem s) pgdir v)"
    and "card (missing (mem s) pgdir (PGROUNDDOWN va) (npages va sz)) \<le> length xs"
  shows "\<exists>s' ys. mappages pgdir va sz pa perm s = Ok 0 s' \<and>
    pte_at (mem s') pgdir = map_spec (pte_at (mem s) pgdir) (PGROUNDDOWN va) (npages va sz) pa perm \<and>
    vm_ext L pgdir s xs s' ys \<and>
    length xs = length ys + card (missing (mem s) pgdir (PGROUNDDOWN va) (npages va sz))"
  using mappages_spec [OF assms(1-4), of pa perm] assms(5) unfolding mapped_or_full_def by fastforce

text \<open>An empty page directory at \<open>0x80120000\<close> and one free page at \<open>0x80121000\<close>.\<close>

definition demo_vm :: kstate where
  "demo_vm = demo_kstate\<lparr>freelist := 0x80121000\<rparr>"

lemma load32_zero [simp]: "load32 (\<lambda>_. 0) a = 0"
  by (simp add: load32_def)

lemma demo_vm_inv: "vm_inv demo_syms demo_vm 0x80120000 [0x80121000]"
  by (simp add: vm_inv_def pt_wf_def pt_pages_def free_rep_def kpage_def page_aligned_def pde_at_def
      demo_vm_def demo_kstate_def demo_syms_def V2P_def)

theorem mappages_maps_range_witness:
  "\<exists>s' ys. mappages 0x80120000 0x60000000 PGSIZE 0x130000 (PTE_W OR PTE_U) demo_vm = Ok 0 s' \<and>
    pte_at (mem s') 0x80120000 = map_spec (pte_at (mem demo_vm) 0x80120000)
      (PGROUNDDOWN 0x60000000) (npages 0x60000000 PGSIZE) 0x130000 (PTE_W OR PTE_U) \<and>
    vm_ext demo_syms 0x80120000 demo_vm [0x80121000] s' ys \<and>
    length [0x80121000 :: u32] =
      length ys + card (missing (mem demo_vm) 0x80120000 (PGROUNDDOWN 0x60000000) (npages 0x60000000 PGSIZE))"
proof (rule mappages_maps_range [OF demo_vm_inv])
  have "card (missing (mem demo_vm) 0x80120000 (PGROUNDDOWN 0x60000000) 1) \<le> 1"
    by (rule card_missing_one) simp
  then show "card (missing (mem demo_vm) 0x80120000 (PGROUNDDOWN 0x60000000)
      (npages 0x60000000 PGSIZE)) \<le> length [0x80121000 :: u32]" by (simp add: npages_def)
qed (simp_all add: pte_at_def pde_at_def demo_vm_def demo_kstate_def npages_def)

text \<open>
  C32: \<^verbatim>\<open>mappages\<close> always comes back: on no input does its loop run forever, also where the
  range wraps around the end of the address space.
\<close>

theorem mappages_terminates: "mappages pgdir va sz pa perm s \<noteq> Diverge"
proof -
  have "unat (PGROUNDDOWN (va + sz - 1) - PGROUNDDOWN va) < 4096 * page_fuel"
    using u32_lt_4G [of "PGROUNDDOWN (va + sz - 1) - PGROUNDDOWN va"] by (simp add: page_fuel_def)
  then show ?thesis
    unfolding mappages_def Let_def by (intro mappages_loop_returns) simp_all
qed

lemma mappages_remap:
  assumes "vm_inv L s pgdir xs" "present (pte_at (mem s) pgdir va)"
  shows "mappages pgdir va sz pa perm s = Panic ''remap''"
proof -
  have pr: "present (pde_at (mem s) pgdir (PDX va))"
    using assms(2) by (auto simp: pte_at_def split: if_splits)
  have nz: "entry (pgtab_at (mem s) pgdir (PDX va)) (PTX va) \<noteq> 0"
    using assms(1) pr pt_wf_pgtab(1) by (intro kpage_entry_nonzero [of L]) (auto simp: vm_inv_def)
  have "mappages_loop (Suc f) pgdir (PGROUNDDOWN va) lasta pa perm s = Panic ''remap''" for f lasta
    using assms(2) pr nz load32_pte [OF pr]
    by (simp add: walkpgdir_present present_def [symmetric])
  then show ?thesis
    unfolding mappages_def Let_def page_fuel_def by (metis numeral_eq_Suc)
qed

text \<open>
  C33: \<^verbatim>\<open>mappages\<close> never overwrites a mapping: when the first page of the range is mapped
  already, the call panics.
\<close>

theorem mappages_remap_panics:
  assumes "vm_inv L s pgdir xs" "present (pte_at (mem s) pgdir va)"
  shows "mappages pgdir va sz pa perm s = Panic ''remap''"
  using assms by (rule mappages_remap)

text \<open>The directory of \<^const>\<open>demo_vm\<close> with its free page used as the page table of
  \<open>0x60000000\<close>, which is mapped.\<close>

definition demo_mapped :: kstate where
  "demo_mapped = \<lparr>mem = store32 (store32 (\<lambda>_. 0) (entry 0x80120000 (PDX 0x60000000)) 0x121007)
     (entry 0x80121000 (PTX 0x60000000)) 0x130007, use_lock = False, freelist = 0\<rparr>"

lemma demo_mapped_pde:
  "d < 1024 \<Longrightarrow> pde_at (mem demo_mapped) 0x80120000 d = (if d = 384 then 0x121007 else 0)"
  by (simp add: pde_at_def demo_mapped_def load32_store32_entry page_aligned_def PDX_def PTX_def)

lemma demo_mapped_inv: "vm_inv demo_syms demo_mapped 0x80120000 []"
  by (auto simp: vm_inv_def pt_wf_def free_rep_def kpage_def page_aligned_def
      demo_mapped_pde pgtab_at_def PTE_ADDR_def P2V_def demo_syms_def V2P_def split: if_splits)
    (simp add: demo_mapped_def)

theorem mappages_remap_panics_witness:
  "vm_inv demo_syms demo_mapped 0x80120000 [] \<and> present (pte_at (mem demo_mapped) 0x80120000 0x60000000) \<and>
   mappages 0x80120000 0x60000000 PGSIZE 0x131000 PTE_U demo_mapped = Panic ''remap''"
proof -
  have pr: "present (pte_at (mem demo_mapped) 0x80120000 0x60000000)"
    by (simp add: pte_at_def demo_mapped_pde PDX_def pgtab_at_def PTE_ADDR_def P2V_def)
      (simp add: demo_mapped_def PTX_def)
  show ?thesis
    using demo_mapped_inv pr mappages_remap_panics [OF demo_mapped_inv pr] by simp
qed

end
