(* ===== verification/Uvm.thy ===== *)
theory Uvm
  imports Vm
begin

text \<open>
  The rest of \<^verbatim>\<open>vm.c\<close>: setting up the kernel half of an address space (\<^verbatim>\<open>setupkvm\<close>) and
  building, growing, shrinking, copying and freeing the user half. The theory states who owns
  which page of physical memory (the free list, the page tables, the user pages of the
  address space) as an invariant and shows that shrinking and freeing an address space give
  every page back, exactly once.
\<close>

section \<open>Operations\<close>

subsection \<open>Shrinking and freeing\<close>

primrec deallocuvm_loop :: "ksyms \<Rightarrow> nat \<Rightarrow> u32 \<Rightarrow> u32 \<Rightarrow> u32 \<Rightarrow> kstate \<Rightarrow> (unit, kstate) outcome" where
  "deallocuvm_loop L 0 pgdir a oldsz s = Diverge"
| "deallocuvm_loop L (Suc fuel) pgdir a oldsz s =
     (if a < oldsz then
        let (pte, s) = walkpgdir pgdir a False s
        in if pte = 0 then
             let a = PGADDR (PDX a + 1) 0 0 - PGSIZE
             in deallocuvm_loop L fuel pgdir (a + PGSIZE) oldsz s
           else if load32 (mem s) pte AND PTE_P \<noteq> 0 then
             let pa = PTE_ADDR (load32 (mem s) pte)
             in if pa = 0 then Panic ''kfree''
                else
                  let v = P2V pa
                  in bindO (kfree L v s) (\<lambda>_ s.
                       let s = s\<lparr>mem := store32 (mem s) pte 0\<rparr>
                       in deallocuvm_loop L fuel pgdir (a + PGSIZE) oldsz s)
           else deallocuvm_loop L fuel pgdir (a + PGSIZE) oldsz s
      else Ok () s)"

definition deallocuvm :: "ksyms \<Rightarrow> u32 \<Rightarrow> u32 \<Rightarrow> u32 \<Rightarrow> kstate \<Rightarrow> (u32, kstate) outcome" where
  "deallocuvm L pgdir oldsz newsz s =
     (if newsz \<ge> oldsz then Ok oldsz s
      else bindO (deallocuvm_loop L page_fuel pgdir (PGROUNDUP newsz) oldsz s)
             (\<lambda>_ s. Ok newsz s))"

text \<open>The loop over the \<^verbatim>\<open>NPDENTRIES\<close> entries of the directory; the first argument counts the
  rounds left.\<close>

primrec freevm_loop :: "ksyms \<Rightarrow> nat \<Rightarrow> u32 \<Rightarrow> u32 \<Rightarrow> kstate \<Rightarrow> (unit, kstate) outcome" where
  "freevm_loop L 0 pgdir i s = Ok () s"
| "freevm_loop L (Suc n) pgdir i s =
     (if load32 (mem s) (entry pgdir i) AND PTE_P \<noteq> 0 then
        let v = P2V (PTE_ADDR (load32 (mem s) (entry pgdir i)))
        in bindO (kfree L v s) (\<lambda>_ s. freevm_loop L n pgdir (i + 1) s)
      else freevm_loop L n pgdir (i + 1) s)"

definition freevm :: "ksyms \<Rightarrow> u32 \<Rightarrow> kstate \<Rightarrow> (unit, kstate) outcome" where
  "freevm L pgdir s =
     (if pgdir = 0 then Panic ''freevm: no pgdir''
      else bindO (deallocuvm L pgdir KERNBASE 0 s) (\<lambda>_ s.
           bindO (freevm_loop L 1024 pgdir 0 s) (\<lambda>_ s.
           kfree L pgdir s)))"

subsection \<open>The kernel half\<close>

record kmap =
  virt :: u32
  phys_start :: u32
  phys_end :: u32
  kperm :: u32

definition kmaps :: "ksyms \<Rightarrow> kmap list" where
  "kmaps L =
     [\<lparr>virt = KERNBASE, phys_start = 0, phys_end = EXTMEM, kperm = PTE_W\<rparr>,
      \<lparr>virt = KERNLINK, phys_start = V2P KERNLINK, phys_end = V2P (sym_data L), kperm = 0\<rparr>,
      \<lparr>virt = sym_data L, phys_start = V2P (sym_data L), phys_end = PHYSTOP, kperm = PTE_W\<rparr>,
      \<lparr>virt = DEVSPACE, phys_start = DEVSPACE, phys_end = 0, kperm = PTE_W\<rparr>]"

primrec setupkvm_loop :: "ksyms \<Rightarrow> u32 \<Rightarrow> kmap list \<Rightarrow> kstate \<Rightarrow> (u32, kstate) outcome" where
  "setupkvm_loop L pgdir [] s = Ok pgdir s"
| "setupkvm_loop L pgdir (k # ks) s =
     bindO (mappages pgdir (virt k) (phys_end k - phys_start k) (phys_start k) (kperm k) s) (\<lambda>r s.
       if r <s 0 then bindO (freevm L pgdir s) (\<lambda>_ s. Ok 0 s)
       else setupkvm_loop L pgdir ks s)"

definition setupkvm :: "ksyms \<Rightarrow> kstate \<Rightarrow> (u32, kstate) outcome" where
  "setupkvm L s =
     (let (pgdir, s) = kalloc s
      in if pgdir = 0 then Ok 0 s
         else
           let s = s\<lparr>mem := memset (mem s) pgdir 0 PGSIZE\<rparr>
           in if P2V PHYSTOP > DEVSPACE then Panic ''PHYSTOP too high''
              else setupkvm_loop L pgdir (kmaps L) s)"

subsection \<open>The user half\<close>

text \<open>The first program's image \<open>init\<close>, whose length is the argument \<^verbatim>\<open>sz\<close>. The result of
  \<^verbatim>\<open>kalloc\<close> is used without a check: with no free page the kernel writes through a null
  pointer.\<close>

definition inituvm :: "u32 \<Rightarrow> u8 list \<Rightarrow> kstate \<Rightarrow> (unit, kstate) outcome" where
  "inituvm pgdir init s =
     (if length init \<ge> unat PGSIZE then Panic ''inituvm: more than a page''
      else
        let (mema, s) = kalloc s
        in if mema = 0 then Fault ''inituvm: null page''
           else
             let s = s\<lparr>mem := memset (mem s) mema 0 PGSIZE\<rparr>
             in bindO (mappages pgdir 0 PGSIZE (V2P mema) (PTE_W OR PTE_U) s) (\<lambda>_ s.
                  Ok () (s\<lparr>mem := poke (mem s) mema init\<rparr>)))"

text \<open>Reading the file is a parameter: \<open>rd off n\<close> is the result of
  \<^verbatim>\<open>readi(ip, _, off, n)\<close> and the bytes it stores.\<close>

primrec loaduvm_loop :: "nat \<Rightarrow> u32 \<Rightarrow> u32 \<Rightarrow> (u32 \<Rightarrow> u32 \<Rightarrow> i32 \<times> u8 list) \<Rightarrow> u32 \<Rightarrow> u32 \<Rightarrow> u32 \<Rightarrow> kstate \<Rightarrow>
    (i32, kstate) outcome" where
  "loaduvm_loop 0 pgdir addr rd offset sz i s = Diverge"
| "loaduvm_loop (Suc fuel) pgdir addr rd offset sz i s =
     (if i < sz then
        let (pte, s) = walkpgdir pgdir (addr + i) False s
        in if pte = 0 then Panic ''loaduvm: address should exist''
           else
             let pa = PTE_ADDR (load32 (mem s) pte);
                 n = (if sz - i < PGSIZE then sz - i else PGSIZE);
                 (r, bs) = rd (offset + i) n;
                 s = s\<lparr>mem := poke (mem s) (P2V pa) bs\<rparr>
             in if r \<noteq> n then Ok (- 1) s
                else loaduvm_loop fuel pgdir addr rd offset sz (i + PGSIZE) s
      else Ok 0 s)"

definition loaduvm :: "u32 \<Rightarrow> u32 \<Rightarrow> (u32 \<Rightarrow> u32 \<Rightarrow> i32 \<times> u8 list) \<Rightarrow> u32 \<Rightarrow> u32 \<Rightarrow> kstate \<Rightarrow>
    (i32, kstate) outcome" where
  "loaduvm pgdir addr rd offset sz s =
     (if addr mod PGSIZE \<noteq> 0 then Panic ''loaduvm: addr must be page aligned''
      else loaduvm_loop page_fuel pgdir addr rd offset sz 0 s)"

text \<open>The messages that \<^verbatim>\<open>allocuvm\<close> prints when it runs out of memory are not part of this state.\<close>

primrec allocuvm_loop :: "ksyms \<Rightarrow> nat \<Rightarrow> u32 \<Rightarrow> u32 \<Rightarrow> u32 \<Rightarrow> u32 \<Rightarrow> kstate \<Rightarrow> (u32, kstate) outcome" where
  "allocuvm_loop L 0 pgdir oldsz a newsz s = Diverge"
| "allocuvm_loop L (Suc fuel) pgdir oldsz a newsz s =
     (if a < newsz then
        let (mema, s) = kalloc s
        in if mema = 0 then bindO (deallocuvm L pgdir newsz oldsz s) (\<lambda>_ s. Ok 0 s)
           else
             let s = s\<lparr>mem := memset (mem s) mema 0 PGSIZE\<rparr>
             in bindO (mappages pgdir a PGSIZE (V2P mema) (PTE_W OR PTE_U) s) (\<lambda>r s.
                  if r <s 0 then
                    bindO (deallocuvm L pgdir newsz oldsz s) (\<lambda>_ s.
                    bindO (kfree L mema s) (\<lambda>_ s. Ok 0 s))
                  else allocuvm_loop L fuel pgdir oldsz (a + PGSIZE) newsz s)
      else Ok newsz s)"

definition allocuvm :: "ksyms \<Rightarrow> u32 \<Rightarrow> u32 \<Rightarrow> u32 \<Rightarrow> kstate \<Rightarrow> (u32, kstate) outcome" where
  "allocuvm L pgdir oldsz newsz s =
     (if newsz \<ge> KERNBASE then Ok 0 s
      else if newsz < oldsz then Ok oldsz s
      else allocuvm_loop L page_fuel pgdir oldsz (PGROUNDUP oldsz) newsz s)"

definition clearpteu :: "u32 \<Rightarrow> u32 \<Rightarrow> kstate \<Rightarrow> (unit, kstate) outcome" where
  "clearpteu pgdir uva s =
     (let (pte, s) = walkpgdir pgdir uva False s
      in if pte = 0 then Panic ''clearpteu''
         else Ok () (s\<lparr>mem := store32 (mem s) pte (load32 (mem s) pte AND NOT PTE_U)\<rparr>))"

text \<open>The label \<^verbatim>\<open>bad\<close> of \<^verbatim>\<open>copyuvm\<close>.\<close>

definition copyuvm_bad :: "ksyms \<Rightarrow> u32 \<Rightarrow> kstate \<Rightarrow> (u32, kstate) outcome" where
  "copyuvm_bad L d s = bindO (freevm L d s) (\<lambda>_ s. Ok 0 s)"

primrec copyuvm_loop :: "ksyms \<Rightarrow> nat \<Rightarrow> u32 \<Rightarrow> u32 \<Rightarrow> u32 \<Rightarrow> u32 \<Rightarrow> kstate \<Rightarrow> (u32, kstate) outcome" where
  "copyuvm_loop L 0 pgdir d i sz s = Diverge"
| "copyuvm_loop L (Suc fuel) pgdir d i sz s =
     (if i < sz then
        let (pte, s) = walkpgdir pgdir i False s
        in if pte = 0 then Panic ''copyuvm: pte should exist''
           else if load32 (mem s) pte AND PTE_P = 0 then Panic ''copyuvm: page not present''
           else
             let pa = PTE_ADDR (load32 (mem s) pte);
                 flags = PTE_FLAGS (load32 (mem s) pte);
                 (mema, s) = kalloc s
             in if mema = 0 then copyuvm_bad L d s
                else
                  let s = s\<lparr>mem := memmove (mem s) mema (P2V pa) PGSIZE\<rparr>
                  in bindO (mappages d i PGSIZE (V2P mema) flags s) (\<lambda>r s.
                       if r <s 0 then bindO (kfree L mema s) (\<lambda>_ s. copyuvm_bad L d s)
                       else copyuvm_loop L fuel pgdir d (i + PGSIZE) sz s)
      else Ok d s)"

definition copyuvm :: "ksyms \<Rightarrow> u32 \<Rightarrow> u32 \<Rightarrow> kstate \<Rightarrow> (u32, kstate) outcome" where
  "copyuvm L pgdir sz s =
     bindO (setupkvm L s) (\<lambda>d s.
       if d = 0 then Ok 0 s else copyuvm_loop L page_fuel pgdir d 0 sz s)"

text \<open>The pointer \<^verbatim>\<open>walkpgdir\<close> returns is dereferenced without a check.\<close>

definition uva2ka :: "u32 \<Rightarrow> u32 \<Rightarrow> kstate \<Rightarrow> (u32, kstate) outcome" where
  "uva2ka pgdir uva s =
     (let (pte, s) = walkpgdir pgdir uva False s
      in if pte = 0 then Fault ''uva2ka: null pte''
         else if load32 (mem s) pte AND PTE_P = 0 then Ok 0 s
         else if load32 (mem s) pte AND PTE_U = 0 then Ok 0 s
         else Ok (P2V (PTE_ADDR (load32 (mem s) pte))) s)"

text \<open>The bytes \<open>bs\<close> are those of the buffer \<^verbatim>\<open>p\<close>, \<^verbatim>\<open>len\<close> of them.\<close>

function copyout :: "u32 \<Rightarrow> u32 \<Rightarrow> u8 list \<Rightarrow> kstate \<Rightarrow> (i32, kstate) outcome" where
  "copyout pgdir va bs s =
     (if 0 < length bs then
        let va0 = PGROUNDDOWN va
        in bindO (uva2ka pgdir va0 s) (\<lambda>pa0 s.
             if pa0 = 0 then Ok (- 1) s
             else
               let n = unat (PGSIZE - (va - va0));
                   n = (if n > length bs then length bs else n);
                   s = s\<lparr>mem := poke (mem s) (pa0 + (va - va0)) (take n bs)\<rparr>
               in copyout pgdir (va0 + PGSIZE) (drop n bs) s)
      else Ok 0 s)"
  by pat_completeness auto

lemma page_rest:
  "unat (PGSIZE - (va - PGROUNDDOWN va)) = 4096 - unat va mod 4096"
proof -
  have "unat (va - PGROUNDDOWN va) = unat va mod 4096"
    by (subst unat_sub_le)
      (simp_all add: u32_le_iff_unat unat_PGROUNDDOWN minus_div_mult_eq_mod)
  then show ?thesis
    by (subst unat_sub_le) (simp_all add: u32_le_iff_unat)
qed

termination copyout
  by (relation "measure (\<lambda>(pgdir, va, bs, s). length bs)") (auto simp: page_rest)

declare copyout.simps [simp del]

section \<open>Who owns which page\<close>

text \<open>The user addresses that are mapped, and the page behind each.\<close>

definition umapped :: "memory \<Rightarrow> u32 \<Rightarrow> u32 set" where
  "umapped m pgdir = {va. va < KERNBASE \<and> present (pte_at m pgdir va)}"

definition upage :: "memory \<Rightarrow> u32 \<Rightarrow> u32 \<Rightarrow> u32" where
  "upage m pgdir va = P2V (PTE_ADDR (pte_at m pgdir va))"

text \<open>The free list, the page tables and the user pages share no page, and no page is mapped
  twice.\<close>

definition uvm_inv :: "ksyms \<Rightarrow> kstate \<Rightarrow> u32 \<Rightarrow> u32 list \<Rightarrow> bool" where
  "uvm_inv L s pgdir xs \<longleftrightarrow> KERNBASE < sym_end L \<and> vm_inv L s pgdir xs \<and>
     (\<forall>va \<in> umapped (mem s) pgdir.
        kpage L (upage (mem s) pgdir va) \<and> upage (mem s) pgdir va \<notin> set xs \<and>
        upage (mem s) pgdir va \<notin> pt_pages (mem s) pgdir \<and>
        (\<forall>va' \<in> umapped (mem s) pgdir.
           upage (mem s) pgdir va' = upage (mem s) pgdir va \<longrightarrow> PGROUNDDOWN va' = PGROUNDDOWN va))"

lemma uvm_inv_vm: "uvm_inv L s pgdir xs \<Longrightarrow> vm_inv L s pgdir xs"
  by (simp add: uvm_inv_def)

lemma uvm_inv_page:
  assumes "uvm_inv L s pgdir xs" "va \<in> umapped (mem s) pgdir"
  shows "kpage L (upage (mem s) pgdir va)" "upage (mem s) pgdir va \<notin> set xs"
    "upage (mem s) pgdir va \<notin> pt_pages (mem s) pgdir"
    "PTE_ADDR (pte_at (mem s) pgdir va) \<noteq> 0"
proof -
  show kp: "kpage L (upage (mem s) pgdir va)" and "upage (mem s) pgdir va \<notin> set xs"
    "upage (mem s) pgdir va \<notin> pt_pages (mem s) pgdir"
    using assms unfolding uvm_inv_def by blast+
  show "PTE_ADDR (pte_at (mem s) pgdir va) \<noteq> 0"
  proof
    assume "PTE_ADDR (pte_at (mem s) pgdir va) = 0"
    then have "upage (mem s) pgdir va = KERNBASE" by (simp add: upage_def P2V_def)
    with kp have "sym_end L \<le> KERNBASE" by (simp add: kpage_def)
    with assms(1) show False by (auto simp: uvm_inv_def)
  qed
qed

lemma uvm_inv_inj:
  assumes "uvm_inv L s pgdir xs" "va \<in> umapped (mem s) pgdir" "va' \<in> umapped (mem s) pgdir"
    "upage (mem s) pgdir va' = upage (mem s) pgdir va"
  shows "PGROUNDDOWN va' = PGROUNDDOWN va"
  using assms unfolding uvm_inv_def by blast

lemma upage_page: "upage m pgdir (PGROUNDDOWN va) = upage m pgdir va"
  by (simp add: upage_def pte_at_page)

lemma kfree_frame:
  assumes "kfree L v s = Ok u s'" "PGROUNDDOWN a \<noteq> v"
  shows "mem s' a = mem s a"
proof -
  have kp: "kpage L v" using assms(1) kfree_panic [of L v s] by (cases "kpage L v") simp_all
  then have "\<not> a - v < PGSIZE" using assms(2) by (auto simp: in_page_iff)
  with kp show ?thesis
    using assms(1) kfree_kpage [OF kp, of s] store32_entry_elsewhere [of v 0 a]
    by (auto simp: entry_def fill_def)
qed

lemma kfree_ok: "kpage L v \<Longrightarrow> \<exists>s'. kfree L v s = Ok () s'"
  by (simp add: kfree_kpage)

text \<open>Freeing a page that belongs to nobody.\<close>

lemma vm_inv_kfree:
  assumes "vm_inv L s pgdir xs" "kfree L v s = Ok u s'" "v \<notin> set xs" "v \<notin> pt_pages (mem s) pgdir"
  shows "vm_inv L s' pgdir (v # xs)" "pte_at (mem s') pgdir va = pte_at (mem s) pgdir va"
    "d < 1024 \<Longrightarrow> pde_at (mem s') pgdir d = pde_at (mem s) pgdir d"
    "pt_pages (mem s') pgdir = pt_pages (mem s) pgdir"
proof -
  have wf: "pt_wf L (mem s) pgdir" and rep: "free_rep L s xs"
    and dis: "set xs \<inter> pt_pages (mem s) pgdir = {}"
    using assms(1) by (auto simp: vm_inv_def)
  have kp: "kpage L v" using assms(2) kfree_panic [of L v s] by (cases "kpage L v") simp_all
  have frame: "mem s' a = mem s a" if "PGROUNDDOWN a \<in> pt_pages (mem s) pgdir" for a
    using that assms(4) by (intro kfree_frame [OF assms(2)]) auto
  note pt = pt_frame [OF wf frame]
  show "pte_at (mem s') pgdir va = pte_at (mem s) pgdir va"
    "d < 1024 \<Longrightarrow> pde_at (mem s') pgdir d = pde_at (mem s) pgdir d"
    "pt_pages (mem s') pgdir = pt_pages (mem s) pgdir"
    using pt by simp_all
  show "vm_inv L s' pgdir (v # xs)"
    using pt(3,4) kfree_rep [OF rep kp assms(3,2)] dis assms(4) by (simp add: vm_inv_def)
qed

lemma below_KERNBASE: "PGROUNDDOWN va < KERNBASE \<longleftrightarrow> va < KERNBASE"
  using div_less_iff_less_mult [of 4096 "unat va" 524288]
  by (simp add: u32_less_iff_unat unat_PGROUNDDOWN)

lemma upage_image:
  assumes "page_aligned a"
  shows "upage m pgdir ` {va. PGROUNDDOWN va = a} = {upage m pgdir a}"
proof -
  have "upage m pgdir ` {va. PGROUNDDOWN va = a} = (\<lambda>_. upage m pgdir a) ` {va. PGROUNDDOWN va = a}"
    by (rule image_cong) (auto simp: upage_page)
  then show ?thesis
    using assms image_constant [of a "{va. PGROUNDDOWN va = a}"] by simp
qed

section \<open>Unmapping\<close>

text \<open>The entries after the pages in \<open>I\<close> are unmapped.\<close>

definition unmap_spec :: "(u32 \<Rightarrow> u32) \<Rightarrow> u32 set \<Rightarrow> u32 \<Rightarrow> u32" where
  "unmap_spec f I va = (if PGROUNDDOWN va \<in> I \<and> present (f va) then 0 else f va)"

text \<open>What unmapping the pages in \<open>I\<close> does: exactly their entries are cleared, the pages
  behind them are the new front \<open>ys\<close> of the free list, and only those pages and the page
  tables change.\<close>

definition shrunk :: "ksyms \<Rightarrow> u32 \<Rightarrow> u32 set \<Rightarrow> kstate \<Rightarrow> u32 list \<Rightarrow> kstate \<Rightarrow> u32 list \<Rightarrow> bool" where
  "shrunk L pgdir I s xs s' ys \<longleftrightarrow>
     uvm_inv L s' pgdir (ys @ xs) \<and>
     pte_at (mem s') pgdir = unmap_spec (pte_at (mem s) pgdir) I \<and>
     set ys = upage (mem s) pgdir ` {va \<in> umapped (mem s) pgdir. PGROUNDDOWN va \<in> I} \<and>
     (\<forall>d < 1024. pde_at (mem s') pgdir d = pde_at (mem s) pgdir d) \<and>
     pt_pages (mem s') pgdir = pt_pages (mem s) pgdir \<and>
     (\<forall>a. PGROUNDDOWN a \<notin> set ys \<union> pt_pages (mem s) pgdir \<longrightarrow> mem s' a = mem s a)"

lemma shrunk_none:
  assumes "uvm_inv L s pgdir xs" "\<And>va. PGROUNDDOWN va \<in> I \<Longrightarrow> \<not> present (pte_at (mem s) pgdir va)"
  shows "shrunk L pgdir I s xs s []"
  using assms by (auto simp: shrunk_def unmap_spec_def umapped_def fun_eq_iff)

lemma shrunk_trans:
  assumes "shrunk L pgdir I s xs s1 ys" "shrunk L pgdir J s1 (ys @ xs) s2 zs"
  shows "shrunk L pgdir (I \<union> J) s xs s2 (zs @ ys)"
proof -
  have pte: "pte_at (mem s1) pgdir = unmap_spec (pte_at (mem s) pgdir) I"
    using assms(1) by (simp add: shrunk_def)
  have "upage (mem s1) pgdir ` {va \<in> umapped (mem s1) pgdir. PGROUNDDOWN va \<in> J} =
      upage (mem s) pgdir ` {va \<in> umapped (mem s) pgdir. PGROUNDDOWN va \<in> J - I}"
    by (rule image_cong) (auto simp: umapped_def upage_def pte unmap_spec_def split: if_splits)
  moreover have "unmap_spec (unmap_spec (pte_at (mem s) pgdir) I) J = unmap_spec (pte_at (mem s) pgdir) (I \<union> J)"
    by (auto simp: unmap_spec_def fun_eq_iff)
  ultimately have zs: "set zs = upage (mem s) pgdir ` {va \<in> umapped (mem s) pgdir. PGROUNDDOWN va \<in> J - I}"
    and pte2: "pte_at (mem s2) pgdir = unmap_spec (pte_at (mem s) pgdir) (I \<union> J)"
    using assms(2) by (simp_all add: shrunk_def pte)
  have "set (zs @ ys) = upage (mem s) pgdir ` {va \<in> umapped (mem s) pgdir. PGROUNDDOWN va \<in> I \<union> J}"
    using assms(1) zs by (auto simp: shrunk_def)
  moreover have "mem s2 a = mem s a" if "PGROUNDDOWN a \<notin> set (zs @ ys) \<union> pt_pages (mem s) pgdir" for a
    using assms that by (simp add: shrunk_def)
  ultimately show ?thesis
    using assms pte2 by (simp add: shrunk_def)
qed

lemma shrunk_one:
  assumes inv: "uvm_inv L s pgdir xs" and va: "va \<in> umapped (mem s) pgdir" "page_aligned va"
    and free: "kfree L (upage (mem s) pgdir va) s = Ok u s1"
  shows "shrunk L pgdir {va} s xs
    (s1\<lparr>mem := store32 (mem s1) (entry (pgtab_at (mem s) pgdir (PDX va)) (PTX va)) 0\<rparr>)
    [upage (mem s) pgdir va]"
proof -
  let ?v = "upage (mem s) pgdir va"
  define s' where "s' = s1\<lparr>mem := store32 (mem s1) (entry (pgtab_at (mem s) pgdir (PDX va)) (PTX va)) 0\<rparr>"
  note pg = uvm_inv_page [OF inv va(1)]
  note fr = vm_inv_kfree [OF uvm_inv_vm [OF inv] free pg(2,3)]
  have pr: "present (pde_at (mem s1) pgdir (PDX va))"
    using va(1) fr(3) by (auto simp: umapped_def pte_at_def split: if_splits)
  have tab: "pgtab_at (mem s) pgdir (PDX va) = pgtab_at (mem s1) pgdir (PDX va)"
    by (simp add: pgtab_at_def fr(3))
  note st = vm_inv_store_pte [OF fr(1) pr, where v = 0, folded tab, folded s'_def]
  have vaa: "PGROUNDDOWN va = va" using va(2) by simp
  have pte: "pte_at (mem s') pgdir = unmap_spec (pte_at (mem s) pgdir) {va}"
  proof
    fix va'
    have "pte_at (mem s) pgdir va' = pte_at (mem s) pgdir va" if "PGROUNDDOWN va' = va"
      using pte_at_page [of "mem s" pgdir va'] that by simp
    then show "pte_at (mem s') pgdir va' = unmap_spec (pte_at (mem s) pgdir) {va} va'"
      using st(2) fr(2) va(1) vaa by (auto simp: unmap_spec_def umapped_def)
  qed
  have um: "umapped (mem s') pgdir = {va' \<in> umapped (mem s) pgdir. PGROUNDDOWN va' \<noteq> va}"
    unfolding umapped_def pte by (auto simp: unmap_spec_def)
  have up: "upage (mem s') pgdir va' = upage (mem s) pgdir va'" if "PGROUNDDOWN va' \<noteq> va" for va'
    unfolding upage_def pte by (simp add: unmap_spec_def that)
  have "uvm_inv L s' pgdir (?v # xs)"
    unfolding uvm_inv_def
  proof (intro conjI ballI impI)
    show "vm_inv L s' pgdir (?v # xs)" by (rule st(1))
    show "KERNBASE < sym_end L" using inv by (simp add: uvm_inv_def)
    fix va' assume "va' \<in> umapped (mem s') pgdir"
    then have va': "va' \<in> umapped (mem s) pgdir" "PGROUNDDOWN va' \<noteq> va" by (simp_all add: um)
    note pg' = uvm_inv_page [OF inv va'(1)]
    have "upage (mem s) pgdir va' \<noteq> ?v"
      using uvm_inv_inj [OF inv va(1) va'(1)] va'(2) vaa by metis
    then show "kpage L (upage (mem s') pgdir va')" "upage (mem s') pgdir va' \<notin> set (?v # xs)"
      "upage (mem s') pgdir va' \<notin> pt_pages (mem s') pgdir"
      using pg' up [OF va'(2)] st(3) fr(4) by simp_all
    fix va'' assume "va'' \<in> umapped (mem s') pgdir" "upage (mem s') pgdir va'' = upage (mem s') pgdir va'"
    then show "PGROUNDDOWN va'' = PGROUNDDOWN va'"
      using uvm_inv_inj [OF inv va'(1), of va''] up va'(2) by (simp add: um)
  qed
  moreover have "upage (mem s) pgdir ` {va' \<in> umapped (mem s) pgdir. PGROUNDDOWN va' \<in> {va}} = {?v}"
  proof -
    have "upage (mem s) pgdir ` {va' \<in> umapped (mem s) pgdir. PGROUNDDOWN va' \<in> {va}} =
        (\<lambda>_. ?v) ` {va' \<in> umapped (mem s) pgdir. PGROUNDDOWN va' \<in> {va}}"
      by (rule image_cong) (auto simp: upage_page)
    also have "\<dots> = {?v}"
      using va(1) vaa by (intro image_constant [of va]) simp
    finally show ?thesis .
  qed
  moreover have "mem s' a = mem s a" if "PGROUNDDOWN a \<notin> set [?v] \<union> pt_pages (mem s) pgdir" for a
    using that st(4) fr(4) kfree_frame [OF free] by simp
  ultimately show ?thesis
    using pte st(3,5) fr(3,4) unfolding s'_def [symmetric] by (simp add: shrunk_def)
qed

section \<open>Shrinking an address space\<close>

definition pages_in :: "u32 \<Rightarrow> u32 \<Rightarrow> u32 set" where
  "pages_in a b = {p. page_aligned p \<and> a \<le> p \<and> p < b}"

lemma pages_in_empty [simp]: "\<not> a < b \<Longrightarrow> pages_in a b = {}"
  by (auto simp: pages_in_def)

lemma page_next:
  assumes "a < b" "b \<le> KERNBASE"
  shows "unat (a + PGSIZE) = unat a + 4096"
  using assms by (subst unat_add_lt) (simp_all add: u32_less_iff_unat u32_le_iff_unat)

lemma pages_in_step:
  assumes "page_aligned a" "a < b" "b \<le> KERNBASE"
  shows "pages_in a b = {a} \<union> pages_in (a + PGSIZE) b"
proof -
  have "a \<le> p \<longleftrightarrow> p = a \<or> a + PGSIZE \<le> p" if "page_aligned p" for p
    using page_between [of p a] that assms(1) page_next [OF assms(2,3)]
    by (auto simp: u32_le_iff_unat u32_eq_iff_unat)
  then show ?thesis
    using assms(1,2) by (auto simp: pages_in_def)
qed

text \<open>Where \<^verbatim>\<open>deallocuvm\<close> goes on when there is no page table: at the first address of the
  next one.\<close>

lemma next_table:
  assumes "a < KERNBASE"
  shows "unat (PGADDR (PDX a + 1) 0 0) = 4194304 * (unat a div 4194304 + 1)"
proof -
  have "unat a div 4194304 < 512"
    using assms by (simp add: u32_less_iff_unat less_mult_imp_div_less)
  moreover from this have "unat (PDX a + 1) = unat a div 4194304 + 1"
    by (subst unat_add_lt) (simp_all add: unat_PDX)
  moreover have "unat (4194304 * (PDX a + 1)) = 4194304 * unat (PDX a + 1) mod 4294967296"
    by (subst unat_word_ariths(2)) simp
  ultimately have "unat (4194304 * (PDX a + 1)) = 4194304 * (unat a div 4194304 + 1)"
    by simp
  then show ?thesis
    by (simp add: PGADDR_def push_bit_eq_mult mult.commute)
qed

lemma pages_in_skip:
  assumes "a < b" "b \<le> KERNBASE" "p \<in> pages_in a b" "p < PGADDR (PDX a + 1) 0 0"
  shows "PDX p = PDX a"
proof -
  have "unat p < 4194304 * (unat a div 4194304 + 1)" "unat a \<le> unat p"
    using assms next_table [of a] by (auto simp: pages_in_def u32_less_iff_unat u32_le_iff_unat)
  then have "unat p div 4194304 = unat a div 4194304"
    using times_div_less_eq_dividend [of 4194304 "unat a"]
    by (intro div_nat_eqI) simp_all
  then show ?thesis
    by (simp add: u32_eq_iff_unat unat_PDX)
qed

lemma deallocuvm_absent:
  "\<not> present (pde_at (mem s) pgdir (PDX a)) \<Longrightarrow> a < b \<Longrightarrow>
   deallocuvm_loop L (Suc f) pgdir a b s = deallocuvm_loop L f pgdir (PGADDR (PDX a + 1) 0 0) b s"
  by (simp add: walkpgdir_absent)

lemma deallocuvm_unmapped:
  assumes "vm_inv L s pgdir xs" "present (pde_at (mem s) pgdir (PDX a))"
    "\<not> present (pte_at (mem s) pgdir a)" "a < b"
  shows "deallocuvm_loop L (Suc f) pgdir a b s = deallocuvm_loop L f pgdir (a + PGSIZE) b s"
proof -
  have "pt_wf L (mem s) pgdir" using assms(1) by (simp add: vm_inv_def)
  then show ?thesis
    using assms(2-4) kpage_entry_nonzero [OF pt_wf_pgtab(1) [OF _ PDX_less assms(2)] PTX_less]
    by (simp add: walkpgdir_present load32_pte present_def [symmetric])
qed

lemma deallocuvm_mapped:
  assumes "uvm_inv L s pgdir xs" "a \<in> umapped (mem s) pgdir" "a < b"
    and "kfree L (upage (mem s) pgdir a) s = Ok u s1"
  shows "deallocuvm_loop L (Suc f) pgdir a b s = deallocuvm_loop L f pgdir (a + PGSIZE) b
    (s1\<lparr>mem := store32 (mem s1) (entry (pgtab_at (mem s) pgdir (PDX a)) (PTX a)) 0\<rparr>)"
proof -
  have pr: "present (pde_at (mem s) pgdir (PDX a))" "present (pte_at (mem s) pgdir a)"
    using assms(2) by (auto simp: umapped_def pte_at_def split: if_splits)
  have "pt_wf L (mem s) pgdir" using assms(1) by (simp add: uvm_inv_def vm_inv_def)
  then show ?thesis
    using assms pr kpage_entry_nonzero [OF pt_wf_pgtab(1) [OF _ PDX_less pr(1)] PTX_less]
      uvm_inv_page(4) [OF assms(1,2)]
    by (simp add: walkpgdir_present load32_pte [OF pr(1)] present_def [symmetric] upage_def)
qed

lemma shrunk_absent:
  assumes "uvm_inv L s pgdir xs" "\<not> present (pde_at (mem s) pgdir (PDX a))" "a < b" "b \<le> KERNBASE"
  shows "shrunk L pgdir {p \<in> pages_in a b. p < PGADDR (PDX a + 1) 0 0} s xs s []"
proof (rule shrunk_none [OF assms(1)])
  fix va assume "PGROUNDDOWN va \<in> {p \<in> pages_in a b. p < PGADDR (PDX a + 1) 0 0}"
  then have "PDX va = PDX a"
    using pages_in_skip [OF assms(3,4), of "PGROUNDDOWN va"] by simp
  with assms(2) show "\<not> present (pte_at (mem s) pgdir va)" by (simp add: pte_at_def)
qed

lemma next_table_bounds:
  assumes "page_aligned a" "a < KERNBASE"
  shows "unat a + 4096 \<le> unat (PGADDR (PDX a + 1) 0 0)" "page_aligned (PGADDR (PDX a + 1) 0 0)"
proof -
  define k where "k = unat a div 4096"
  have a: "unat a = 4096 * k" using page_aligned_eq [OF assms(1)] by (simp add: k_def)
  have "unat a div 4194304 = k div 1024" unfolding a by simp
  moreover have "k + 1 \<le> 1024 * (k div 1024 + 1)"
    using dividend_less_times_div [of 1024 k] by simp
  ultimately show "unat a + 4096 \<le> unat (PGADDR (PDX a + 1) 0 0)"
    unfolding next_table [OF assms(2)] using a by simp
  have "unat (PGADDR (PDX a + 1) 0 0) = 4096 * (1024 * (unat a div 4194304 + 1))"
    unfolding next_table [OF assms(2)] by simp
  then show "page_aligned (PGADDR (PDX a + 1) 0 0)"
    unfolding page_aligned_unat by (metis mod_mult_self1_is_0)
qed

lemma deallocuvm_loop_spec:
  assumes "uvm_inv L s pgdir xs" "page_aligned a" "b \<le> KERNBASE" "unat b + 4096 \<le> unat a + 4096 * fuel" "0 < fuel"
  shows "\<exists>s' ys. deallocuvm_loop L fuel pgdir a b s = Ok () s' \<and> shrunk L pgdir (pages_in a b) s xs s' ys"
  using assms
proof (induction fuel arbitrary: a s xs)
  case 0
  then show ?case by simp
next
  case (Suc fuel)
  show ?case
  proof (cases "a < b")
    case False
    then show ?thesis
      using shrunk_none [OF Suc.prems(1), of "{}"] by auto
  next
    case True
    have a: "a < KERNBASE" using True Suc.prems(3) by simp
    have nxt: "unat (a + PGSIZE) = unat a + 4096" by (rule page_next [OF True Suc.prems(3)])
    have fuel: "0 < fuel" using True Suc.prems(4) by (cases fuel) (simp_all add: u32_less_iff_unat)
    have skip: "\<exists>s' ys. deallocuvm_loop L fuel pgdir (a + PGSIZE) b s1 = Ok () s' \<and>
        shrunk L pgdir (pages_in a b) s xs s' ys" if "shrunk L pgdir {a} s xs s1 zs" for s1 zs
    proof -
      have "uvm_inv L s1 pgdir (zs @ xs)" using that by (simp add: shrunk_def)
      then obtain s' ys where "deallocuvm_loop L fuel pgdir (a + PGSIZE) b s1 = Ok () s'"
        "shrunk L pgdir (pages_in (a + PGSIZE) b) s1 (zs @ xs) s' ys"
        using Suc.IH [of s1 "zs @ xs" "a + PGSIZE"] Suc.prems nxt fuel by (auto simp: page_aligned_add)
      moreover from this(2) have "shrunk L pgdir (pages_in a b) s xs s' (ys @ zs)"
        unfolding pages_in_step [OF Suc.prems(2) True Suc.prems(3)] by (rule shrunk_trans [OF that])
      ultimately show ?thesis by blast
    qed
    consider (table) "\<not> present (pde_at (mem s) pgdir (PDX a))"
      | (unmapped) "present (pde_at (mem s) pgdir (PDX a))" "\<not> present (pte_at (mem s) pgdir a)"
      | (mapped) "a \<in> umapped (mem s) pgdir"
      using a by (auto simp: umapped_def)
    then show ?thesis
    proof cases
      case table
      let ?c = "PGADDR (PDX a + 1) 0 0"
      note c = next_table_bounds [OF Suc.prems(2) a]
      have eq: "pages_in a b = {p \<in> pages_in a b. p < ?c} \<union> pages_in ?c b"
        using c(1) by (auto simp: pages_in_def u32_le_iff_unat u32_less_iff_unat)
      obtain s' ys where "deallocuvm_loop L fuel pgdir ?c b s = Ok () s'"
        "shrunk L pgdir (pages_in ?c b) s xs s' ys"
        using Suc.IH [OF Suc.prems(1) c(2)] Suc.prems c(1) fuel by auto
      moreover from this(2) have "shrunk L pgdir (pages_in a b) s xs s' (ys @ [])"
        by (subst eq, intro shrunk_trans [OF shrunk_absent [OF Suc.prems(1) table True Suc.prems(3)]]) simp
      ultimately show ?thesis
        using deallocuvm_absent [OF table True] by metis
    next
      case unmapped
      have "shrunk L pgdir {a} s xs s []"
        using pte_at_page [of "mem s" pgdir] unmapped(2) by (intro shrunk_none [OF Suc.prems(1)]) auto
      from skip [OF this] show ?thesis
        by (simp only: deallocuvm_unmapped [OF uvm_inv_vm [OF Suc.prems(1)] unmapped True])
    next
      case mapped
      obtain s1 where s1: "kfree L (upage (mem s) pgdir a) s = Ok () s1"
        using kfree_ok [OF uvm_inv_page(1) [OF Suc.prems(1) mapped]] by blast
      from skip [OF shrunk_one [OF Suc.prems(1) mapped Suc.prems(2) s1]] show ?thesis
        by (simp only: deallocuvm_mapped [OF Suc.prems(1) mapped True s1])
    qed
  qed
qed

lemma deallocuvm_spec:
  assumes "uvm_inv L s pgdir xs" "newsz < oldsz" "oldsz \<le> KERNBASE"
  shows "\<exists>s' ys. deallocuvm L pgdir oldsz newsz s = Ok newsz s' \<and>
    shrunk L pgdir (pages_in (PGROUNDUP newsz) oldsz) s xs s' ys"
proof -
  have "unat oldsz + 4096 \<le> unat (PGROUNDUP newsz) + 4096 * page_fuel"
    using assms(3) by (simp add: u32_le_iff_unat page_fuel_def)
  then show ?thesis
    using deallocuvm_loop_spec [OF assms(1) _ assms(3), of "PGROUNDUP newsz" page_fuel] assms(2)
    by (fastforce simp: deallocuvm_def page_fuel_def)
qed

section \<open>Freeing an address space\<close>

text \<open>The tables a directory holds from entry \<open>i\<close> on.\<close>

definition tables_from :: "memory \<Rightarrow> u32 \<Rightarrow> u32 \<Rightarrow> u32 set" where
  "tables_from m pgdir i = pgtab_at m pgdir ` {d. i \<le> d \<and> d < 1024 \<and> present (pde_at m pgdir d)}"

lemma pt_pages_tables: "pt_pages m pgdir = insert pgdir (tables_from m pgdir 0)"
  by (simp add: pt_pages_def tables_from_def)

lemma tables_from_step:
  assumes "i < 1024"
  shows "tables_from m pgdir i =
    (if present (pde_at m pgdir i) then insert (pgtab_at m pgdir i) (tables_from m pgdir (i + 1))
     else tables_from m pgdir (i + 1))"
proof -
  have "unat (i + 1) = unat i + 1"
    using assms by (subst unat_add_lt) (simp_all add: u32_less_iff_unat)
  then have "i \<le> d \<longleftrightarrow> d = i \<or> i + 1 \<le> d" for d
    by (auto simp: u32_le_iff_unat u32_eq_iff_unat)
  then have "{d. i \<le> d \<and> d < 1024 \<and> present (pde_at m pgdir d)} =
      (if present (pde_at m pgdir i) then {i} else {}) \<union>
      {d. i + 1 \<le> d \<and> d < 1024 \<and> present (pde_at m pgdir d)}"
    using assms by auto
  then show ?thesis
    by (simp add: tables_from_def)
qed

lemma freevm_loop_spec:
  assumes "pt_wf L m pgdir" "free_rep L s xs" "tables_from m pgdir i \<inter> set xs = {}" "n + unat i = 1024"
    and "\<And>a. PGROUNDDOWN a = pgdir \<Longrightarrow> mem s a = m a"
  shows "\<exists>s' ys. freevm_loop L n pgdir i s = Ok () s' \<and> free_rep L s' (ys @ xs) \<and>
    set ys = tables_from m pgdir i"
  using assms(2-)
proof (induction n arbitrary: i s xs)
  case 0
  then have "i = 1024" by (simp add: u32_eq_iff_unat)
  then have "tables_from m pgdir i = {}" by (auto simp: tables_from_def)
  then show ?case using "0.prems" by auto
next
  case (Suc n)
  have i: "i < 1024" "unat (i + 1) = unat i + 1"
    using Suc.prems(3) by (simp_all add: u32_less_iff_unat unat_add_lt)
  have "load32 (mem s) (entry pgdir i) = pde_at m pgdir i"
    unfolding pde_at_def using i(1) Suc.prems(4) kpage_aligned [OF pt_wf_pgdir [OF assms(1)]]
    by (intro load32_entry_frame) simp_all
  note ld = this [folded present_def]
  show ?case
  proof (cases "present (pde_at m pgdir i)")
    case False
    with Suc.IH [of s xs "i + 1"] Suc.prems i tables_from_step [OF i(1), of m pgdir] ld
    show ?thesis by (auto simp: present_def [symmetric])
  next
    case True
    let ?v = "pgtab_at m pgdir i"
    note v = pt_wf_pgtab [OF assms(1) i(1) True]
    obtain s1 where s1: "kfree L ?v s = Ok () s1" using kfree_ok [OF v(1)] by blast
    have vx: "?v \<notin> set xs" "?v \<notin> tables_from m pgdir (i + 1)"
    proof -
      show "?v \<notin> set xs" using Suc.prems(2) True tables_from_step [OF i(1), of m pgdir] by auto
      have "\<not> i + 1 \<le> i" using i(2) by (simp add: u32_le_iff_unat)
      then show "?v \<notin> tables_from m pgdir (i + 1)"
        using pt_wf_inj [OF assms(1) i(1) True] by (fastforce simp: tables_from_def)
    qed
    have "\<exists>s' ys. freevm_loop L n pgdir (i + 1) s1 = Ok () s' \<and> free_rep L s' (ys @ ?v # xs) \<and>
        set ys = tables_from m pgdir (i + 1)"
    proof (rule Suc.IH)
      show "free_rep L s1 (?v # xs)" by (rule kfree_rep [OF Suc.prems(1) v(1) vx(1) s1])
      show "tables_from m pgdir (i + 1) \<inter> set (?v # xs) = {}"
        using Suc.prems(2) vx(2) True tables_from_step [OF i(1), of m pgdir] by auto
      show "mem s1 a = m a" if "PGROUNDDOWN a = pgdir" for a
        using that v(2) kfree_frame [OF s1, of a] Suc.prems(4) by auto
    qed (use Suc.prems(3) i in simp)
    then obtain s' ys where "freevm_loop L n pgdir (i + 1) s1 = Ok () s'"
      "free_rep L s' ((ys @ [?v]) @ xs)" "set (ys @ [?v]) = tables_from m pgdir i"
      using True tables_from_step [OF i(1), of m pgdir] by auto
    moreover have "freevm_loop L (Suc n) pgdir i s = freevm_loop L n pgdir (i + 1) s1"
      using True ld s1 by (simp add: present_def [symmetric] pgtab_at_def)
    ultimately show ?thesis by metis
  qed
qed

lemma freevm_spec:
  assumes "uvm_inv L s pgdir xs"
  shows "\<exists>s' ys. freevm L pgdir s = Ok () s' \<and> free_rep L s' ys \<and>
    set ys = set xs \<union> pt_pages (mem s) pgdir \<union> upage (mem s) pgdir ` umapped (mem s) pgdir"
proof -
  have "pages_in (PGROUNDUP 0) KERNBASE = {p. page_aligned p \<and> p < KERNBASE}"
    by (simp add: pages_in_def PGROUNDUP_def)
  then have all: "{va \<in> umapped (mem s) pgdir. PGROUNDDOWN va \<in> pages_in (PGROUNDUP 0) KERNBASE} =
      umapped (mem s) pgdir"
    by (auto simp: umapped_def u32_less_iff_unat unat_PGROUNDDOWN)
  obtain s1 ys where s1: "deallocuvm L pgdir KERNBASE 0 s = Ok 0 s1"
    and sh: "shrunk L pgdir (pages_in (PGROUNDUP 0) KERNBASE) s xs s1 ys"
    using deallocuvm_spec [OF assms, of 0 KERNBASE] by auto
  have inv: "vm_inv L s1 pgdir (ys @ xs)" and pt: "pt_pages (mem s1) pgdir = pt_pages (mem s) pgdir"
    and ys: "set ys = upage (mem s) pgdir ` umapped (mem s) pgdir"
    using sh all by (simp_all add: shrunk_def uvm_inv_def)
  have wf: "pt_wf L (mem s1) pgdir" using inv by (simp add: vm_inv_def)
  obtain s2 zs where s2: "freevm_loop L 1024 pgdir 0 s1 = Ok () s2" "free_rep L s2 (zs @ ys @ xs)"
    and zs: "set zs = tables_from (mem s1) pgdir 0"
    using freevm_loop_spec [OF wf, of s1 "ys @ xs" 0 1024] inv by (auto simp: vm_inv_def pt_pages_tables)
  have "pgdir \<notin> set (zs @ ys @ xs)"
    using inv zs pt_wf_pgtab(2) [OF wf] by (fastforce simp: vm_inv_def tables_from_def)
  moreover obtain s' where "kfree L pgdir s2 = Ok () s'" using kfree_ok [OF pt_wf_pgdir [OF wf]] by blast
  ultimately have "freevm L pgdir s = Ok () s' \<and> free_rep L s' (pgdir # zs @ ys @ xs)"
    using s1 s2 kfree_rep [OF s2(2) pt_wf_pgdir [OF wf]] kpage_nonzero [OF pt_wf_pgdir [OF wf]]
    by (simp add: freevm_def)
  moreover have "set (pgdir # zs @ ys @ xs) =
      set xs \<union> pt_pages (mem s) pgdir \<union> upage (mem s) pgdir ` umapped (mem s) pgdir"
    using zs ys pt by (auto simp: pt_pages_tables)
  ultimately show ?thesis by blast
qed

text \<open>
  C29: Freeing an address space returns and gives everything back: after \<^verbatim>\<open>freevm\<close> the free
  list holds, each page once, the pages it held before, the page directory and its page
  tables, and every page that was mapped at a user address; no page is lost and none is freed
  twice.
\<close>

theorem freevm_frees_all:
  assumes "uvm_inv L s pgdir xs"
  shows "\<exists>s' ys. freevm L pgdir s = Ok () s' \<and> free_rep L s' ys \<and>
    set ys = set xs \<union> pt_pages (mem s) pgdir \<union> upage (mem s) pgdir ` umapped (mem s) pgdir"
  using assms by (rule freevm_spec)

section \<open>Growing an address space\<close>

lemma uvm_inv_same:
  assumes "uvm_inv L s pgdir xs" "vm_inv L s' pgdir ys" "pte_at (mem s') pgdir = pte_at (mem s) pgdir"
    and "set ys \<union> pt_pages (mem s') pgdir \<subseteq> set xs \<union> pt_pages (mem s) pgdir"
  shows "uvm_inv L s' pgdir ys"
proof -
  have "umapped (mem s') pgdir = umapped (mem s) pgdir" "upage (mem s') pgdir = upage (mem s) pgdir"
    using assms(3) by (simp_all add: umapped_def upage_def fun_eq_iff)
  note eq = this
  show ?thesis
    unfolding uvm_inv_def eq
  proof (intro conjI ballI impI assms(2))
    show "KERNBASE < sym_end L" using assms(1) by (simp add: uvm_inv_def)
    fix va assume va: "va \<in> umapped (mem s) pgdir"
    note pg = uvm_inv_page [OF assms(1) va]
    show "kpage L (upage (mem s) pgdir va)" by (rule pg(1))
    show "upage (mem s) pgdir va \<notin> set ys" "upage (mem s) pgdir va \<notin> pt_pages (mem s') pgdir"
      using pg(2,3) assms(4) by blast+
    fix va' assume "va' \<in> umapped (mem s) pgdir" "upage (mem s) pgdir va' = upage (mem s) pgdir va"
    then show "PGROUNDDOWN va' = PGROUNDDOWN va" by (rule uvm_inv_inj [OF assms(1) va])
  qed
qed

lemma uvm_inv_add:
  assumes inv: "uvm_inv L s pgdir (x # xs)" and vm: "vm_inv L s' pgdir ys"
    and pte: "pte_at (mem s') pgdir =
      (\<lambda>va. if PGROUNDDOWN va = a then e else pte_at (mem s) pgdir va)"
    and e: "P2V (PTE_ADDR e) = x"
    and sub: "set ys \<union> pt_pages (mem s') pgdir \<subseteq> set xs \<union> pt_pages (mem s) pgdir"
  shows "uvm_inv L s' pgdir ys"
proof -
  have x: "kpage L x" "x \<notin> set xs" "x \<notin> pt_pages (mem s) pgdir"
    using inv by (auto simp: uvm_inv_def vm_inv_def free_rep_def)
  have old: "va \<in> umapped (mem s) pgdir" "upage (mem s') pgdir va = upage (mem s) pgdir va"
    "upage (mem s') pgdir va \<noteq> x"
    if "va \<in> umapped (mem s') pgdir" "PGROUNDDOWN va \<noteq> a" for va
    using that uvm_inv_page(2) [OF inv, of va] by (auto simp: umapped_def upage_def pte)
  have new: "upage (mem s') pgdir va = x" if "PGROUNDDOWN va = a" for va
    using that e by (simp add: upage_def pte)
  show ?thesis
    unfolding uvm_inv_def
  proof (intro conjI ballI impI vm)
    show "KERNBASE < sym_end L" using inv by (simp add: uvm_inv_def)
    fix va assume va: "va \<in> umapped (mem s') pgdir"
    have "kpage L (upage (mem s') pgdir va) \<and> upage (mem s') pgdir va \<notin> set xs \<union> pt_pages (mem s) pgdir"
    proof (cases "PGROUNDDOWN va = a")
      case True
      with new x show ?thesis by simp
    next
      case False
      with uvm_inv_page [OF inv old(1) [OF va False]] old(2) [OF va False] show ?thesis by simp
    qed
    then show "kpage L (upage (mem s') pgdir va)" "upage (mem s') pgdir va \<notin> set ys"
      "upage (mem s') pgdir va \<notin> pt_pages (mem s') pgdir"
      using sub by auto
    fix va' assume va': "va' \<in> umapped (mem s') pgdir" "upage (mem s') pgdir va' = upage (mem s') pgdir va"
    show "PGROUNDDOWN va' = PGROUNDDOWN va"
    proof (cases "PGROUNDDOWN va = a \<or> PGROUNDDOWN va' = a")
      case True
      then show ?thesis using new old(3) va va' by metis
    next
      case False
      then have ne: "PGROUNDDOWN va \<noteq> a" "PGROUNDDOWN va' \<noteq> a" by auto
      show ?thesis
        using va'(2) old(2) [OF va ne(1)] old(2) [OF va'(1) ne(2)]
        by (intro uvm_inv_inj [OF inv old(1) [OF va ne(1)] old(1) [OF va'(1) ne(2)]]) simp
    qed
  qed
qed

lemma mappages_page_spec:
  assumes "vm_inv L s pgdir xs" "page_aligned a" "\<not> present (pte_at (mem s) pgdir a)"
  shows "mapped_or_full L pgdir s xs a 1 pa perm (mappages pgdir a PGSIZE pa perm s)"
proof -
  have "\<not> present (pte_at (mem s) pgdir va)" if "unat (PGROUNDDOWN va - a) < 4096 * Suc 0" for va
    using that page_diff(1) [OF assms(2) page_aligned_PGROUNDDOWN, of va] assms(3)
      pte_at_page [of "mem s" pgdir va]
    by (cases "PGROUNDDOWN va = a") auto
  from mappages_loop_spec [where k = 0 and fuel = page_fuel and pa = pa and perm = perm, OF assms(1,2) _ _ this]
  show ?thesis
    by (simp add: mappages_one [OF assms(2)] page_fuel_def)
qed

text \<open>Mapping one page \<open>x\<close>, taken from the free list and filled in some way, where nothing is
  mapped. Either it is mapped, or there is no page left for the page table.\<close>

lemma map_fresh_page:
  fixes s x mx
  defines "s1 \<equiv> s\<lparr>freelist := load32 (mem s) x, mem := mx\<rparr>"
  assumes inv: "uvm_inv L s pgdir (x # xs)" and a: "page_aligned a" "\<not> present (pte_at (mem s) pgdir a)"
    and frame: "\<And>b. PGROUNDDOWN b \<noteq> x \<Longrightarrow> mx b = mem s b" and perm: "take_bit 12 perm = perm"
  obtains s2 ys where
    "mappages pgdir a PGSIZE (V2P x) perm s1 = Ok 0 s2 \<and>
       pte_at (mem s2) pgdir = (\<lambda>va. if PGROUNDDOWN va = a then V2P x OR perm OR PTE_P else pte_at (mem s) pgdir va) \<or>
     mappages pgdir a PGSIZE (V2P x) perm s1 = Ok (- 1) s2 \<and> pte_at (mem s2) pgdir = pte_at (mem s) pgdir \<and> xs = []"
    "uvm_inv L s2 pgdir ys" "x \<notin> set ys" "x \<notin> pt_pages (mem s2) pgdir" "length xs \<le> Suc (length ys)"
    "set ys \<union> pt_pages (mem s2) pgdir = set xs \<union> pt_pages (mem s) pgdir"
    "pt_pages (mem s) pgdir \<subseteq> pt_pages (mem s2) pgdir"
    "\<And>b. PGROUNDDOWN b \<notin> set xs \<union> pt_pages (mem s) pgdir \<Longrightarrow> mem s2 b = mx b"
proof -
  have vm: "free_rep L s (x # xs)" "pt_wf L (mem s) pgdir"
    and x: "kpage L x" "x \<notin> set xs" "x \<notin> pt_pages (mem s) pgdir"
    and dis: "set xs \<inter> pt_pages (mem s) pgdir = {}"
    using inv by (auto simp: uvm_inv_def vm_inv_def free_rep_def)
  have "mx b = mem s b" if "PGROUNDDOWN b \<in> pt_pages (mem s) pgdir" for b
    using that x(3) by (intro frame) auto
  note pt = pt_frame [OF vm(2) this]
  have "free_rep L s1 xs"
    using x(2) by (intro free_rep_frame [OF kalloc_cons(2) [OF vm(1)]]) (auto simp: s1_def intro!: frame)
  then have inv1: "vm_inv L s1 pgdir xs"
    using pt(3,4) dis by (simp add: vm_inv_def s1_def)
  have eq: "pte_at (mem s1) pgdir = pte_at (mem s) pgdir" "pt_pages (mem s1) pgdir = pt_pages (mem s) pgdir"
    using pt(2,4) by (simp_all add: s1_def fun_eq_iff)
  have "mapped_or_full L pgdir s1 xs a 1 (V2P x) perm (mappages pgdir a PGSIZE (V2P x) perm s1)"
    using mappages_page_spec [OF inv1 a(1)] a(2) eq(1) by simp
  moreover have "xs = []" if "length xs < card (missing (mem s1) pgdir a 1)"
    using less_le_trans [OF that card_missing_one [OF a(1)]] by simp
  ultimately obtain s2 ys where ext: "vm_ext L pgdir s1 xs s2 ys" and r:
    "mappages pgdir a PGSIZE (V2P x) perm s1 = Ok 0 s2 \<and>
       pte_at (mem s2) pgdir = map_spec (pte_at (mem s) pgdir) a 1 (V2P x) perm \<or>
     mappages pgdir a PGSIZE (V2P x) perm s1 = Ok (- 1) s2 \<and> pte_at (mem s2) pgdir = pte_at (mem s) pgdir \<and> xs = []"
    and len: "length xs \<le> Suc (length ys)"
    unfolding mapped_or_full_def eq using card_missing_one [OF a(1), of "mem s1" pgdir] by fastforce
  have one: "map_spec (pte_at (mem s) pgdir) a 1 (V2P x) perm =
      (\<lambda>va. if PGROUNDDOWN va = a then V2P x OR perm OR PTE_P else pte_at (mem s) pgdir va)"
    using map_spec_Suc [OF a(1), of 0 "V2P x" perm "pte_at (mem s) pgdir"] by simp
  have e: "P2V (PTE_ADDR (V2P x OR perm OR PTE_P)) = x"
    using perm x(1) kpage_aligned by (subst PTE_ADDR_or) auto
  have sets: "set ys \<union> pt_pages (mem s2) pgdir = set xs \<union> pt_pages (mem s) pgdir"
    using ext eq(2) by (auto simp: vm_ext_def)
  have inv2: "uvm_inv L s2 pgdir ys"
    using r
  proof (elim disjE conjE)
    assume "pte_at (mem s2) pgdir = map_spec (pte_at (mem s) pgdir) a 1 (V2P x) perm"
    then show ?thesis
      unfolding one using uvm_inv_add [OF inv vm_ext_inv [OF ext] _ e] sets by blast
  next
    assume "pte_at (mem s2) pgdir = pte_at (mem s) pgdir"
    then show ?thesis
      using uvm_inv_same [OF inv vm_ext_inv [OF ext]] sets by auto
  qed
  show thesis
  proof (rule that)
    show "mem s2 b = mx b" if "PGROUNDDOWN b \<notin> set xs \<union> pt_pages (mem s) pgdir" for b
      using ext that sets by (auto simp: vm_ext_def s1_def)
  qed (use r one inv2 ext sets eq x len in \<open>auto simp: vm_ext_def\<close>)
qed

text \<open>What growing by the pages in \<open>I\<close> does: each of them is mapped, with permissions \<open>w\<close>,
  to a page of zeros that was free before; every other entry and all memory that was neither
  free nor a page table stay as they were.\<close>

definition grown :: "ksyms \<Rightarrow> u32 \<Rightarrow> u32 \<Rightarrow> u32 set \<Rightarrow> kstate \<Rightarrow> u32 list \<Rightarrow> kstate \<Rightarrow> u32 list \<Rightarrow> bool" where
  "grown L pgdir w I s xs s' ys \<longleftrightarrow>
     uvm_inv L s' pgdir ys \<and>
     (\<forall>va. PGROUNDDOWN va \<notin> I \<longrightarrow> pte_at (mem s') pgdir va = pte_at (mem s) pgdir va) \<and>
     (\<forall>va. PGROUNDDOWN va \<in> I \<longrightarrow>
        pte_at (mem s') pgdir va = V2P (upage (mem s') pgdir va) OR w OR PTE_P \<and>
        (\<forall>b. PGROUNDDOWN b = upage (mem s') pgdir va \<longrightarrow> mem s' b = 0)) \<and>
     set ys \<union> pt_pages (mem s') pgdir \<union> upage (mem s') pgdir ` {va. PGROUNDDOWN va \<in> I} =
       set xs \<union> pt_pages (mem s) pgdir \<and>
     pt_pages (mem s) pgdir \<subseteq> pt_pages (mem s') pgdir \<and>
     (\<forall>b. PGROUNDDOWN b \<notin> set xs \<union> pt_pages (mem s) pgdir \<longrightarrow> mem s' b = mem s b)"

lemma grown_none: "uvm_inv L s pgdir xs \<Longrightarrow> grown L pgdir w {} s xs s xs"
  by (simp add: grown_def)

lemma grown_pte:
  assumes "grown L pgdir w I s xs s' ys"
  shows "PGROUNDDOWN va \<notin> I \<Longrightarrow> pte_at (mem s') pgdir va = pte_at (mem s) pgdir va"
    "PGROUNDDOWN va \<in> I \<Longrightarrow>
       pte_at (mem s') pgdir va = V2P (upage (mem s') pgdir va) OR w OR PTE_P"
  using assms by (simp_all add: grown_def)

lemma grown_zero:
  assumes "grown L pgdir w I s xs s' ys" "PGROUNDDOWN va \<in> I" "PGROUNDDOWN b = upage (mem s') pgdir va"
  shows "mem s' b = 0"
  using assms by (simp add: grown_def)

lemma grown_sets:
  assumes "grown L pgdir w I s xs s' ys"
  shows "set ys \<union> pt_pages (mem s') pgdir \<union> upage (mem s') pgdir ` {va. PGROUNDDOWN va \<in> I} =
    set xs \<union> pt_pages (mem s) pgdir"
  using assms by (simp add: grown_def)

lemma grown_trans:
  assumes g: "grown L pgdir w I s xs s1 ys" "grown L pgdir w J s1 ys s2 zs"
    and dis: "I \<inter> J = {}" "\<And>p. p \<in> I \<Longrightarrow> p < KERNBASE \<and> page_aligned p"
  shows "grown L pgdir w (I \<union> J) s xs s2 zs"
proof -
  have keep: "pte_at (mem s2) pgdir va = pte_at (mem s1) pgdir va" if "PGROUNDDOWN va \<in> I" for va
    using g(2) that dis(1) by (auto simp: grown_def)
  have page: "upage (mem s2) pgdir va = upage (mem s1) pgdir va" if "PGROUNDDOWN va \<in> I" for va
    using keep [OF that] by (simp add: upage_def)
  have inv1: "uvm_inv L s1 pgdir ys" using g(1) by (simp add: grown_def)
  have um: "PGROUNDDOWN va \<in> umapped (mem s1) pgdir" if "PGROUNDDOWN va \<in> I" for va
    using g(1) that dis(2) by (auto simp: grown_def umapped_def)
  have zero: "mem s2 b = 0" if "PGROUNDDOWN va \<in> I" "PGROUNDDOWN b = upage (mem s2) pgdir va" for va b
  proof -
    have "PGROUNDDOWN b \<notin> set ys \<union> pt_pages (mem s1) pgdir"
      using uvm_inv_page(2,3) [OF inv1 um [OF that(1)]] that page by (simp add: upage_page)
    then have "mem s2 b = mem s1 b" using g(2) by (simp add: grown_def)
    also have "\<dots> = 0" using g(1) that page [OF that(1)] by (simp add: grown_def)
    finally show ?thesis .
  qed
  have "upage (mem s2) pgdir ` {va. PGROUNDDOWN va \<in> I} = upage (mem s1) pgdir ` {va. PGROUNDDOWN va \<in> I}"
    by (rule image_cong) (simp_all add: page)
  moreover have "{va. PGROUNDDOWN va \<in> I \<union> J} = {va. PGROUNDDOWN va \<in> I} \<union> {va. PGROUNDDOWN va \<in> J}"
    by auto
  ultimately have sets: "set zs \<union> pt_pages (mem s2) pgdir \<union> upage (mem s2) pgdir ` {va. PGROUNDDOWN va \<in> I \<union> J} =
      set xs \<union> pt_pages (mem s) pgdir"
    using grown_sets [OF g(1)] grown_sets [OF g(2)] by (simp add: image_Un) blast
  have new: "pte_at (mem s2) pgdir va = V2P (upage (mem s2) pgdir va) OR w OR PTE_P"
    if "PGROUNDDOWN va \<in> I \<union> J" for va
    using that grown_pte(2) [OF g(1), of va] grown_pte(2) [OF g(2), of va] keep page by auto
  have frame: "mem s2 b = mem s b" if "PGROUNDDOWN b \<notin> set xs \<union> pt_pages (mem s) pgdir" for b
  proof -
    have "PGROUNDDOWN b \<notin> set ys \<union> pt_pages (mem s1) pgdir"
      using that grown_sets [OF g(1)] by blast
    with that g show ?thesis by (simp add: grown_def)
  qed
  show ?thesis
    unfolding grown_def
  proof (intro conjI allI impI sets)
    show "uvm_inv L s2 pgdir zs" using g(2) by (simp add: grown_def)
    show "pt_pages (mem s) pgdir \<subseteq> pt_pages (mem s2) pgdir" using g by (auto simp: grown_def)
    show "pte_at (mem s2) pgdir va = pte_at (mem s) pgdir va" if "PGROUNDDOWN va \<notin> I \<union> J" for va
      using g that by (simp add: grown_def)
    show "mem s2 b = 0" if "PGROUNDDOWN va \<in> I \<union> J" "PGROUNDDOWN b = upage (mem s2) pgdir va" for va b
      using that zero grown_zero [OF g(2), of va b] by auto
  qed (use new frame in simp_all)
qed

lemma grown_one:
  assumes inv: "uvm_inv L s pgdir (x # xs)" and a: "page_aligned a" "\<not> present (pte_at (mem s) pgdir a)"
    and perm: "take_bit 12 w = w"
    and s1: "s1 = s\<lparr>freelist := load32 (mem s) x, mem := memset (mem s) x 0 PGSIZE\<rparr>"
  obtains (ok) s2 ys where "mappages pgdir a PGSIZE (V2P x) w s1 = Ok 0 s2"
      "grown L pgdir w {a} s (x # xs) s2 ys" "length xs \<le> Suc (length ys)"
  | (full) s2 ys where "xs = []" "mappages pgdir a PGSIZE (V2P x) w s1 = Ok (- 1) s2"
      "uvm_inv L s2 pgdir ys" "pte_at (mem s2) pgdir = pte_at (mem s) pgdir"
      "x \<notin> set ys" "x \<notin> pt_pages (mem s2) pgdir"
      "set ys \<union> pt_pages (mem s2) pgdir = set xs \<union> pt_pages (mem s) pgdir"
      "pt_pages (mem s) pgdir \<subseteq> pt_pages (mem s2) pgdir"
      "\<And>b. PGROUNDDOWN b \<notin> set (x # xs) \<union> pt_pages (mem s) pgdir \<Longrightarrow> mem s2 b = mem s b"
proof -
  have x: "page_aligned x" using inv by (auto simp: uvm_inv_def vm_inv_def free_rep_def)
  have x': "x \<notin> set xs \<union> pt_pages (mem s) pgdir"
    using inv by (auto simp: uvm_inv_def vm_inv_def free_rep_def)
  have m1: "memset (mem s) x 0 PGSIZE b = (if PGROUNDDOWN b = x then 0 else mem s b)" for b
    by (simp add: memset_fill fill_def in_page_iff [OF x])
  have frame: "memset (mem s) x 0 PGSIZE b = mem s b" if "PGROUNDDOWN b \<noteq> x" for b
    using that m1 by simp
  obtain s2 ys where r:
    "mappages pgdir a PGSIZE (V2P x) w s1 = Ok 0 s2 \<and>
       pte_at (mem s2) pgdir =
         (\<lambda>va. if PGROUNDDOWN va = a then V2P x OR w OR PTE_P else pte_at (mem s) pgdir va) \<or>
     mappages pgdir a PGSIZE (V2P x) w s1 = Ok (- 1) s2 \<and>
       pte_at (mem s2) pgdir = pte_at (mem s) pgdir \<and> xs = []"
    and s2: "uvm_inv L s2 pgdir ys" "x \<notin> set ys" "x \<notin> pt_pages (mem s2) pgdir" "length xs \<le> Suc (length ys)"
      "set ys \<union> pt_pages (mem s2) pgdir = set xs \<union> pt_pages (mem s) pgdir"
      "pt_pages (mem s) pgdir \<subseteq> pt_pages (mem s2) pgdir"
      "\<And>b. PGROUNDDOWN b \<notin> set xs \<union> pt_pages (mem s) pgdir \<Longrightarrow> mem s2 b = memset (mem s) x 0 PGSIZE b"
    by (rule map_fresh_page [OF inv a frame perm, folded s1], assumption) (rule that)
  show thesis
    using r
  proof (elim disjE conjE)
    assume ok: "mappages pgdir a PGSIZE (V2P x) w s1 = Ok 0 s2"
      "pte_at (mem s2) pgdir =
         (\<lambda>va. if PGROUNDDOWN va = a then V2P x OR w OR PTE_P else pte_at (mem s) pgdir va)"
    have up: "upage (mem s2) pgdir va = x" if "PGROUNDDOWN va = a" for va
      using that x perm by (simp add: upage_def ok(2)) (subst PTE_ADDR_or; auto)
    have img: "upage (mem s2) pgdir ` {va. PGROUNDDOWN va \<in> {a}} = {x}"
      using upage_image [OF a(1)] up [of a] a(1) by simp
    have "grown L pgdir w {a} s (x # xs) s2 ys"
      unfolding grown_def img
    proof (intro conjI allI impI)
      show "mem s2 b = 0" if "PGROUNDDOWN va \<in> {a}" "PGROUNDDOWN b = upage (mem s2) pgdir va" for va b
        using that up [of va] s2(7) [of b] x' m1 by simp
      show "mem s2 b = mem s b" if "PGROUNDDOWN b \<notin> set (x # xs) \<union> pt_pages (mem s) pgdir" for b
        using that s2(7) [of b] m1 by simp
      show "set ys \<union> pt_pages (mem s2) pgdir \<union> {x} = set (x # xs) \<union> pt_pages (mem s) pgdir"
        using s2(5) by auto
    qed (use s2 ok(2) up in simp_all)
    from ok(1) this s2(4) show thesis by (rule that(1))
  next
    assume full: "mappages pgdir a PGSIZE (V2P x) w s1 = Ok (- 1) s2"
      "pte_at (mem s2) pgdir = pte_at (mem s) pgdir" "xs = []"
    show thesis
    proof (rule that(2) [OF full(3,1) s2(1) full(2) s2(2,3,5,6)])
      show "mem s2 b = mem s b" if "PGROUNDDOWN b \<notin> set (x # xs) \<union> pt_pages (mem s) pgdir" for b
        using that s2(7) [of b] m1 by simp
    qed
  qed
qed

text \<open>What a failed attempt to grow leaves: the pages it tried to map are not mapped, all
  other entries are as before, and every page it took is free again or holds a page table.\<close>

definition grow_undone :: "ksyms \<Rightarrow> u32 \<Rightarrow> u32 set \<Rightarrow> kstate \<Rightarrow> u32 list \<Rightarrow> kstate \<Rightarrow> bool" where
  "grow_undone L pgdir I s xs s' \<longleftrightarrow> (\<exists>ys.
     uvm_inv L s' pgdir ys \<and>
     (\<forall>va. if PGROUNDDOWN va \<in> I then \<not> present (pte_at (mem s') pgdir va)
           else pte_at (mem s') pgdir va = pte_at (mem s) pgdir va) \<and>
     set ys \<union> pt_pages (mem s') pgdir = set xs \<union> pt_pages (mem s) pgdir \<and>
     pt_pages (mem s) pgdir \<subseteq> pt_pages (mem s') pgdir \<and>
     (\<forall>b. PGROUNDDOWN b \<notin> set xs \<union> pt_pages (mem s) pgdir \<longrightarrow> mem s' b = mem s b))"

text \<open>Undoing: \<open>s1\<close> has the pages in \<open>J\<close> mapped, \<open>s2\<close> is \<open>s1\<close> up to page tables and page
  \<open>x\<close>, and \<open>s3\<close> is \<open>s2\<close> with all pages in \<open>I\<close> unmapped.\<close>

lemma undo_grow:
  assumes g: "grown L pgdir w J s xs s1 ys" and J: "J \<subseteq> I" "\<And>p. p \<in> I \<Longrightarrow> p < KERNBASE \<and> page_aligned p"
    and np: "\<And>va. PGROUNDDOWN va \<in> I \<Longrightarrow> \<not> present (pte_at (mem s) pgdir va)"
    and sh: "shrunk L pgdir I s2 zs s3 ws"
    and pte: "pte_at (mem s2) pgdir = pte_at (mem s1) pgdir"
    and sets: "X \<union> set zs \<union> pt_pages (mem s2) pgdir = set ys \<union> pt_pages (mem s1) pgdir"
    and pt: "pt_pages (mem s1) pgdir \<subseteq> pt_pages (mem s2) pgdir"
    and frame: "\<And>b. PGROUNDDOWN b \<notin> set ys \<union> pt_pages (mem s1) pgdir \<Longrightarrow> mem s2 b = mem s1 b"
  shows "\<forall>va. if PGROUNDDOWN va \<in> I then \<not> present (pte_at (mem s3) pgdir va)
           else pte_at (mem s3) pgdir va = pte_at (mem s) pgdir va"
    and "X \<union> set (ws @ zs) \<union> pt_pages (mem s3) pgdir = set xs \<union> pt_pages (mem s) pgdir"
    and "pt_pages (mem s) pgdir \<subseteq> pt_pages (mem s3) pgdir"
    and "\<forall>b. PGROUNDDOWN b \<notin> set xs \<union> pt_pages (mem s) pgdir \<longrightarrow> mem s3 b = mem s b"
proof -
  have pte3: "pte_at (mem s3) pgdir = unmap_spec (pte_at (mem s1) pgdir) I"
    using sh pte by (simp add: shrunk_def)
  show "\<forall>va. if PGROUNDDOWN va \<in> I then \<not> present (pte_at (mem s3) pgdir va)
           else pte_at (mem s3) pgdir va = pte_at (mem s) pgdir va"
    using grown_pte(1) [OF g] J(1) by (auto simp: pte3 unmap_spec_def)
  have "{va \<in> umapped (mem s2) pgdir. PGROUNDDOWN va \<in> I} = {va. PGROUNDDOWN va \<in> J}" 
  proof -
    have "va < KERNBASE" if "PGROUNDDOWN va \<in> I" for va
      using J(2) [OF that] below_KERNBASE by blast
    moreover have "present (pte_at (mem s1) pgdir va) \<longleftrightarrow> PGROUNDDOWN va \<in> J" if "PGROUNDDOWN va \<in> I" for va
      using grown_pte [OF g, of va] np [OF that] by (cases "PGROUNDDOWN va \<in> J") simp_all
    ultimately show ?thesis using J(1) by (auto simp: umapped_def pte)
  qed
  then have ws: "set ws = upage (mem s1) pgdir ` {va. PGROUNDDOWN va \<in> J}"
    using sh pte by (simp add: shrunk_def upage_def)
  then show "X \<union> set (ws @ zs) \<union> pt_pages (mem s3) pgdir = set xs \<union> pt_pages (mem s) pgdir"
    using grown_sets [OF g] sh sets unfolding shrunk_def by auto
  show "pt_pages (mem s) pgdir \<subseteq> pt_pages (mem s3) pgdir"
    using g sh pt by (auto simp: shrunk_def grown_def)
  show "\<forall>b. PGROUNDDOWN b \<notin> set xs \<union> pt_pages (mem s) pgdir \<longrightarrow> mem s3 b = mem s b"
  proof (intro allI impI)
    fix b assume b: "PGROUNDDOWN b \<notin> set xs \<union> pt_pages (mem s) pgdir"
    then have "PGROUNDDOWN b \<notin> set ys \<union> pt_pages (mem s1) pgdir" "PGROUNDDOWN b \<notin> set ws"
      using grown_sets [OF g] ws by blast+
    moreover from this have "PGROUNDDOWN b \<notin> pt_pages (mem s2) pgdir" using sets by blast
    ultimately show "mem s3 b = mem s b"
      using frame [of b] sh g b by (simp add: shrunk_def grown_def)
  qed
qed

lemma uvm_inv_kfree:
  assumes inv: "uvm_inv L s pgdir xs" and free: "kfree L x s = Ok u s'"
    and x: "x \<notin> set xs" "x \<notin> pt_pages (mem s) pgdir" "x \<notin> upage (mem s) pgdir ` umapped (mem s) pgdir"
  shows "uvm_inv L s' pgdir (x # xs)"
proof -
  note vm = vm_inv_kfree [OF uvm_inv_vm [OF inv] free x(1,2)]
  have eq: "umapped (mem s') pgdir = umapped (mem s) pgdir" "upage (mem s') pgdir = upage (mem s) pgdir"
    using vm(2) by (simp_all add: umapped_def upage_def fun_eq_iff)
  show ?thesis
    unfolding uvm_inv_def eq
  proof (intro conjI ballI impI vm(1))
    show "KERNBASE < sym_end L" using inv by (simp add: uvm_inv_def)
    fix va assume va: "va \<in> umapped (mem s) pgdir"
    note pg = uvm_inv_page [OF inv va]
    show "kpage L (upage (mem s) pgdir va)" by (rule pg(1))
    show "upage (mem s) pgdir va \<notin> set (x # xs)" "upage (mem s) pgdir va \<notin> pt_pages (mem s') pgdir"
      using pg(2,3) x(3) va vm(4) by auto
    fix va' assume "va' \<in> umapped (mem s) pgdir" "upage (mem s) pgdir va' = upage (mem s) pgdir va"
    then show "PGROUNDDOWN va' = PGROUNDDOWN va" by (rule uvm_inv_inj [OF inv va])
  qed
qed

lemma pages_in_user: "b \<le> KERNBASE \<Longrightarrow> p \<in> pages_in a b \<Longrightarrow> p < KERNBASE \<and> page_aligned p"
  by (auto simp: pages_in_def)

lemma undo_no_page:
  fixes oldsz newsz
  defines "I \<equiv> pages_in (PGROUNDUP oldsz) newsz"
  assumes g: "grown L pgdir w J s0 xs0 s xs" and J: "J \<subseteq> I" and sz: "oldsz < newsz" "newsz < KERNBASE"
    and np: "\<And>va. PGROUNDDOWN va \<in> I \<Longrightarrow> \<not> present (pte_at (mem s0) pgdir va)"
  shows "\<exists>s'. deallocuvm L pgdir newsz oldsz s = Ok oldsz s' \<and> grow_undone L pgdir I s0 xs0 s'"
proof -
  have inv: "uvm_inv L s pgdir xs" using g by (simp add: grown_def)
  have I: "p < KERNBASE \<and> page_aligned p" if "p \<in> I" for p
    using that sz(2) pages_in_user [of newsz p] by (simp add: I_def)
  obtain s' ys where s': "deallocuvm L pgdir newsz oldsz s = Ok oldsz s'" and sh: "shrunk L pgdir I s xs s' ys"
    using deallocuvm_spec [OF inv sz(1)] sz(2) unfolding I_def by (metis less_imp_le)
  have "uvm_inv L s' pgdir (ys @ xs)" using sh by (simp add: shrunk_def)
  then have "grow_undone L pgdir I s0 xs0 s'"
    unfolding grow_undone_def using undo_grow [OF g J I np sh, of "{}"]
    by (intro exI [of _ "ys @ xs"]) simp
  with s' show ?thesis by blast
qed

lemma undo_no_table:
  fixes oldsz newsz
  defines "I \<equiv> pages_in (PGROUNDUP oldsz) newsz"
  assumes g: "grown L pgdir w J s0 xs0 s (x # xs)" and J: "J \<subseteq> I" and sz: "oldsz < newsz" "newsz < KERNBASE"
    and np: "\<And>va. PGROUNDDOWN va \<in> I \<Longrightarrow> \<not> present (pte_at (mem s0) pgdir va)"
    and inv2: "uvm_inv L s2 pgdir ys" and pte: "pte_at (mem s2) pgdir = pte_at (mem s) pgdir"
    and x: "x \<notin> set ys" "x \<notin> pt_pages (mem s2) pgdir"
    and sets: "set ys \<union> pt_pages (mem s2) pgdir = set xs \<union> pt_pages (mem s) pgdir"
    and pt: "pt_pages (mem s) pgdir \<subseteq> pt_pages (mem s2) pgdir"
    and frame: "\<And>b. PGROUNDDOWN b \<notin> set (x # xs) \<union> pt_pages (mem s) pgdir \<Longrightarrow> mem s2 b = mem s b"
  shows "\<exists>s3 s'. deallocuvm L pgdir newsz oldsz s2 = Ok oldsz s3 \<and> kfree L x s3 = Ok () s' \<and>
    grow_undone L pgdir I s0 xs0 s'"
proof -
  have inv: "uvm_inv L s pgdir (x # xs)" using g by (simp add: grown_def)
  then have kp: "kpage L x" by (simp add: uvm_inv_def vm_inv_def free_rep_def)
  have I: "p < KERNBASE \<and> page_aligned p" if "p \<in> I" for p
    using that sz(2) pages_in_user [of newsz p] by (simp add: I_def)
  obtain s3 ws where s3: "deallocuvm L pgdir newsz oldsz s2 = Ok oldsz s3" and sh: "shrunk L pgdir I s2 ys s3 ws"
    using deallocuvm_spec [OF inv2 sz(1)] sz(2) unfolding I_def by (metis less_imp_le)
  have sets': "{x} \<union> set ys \<union> pt_pages (mem s2) pgdir = set (x # xs) \<union> pt_pages (mem s) pgdir"
    using sets by auto
  note un = undo_grow [OF g J I np sh pte sets' pt frame]
  have xp: "x \<notin> upage (mem s) pgdir ` umapped (mem s) pgdir"
    using uvm_inv_page(2) [OF inv] by auto
  have eq: "umapped (mem s2) pgdir = umapped (mem s) pgdir" "upage (mem s2) pgdir = upage (mem s) pgdir"
    using pte by (simp_all add: umapped_def upage_def fun_eq_iff)
  have x3: "x \<notin> set (ws @ ys)" "x \<notin> pt_pages (mem s3) pgdir"
    using x xp sh by (auto simp: shrunk_def eq)
  have "upage (mem s3) pgdir ` umapped (mem s3) pgdir \<subseteq> upage (mem s2) pgdir ` umapped (mem s2) pgdir"
    using sh by (auto simp: shrunk_def umapped_def upage_def unmap_spec_def split: if_splits)
  then have xu: "x \<notin> upage (mem s3) pgdir ` umapped (mem s3) pgdir" using xp eq by auto
  obtain s' where s': "kfree L x s3 = Ok () s'" using kfree_ok [OF kp] by blast
  have inv3: "uvm_inv L s3 pgdir (ws @ ys)" using sh by (simp add: shrunk_def)
  note kf = vm_inv_kfree [OF uvm_inv_vm [OF inv3] s' x3]
  have "mem s' b = mem s0 b" if "PGROUNDDOWN b \<notin> set xs0 \<union> pt_pages (mem s0) pgdir" for b
    using that un(2,4) kfree_frame [OF s', of b] by fastforce
  then have "grow_undone L pgdir I s0 xs0 s'"
    unfolding grow_undone_def using uvm_inv_kfree [OF inv3 s' x3 xu] un kf(2,4)
    by (intro exI [of _ "x # ws @ ys"]) simp
  with s3 s' show ?thesis by blast
qed

lemma below_roundup:
  assumes "a < newsz" "PGROUNDUP oldsz \<le> a" "newsz < KERNBASE" "oldsz \<le> newsz"
  shows "oldsz < newsz"
proof -
  have "unat oldsz + 4095 < 4294967296"
    using assms(3,4) by (simp add: u32_less_iff_unat u32_le_iff_unat)
  from PGROUNDUP_ge [OF this] assms(1,2) show ?thesis
    by (simp add: u32_less_iff_unat u32_le_iff_unat)
qed

lemma pages_in_prefix:
  assumes "page_aligned a" "a < b" "b \<le> KERNBASE" "a0 \<le> a"
  shows "{p \<in> pages_in a0 b. p < a + PGSIZE} = {p \<in> pages_in a0 b. p < a} \<union> {a}"
proof -
  have "p < a + PGSIZE \<longleftrightarrow> p < a \<or> p = a" if "page_aligned p" for p
    using page_between [of p a] that assms(1) page_next [OF assms(2,3)]
    by (cases "unat a \<le> unat p") (auto simp: u32_less_iff_unat u32_eq_iff_unat)
  then show ?thesis
    using assms by (auto simp: pages_in_def)
qed

lemma allocuvm_loop_step:
  assumes "a < newsz" "free_rep L s (x # xs)"
    and s1: "s1 = s\<lparr>freelist := load32 (mem s) x, mem := memset (mem s) x 0 PGSIZE\<rparr>"
  shows "allocuvm_loop L (Suc f) pgdir oldsz a newsz s =
    bindO (mappages pgdir a PGSIZE (V2P x) (PTE_W OR PTE_U) s1) (\<lambda>r s.
      if r <s 0 then
        bindO (deallocuvm L pgdir newsz oldsz s) (\<lambda>_ s. bindO (kfree L x s) (\<lambda>_ s. Ok 0 s))
      else allocuvm_loop L f pgdir oldsz (a + PGSIZE) newsz s)"
  using assms(1) kalloc_cons(1) [OF assms(2)] kpage_nonzero [of L x] assms(2)
  by (simp add: free_rep_def s1)

lemma allocuvm_loop_spec:
  assumes "newsz < KERNBASE" "oldsz \<le> newsz"
    and np: "\<And>va. PGROUNDDOWN va \<in> pages_in (PGROUNDUP oldsz) newsz \<Longrightarrow> \<not> present (pte_at (mem s0) pgdir va)"
    and "grown L pgdir (PTE_W OR PTE_U) {p \<in> pages_in (PGROUNDUP oldsz) newsz. p < a} s0 xs0 s xs"
      "length xs0 \<le> length xs + 2 * card {p \<in> pages_in (PGROUNDUP oldsz) newsz. p < a}"
    and "page_aligned a" "PGROUNDUP oldsz \<le> a" "unat newsz + 4096 \<le> unat a + 4096 * fuel" "0 < fuel"
  shows "\<exists>s'. allocuvm_loop L fuel pgdir oldsz a newsz s = Ok newsz s' \<and>
      (\<exists>ys. grown L pgdir (PTE_W OR PTE_U) (pages_in (PGROUNDUP oldsz) newsz) s0 xs0 s' ys) \<or>
    allocuvm_loop L fuel pgdir oldsz a newsz s = Ok 0 s' \<and>
      grow_undone L pgdir (pages_in (PGROUNDUP oldsz) newsz) s0 xs0 s' \<and>
      length xs0 < 2 * card (pages_in (PGROUNDUP oldsz) newsz)"
  using assms(4-)
proof (induction fuel arbitrary: a s xs)
  case 0
  then show ?case by simp
next
  case (Suc fuel)
  let ?I = "pages_in (PGROUNDUP oldsz) newsz"
  show ?case
  proof (cases "a < newsz")
    case False
    then have "{p \<in> ?I. p < a} = ?I" by (auto simp: pages_in_def)
    with False Suc.prems(1) show ?thesis by auto
  next
    case True
    have fuel: "0 < fuel" using True Suc.prems(5) by (cases fuel) (simp_all add: u32_less_iff_unat)
    have nsz: "newsz \<le> KERNBASE" using assms(1) by simp
    have sz: "oldsz < newsz" using True Suc.prems(4) assms(1,2) by (rule below_roundup)
    have inv: "uvm_inv L s pgdir xs" using Suc.prems(1) by (simp add: grown_def)
    have sub: "{p \<in> ?I. p < a} \<subseteq> ?I" by auto
    have aI: "a \<in> ?I" using True Suc.prems(3,4) by (simp add: pages_in_def)
    have card: "card {p \<in> ?I. p < a} < card ?I"
      using aI by (intro psubset_card_mono) auto
    show ?thesis
    proof (cases xs)
      case Nil
      then have "kalloc s = (0, s)"
        using inv kalloc_empty [of L s] by (simp add: uvm_inv_def vm_inv_def)
      then show ?thesis
        using undo_no_page [OF Suc.prems(1) sub sz assms(1) np] True Nil Suc.prems(2) card by auto
    next
      case (Cons x xs')
      have perm: "take_bit 12 (PTE_W OR PTE_U) = (PTE_W OR PTE_U)" by simp
      have "\<not> present (pte_at (mem s) pgdir a)"
        using grown_pte(1) [OF Suc.prems(1), of a] np [of a] aI Suc.prems(3) by simp
      note one = inv [unfolded Cons] Suc.prems(3) this perm refl
      have rep: "free_rep L s (x # xs')" using one(1) by (simp add: uvm_inv_def vm_inv_def)
      note step = allocuvm_loop_step [OF True rep refl]
      show ?thesis
        using one
      proof (cases rule: grown_one)
        case (ok s2 ys)
        have "grown L pgdir (PTE_W OR PTE_U) ({p \<in> ?I. p < a} \<union> {a}) s0 xs0 s2 ys"
          using ok(2) pages_in_user [OF nsz]
          by (intro grown_trans [OF Suc.prems(1) [unfolded Cons]]) auto
        moreover have "length xs0 \<le> length ys + 2 * card ({p \<in> ?I. p < a} \<union> {a})"
          using Suc.prems(2) ok(3) Cons by simp
        ultimately show ?thesis
          unfolding pages_in_prefix [OF Suc.prems(3) True nsz Suc.prems(4), symmetric]
          using Suc.IH [of "a + PGSIZE" s2 ys] step ok(1) fuel Suc.prems page_next [OF True nsz]
          by (simp add: page_aligned_add u32_le_iff_unat)
      next
        case (full s2 ys)
        then show ?thesis
          using undo_no_table [OF Suc.prems(1) [unfolded Cons] sub sz assms(1) np full(3-)] step
            Suc.prems(2) card Cons by auto
      qed
    qed
  qed
qed

text \<open>
  C30: Growing an address space always returns. Either the new size comes back and every page
  of the new range is mapped, writable for the user, to its own page of zeros off the free
  list; or 0 comes back, only when there were less than two free pages for each page of the
  range, and every page that was taken is free again or holds a page table.
  In both cases all other mappings and all other memory are as before.
\<close>

theorem allocuvm_grows:
  assumes "uvm_inv L s pgdir xs" "oldsz \<le> newsz" "newsz < KERNBASE"
    and "\<And>va. PGROUNDDOWN va \<in> pages_in (PGROUNDUP oldsz) newsz \<Longrightarrow> \<not> present (pte_at (mem s) pgdir va)"
  shows "\<exists>s'. allocuvm L pgdir oldsz newsz s = Ok newsz s' \<and>
      (\<exists>ys. grown L pgdir (PTE_W OR PTE_U) (pages_in (PGROUNDUP oldsz) newsz) s xs s' ys) \<or>
    allocuvm L pgdir oldsz newsz s = Ok 0 s' \<and>
      grow_undone L pgdir (pages_in (PGROUNDUP oldsz) newsz) s xs s' \<and>
      length xs < 2 * card (pages_in (PGROUNDUP oldsz) newsz)"
proof -
  have "{p \<in> pages_in (PGROUNDUP oldsz) newsz. p < PGROUNDUP oldsz} = {}"
    by (auto simp: pages_in_def)
  note base = this
  have "\<exists>s'. allocuvm_loop L page_fuel pgdir oldsz (PGROUNDUP oldsz) newsz s = Ok newsz s' \<and>
      (\<exists>ys. grown L pgdir (PTE_W OR PTE_U) (pages_in (PGROUNDUP oldsz) newsz) s xs s' ys) \<or>
    allocuvm_loop L page_fuel pgdir oldsz (PGROUNDUP oldsz) newsz s = Ok 0 s' \<and>
      grow_undone L pgdir (pages_in (PGROUNDUP oldsz) newsz) s xs s' \<and>
      length xs < 2 * card (pages_in (PGROUNDUP oldsz) newsz)"
  proof (rule allocuvm_loop_spec [OF assms(3,2,4)])
    show "grown L pgdir (PTE_W OR PTE_U) {p \<in> pages_in (PGROUNDUP oldsz) newsz. p < PGROUNDUP oldsz} s xs s xs"
      unfolding base by (rule grown_none [OF assms(1)])
  qed (use assms(3) in \<open>simp_all add: base page_fuel_def u32_less_iff_unat\<close>)
  moreover have "allocuvm L pgdir oldsz newsz s =
      allocuvm_loop L page_fuel pgdir oldsz (PGROUNDUP oldsz) newsz s"
    using assms(2,3) by (simp add: allocuvm_def u32_less_iff_unat u32_le_iff_unat)
  ultimately show ?thesis by simp
qed

text \<open>The address space of \<^const>\<open>demo_mapped\<close> and an empty one with no free page but one.\<close>

lemma demo_mapped_pte:
  "pte_at (mem demo_mapped) 0x80120000 va = (if PGROUNDDOWN va = 0x60000000 then 0x130007 else 0)"
proof -
  have c: "PDX 0x60000000 = 384" "PTX 0x60000000 = 0" by (simp_all add: PDX_def PTX_def)
  have "PGROUNDDOWN va = 0x60000000 \<longleftrightarrow> PDX va = 384 \<and> PTX va = 0"
    using page_eq_iff [of "PGROUNDDOWN va" "0x60000000"] PTX_PGROUNDDOWN [of va]
    by (simp add: c page_aligned_def [of "0x60000000"])
  then show ?thesis
    by (simp add: pte_at_def demo_mapped_pde pgtab_at_def PTE_ADDR_def P2V_def)
      (simp add: demo_mapped_def load32_store32_entry c page_aligned_def)
qed

lemma demo_mapped_uvm: "uvm_inv demo_syms demo_mapped 0x80120000 []"
proof -
  have "pgtab_at (mem demo_mapped) 0x80120000 d \<noteq> 0x80130000" if "d < 1024" "present (pde_at (mem demo_mapped) 0x80120000 d)" for d
    using that by (auto simp: pgtab_at_def demo_mapped_pde PTE_ADDR_def P2V_def split: if_splits)
  then have "(0x80130000 :: u32) \<notin> pt_pages (mem demo_mapped) 0x80120000"
    by (fastforce simp: pt_pages_def)
  moreover have "upage (mem demo_mapped) 0x80120000 va = 0x80130000"
    "PGROUNDDOWN va = 0x60000000" if "va \<in> umapped (mem demo_mapped) 0x80120000" for va
    using that by (auto simp: umapped_def upage_def demo_mapped_pte PTE_ADDR_def P2V_def split: if_splits)
  moreover have "kpage demo_syms 0x80130000"
    by (simp add: kpage_def page_aligned_def demo_syms_def V2P_def)
  ultimately show ?thesis
    using demo_mapped_inv by (simp add: uvm_inv_def demo_syms_def)
qed

lemma demo_vm_uvm: "uvm_inv demo_syms demo_vm 0x80120000 [0x80121000]"
  using demo_vm_inv
  by (simp add: uvm_inv_def umapped_def demo_syms_def pte_at_def pde_at_def demo_vm_def demo_kstate_def)

theorem freevm_frees_all_witness:
  "\<exists>s' ys. freevm demo_syms 0x80120000 demo_mapped = Ok () s' \<and> free_rep demo_syms s' ys \<and>
    set ys = set [] \<union> pt_pages (mem demo_mapped) 0x80120000 \<union>
      upage (mem demo_mapped) 0x80120000 ` umapped (mem demo_mapped) 0x80120000"
  by (rule freevm_frees_all [OF demo_mapped_uvm])

theorem allocuvm_grows_witness:
  "\<exists>s'. allocuvm demo_syms 0x80120000 0 4000 demo_vm = Ok 4000 s' \<and>
      (\<exists>ys. grown demo_syms 0x80120000 (PTE_W OR PTE_U) (pages_in (PGROUNDUP 0) 4000) demo_vm [0x80121000] s' ys) \<or>
    allocuvm demo_syms 0x80120000 0 4000 demo_vm = Ok 0 s' \<and>
      grow_undone demo_syms 0x80120000 (pages_in (PGROUNDUP 0) 4000) demo_vm [0x80121000] s' \<and>
      length [0x80121000 :: u32] < 2 * card (pages_in (PGROUNDUP 0) 4000)"
  by (rule allocuvm_grows [OF demo_vm_uvm])
    (simp_all add: pte_at_def pde_at_def demo_vm_def demo_kstate_def)

end
