(* ===== verification/Uvm_Copy.thy ===== *)
theory Uvm_Copy
  imports Uvm
begin

text \<open>
  Copying to, and between, address spaces (\<^verbatim>\<open>vm.c\<close>). The theory gives an address space its
  contents as its program sees them, the byte behind every mapped user address, and shows that
  \<^verbatim>\<open>copyout\<close> is a plain store of bytes in that view, whatever the pages behind it, and that
  \<^verbatim>\<open>setupkvm\<close> and \<^verbatim>\<open>copyuvm\<close> build the kernel half and a faithful copy of the user half.
\<close>

section \<open>What the program sees\<close>

definition uaddr :: "memory \<Rightarrow> u32 \<Rightarrow> u32 \<Rightarrow> u32" where
  "uaddr m pgdir va = upage m pgdir va + (va - PGROUNDDOWN va)"

definition uread :: "memory \<Rightarrow> u32 \<Rightarrow> u32 \<Rightarrow> u8" where
  "uread m pgdir va = m (uaddr m pgdir va)"

text \<open>The addresses the program may use: mapped, and mapped for the user.\<close>

definition uaccess :: "memory \<Rightarrow> u32 \<Rightarrow> u32 set" where
  "uaccess m pgdir = {va \<in> umapped m pgdir. pte_at m pgdir va AND PTE_U \<noteq> 0}"

lemma page_offset: "va - PGROUNDDOWN va < PGSIZE"
  using in_page_iff [of "PGROUNDDOWN va" va] by simp

lemma uaddr_page: "page_aligned (upage m pgdir va) \<Longrightarrow> PGROUNDDOWN (uaddr m pgdir va) = upage m pgdir va"
  unfolding uaddr_def by (rule PGROUNDDOWN_offset [OF _ page_offset])

lemma upage_aligned [simp]: "page_aligned (upage m pgdir va)"
  by (simp add: upage_def)

lemma uaddr_inj:
  assumes "uvm_inv L s pgdir xs" "va \<in> umapped (mem s) pgdir" "va' \<in> umapped (mem s) pgdir"
    "uaddr (mem s) pgdir va' = uaddr (mem s) pgdir va"
  shows "va' = va"
proof -
  have eq: "upage (mem s) pgdir va' = upage (mem s) pgdir va"
    using uaddr_page [of "mem s" pgdir va] uaddr_page [of "mem s" pgdir va'] assms(4) by simp
  then have "PGROUNDDOWN va' = PGROUNDDOWN va"
    by (rule uvm_inv_inj [OF assms(1-3)])
  with eq assms(4) show ?thesis by (simp add: uaddr_def)
qed

lemma same_page_add:
  assumes "unat va mod 4096 + k < 4096"
  shows "PGROUNDDOWN (va + of_nat k) = PGROUNDDOWN va"
proof -
  have "unat (of_nat k :: u32) = k" using assms by (simp add: unat_of_nat_u32)
  moreover have "unat va + k < 4294967296"
  proof -
    have "unat va div 4096 \<le> 1048575" using u32_lt_4G [of va] by linarith
    then show ?thesis using assms div_mult_mod_eq [of "unat va" 4096] by linarith
  qed
  ultimately have "unat (va + of_nat k) = unat va + k" by (simp add: unat_add_lt)
  moreover have "(unat va + k) div 4096 = unat va div 4096"
    using assms by (simp add: div_add1_eq [of "unat va"])
  ultimately show ?thesis by (simp add: u32_eq_iff_unat unat_PGROUNDDOWN)
qed

lemma uaddr_add:
  assumes "unat va mod 4096 + k < 4096"
  shows "uaddr m pgdir (va + of_nat k) = uaddr m pgdir va + of_nat k"
  using same_page_add [OF assms] upage_page [of m pgdir va] upage_page [of m pgdir "va + of_nat k"]
  by (simp add: uaddr_def algebra_simps)

text \<open>Memory that is neither free nor a page table can change without touching the invariant.\<close>

lemma uvm_inv_write:
  assumes "uvm_inv L s pgdir xs"
    and "\<And>a. PGROUNDDOWN a \<in> set xs \<union> pt_pages (mem s) pgdir \<Longrightarrow> m a = mem s a"
  shows "uvm_inv L (s\<lparr>mem := m\<rparr>) pgdir xs" "pte_at m pgdir = pte_at (mem s) pgdir"
    "pt_pages m pgdir = pt_pages (mem s) pgdir"
proof -
  have vm: "free_rep L s xs" "pt_wf L (mem s) pgdir" "set xs \<inter> pt_pages (mem s) pgdir = {}"
    using assms(1) by (simp_all add: uvm_inv_def vm_inv_def)
  have "m a = mem s a" if "PGROUNDDOWN a \<in> pt_pages (mem s) pgdir" for a
    using that assms(2) by simp
  note pt = pt_frame [OF vm(2) this]
  show "pt_pages m pgdir = pt_pages (mem s) pgdir" and pte: "pte_at m pgdir = pte_at (mem s) pgdir"
    using pt(2,4) by (simp_all add: fun_eq_iff)
  have "free_rep L (s\<lparr>mem := m\<rparr>) xs"
    using assms(2) by (intro free_rep_frame [OF vm(1)]) simp_all
  with pt(3,4) vm(3) have "vm_inv L (s\<lparr>mem := m\<rparr>) pgdir xs" by (simp add: vm_inv_def)
  then show "uvm_inv L (s\<lparr>mem := m\<rparr>) pgdir xs"
    using pt(4) pte by (intro uvm_inv_same [OF assms(1)]) simp_all
qed

section \<open>Storing bytes in user memory\<close>

lemma poke_append:
  assumes "length bs \<le> 4294967296" "n \<le> length bs"
  shows "poke (poke m a (take n bs)) (a + of_nat n) (drop n bs) = poke m a bs"
proof
  fix x
  define y where "y = x - a"
  define d where "d = unat y"
  have d: "d < 4294967296" by (simp add: d_def u32_lt_4G)
  have n: "unat (of_nat n :: u32) = n mod 4294967296" by (simp add: unat_of_nat)
  have sub: "x - (a + of_nat n) = y - of_nat n" by (simp add: y_def)
  show "poke (poke m a (take n bs)) (a + of_nat n) (drop n bs) x = poke m a bs x"
  proof (cases "n \<le> d")
    case True
    then have "unat (of_nat n :: u32) = n" using d n by simp
    then have "unat (x - (a + of_nat n)) = d - n"
      unfolding sub d_def using True by (subst unat_sub_le) (simp_all add: u32_le_iff_unat d_def)
    then show ?thesis
      using True assms by (auto simp: poke_def y_def [symmetric] d_def [symmetric] nth_append less_diff_conv2)
  next
    case False
    have "length bs - n \<le> unat (x - (a + of_nat n))"
    proof (cases "n = 4294967296")
      case True
      then show ?thesis using assms(1) by simp
    next
      case ne: False
      then have un: "unat (of_nat n :: u32) = n" using assms n by simp
      have "unat (y - of_nat n) = 4294967296 + d - n"
        using False un by (simp add: unat_sub_if_size d_def [symmetric] u32_le_iff_unat word_size)
      then show ?thesis unfolding sub using assms(1) by linarith
    qed
    then show ?thesis
      using False assms by (auto simp: poke_def y_def [symmetric] d_def [symmetric])
  qed
qed

lemma uva2ka_access:
  assumes "uvm_inv L s pgdir xs" "va \<in> uaccess (mem s) pgdir"
  shows "uva2ka pgdir (PGROUNDDOWN va) s = Ok (upage (mem s) pgdir va) s" "upage (mem s) pgdir va \<noteq> 0"
proof -
  have um: "va \<in> umapped (mem s) pgdir" and u: "pte_at (mem s) pgdir va AND PTE_U \<noteq> 0"
    using assms(2) by (auto simp: uaccess_def)
  have pr: "present (pde_at (mem s) pgdir (PDX va))" "present (pte_at (mem s) pgdir va)"
    using um by (auto simp: umapped_def pte_at_def split: if_splits)
  have "pt_wf L (mem s) pgdir" using assms(1) by (simp add: uvm_inv_def vm_inv_def)
  then have "entry (pgtab_at (mem s) pgdir (PDX va)) (PTX va) \<noteq> 0"
    using kpage_entry_nonzero [OF pt_wf_pgtab(1) [OF _ PDX_less pr(1)] PTX_less] by blast
  then show "uva2ka pgdir (PGROUNDDOWN va) s = Ok (upage (mem s) pgdir va) s"
    using pr u by (simp add: uva2ka_def walkpgdir_present load32_pte upage_def) (simp add: present_def)
  show "upage (mem s) pgdir va \<noteq> 0"
    using uvm_inv_page(1) [OF assms(1) um] kpage_nonzero by blast
qed

text \<open>One round of \<^const>\<open>copyout\<close>: bytes that fit in the page of \<open>va\<close>.\<close>

lemma copyout_chunk:
  assumes inv: "uvm_inv L s pgdir xs" and va: "va \<in> umapped (mem s) pgdir"
    and len: "unat va mod 4096 + length cs \<le> 4096"
    and um: "\<forall>k < length cs. va + of_nat k \<in> umapped (mem s) pgdir"
  defines "m \<equiv> poke (mem s) (uaddr (mem s) pgdir va) cs"
  shows "uvm_inv L (s\<lparr>mem := m\<rparr>) pgdir xs" "pte_at m pgdir = pte_at (mem s) pgdir"
    "va' \<in> umapped (mem s) pgdir \<Longrightarrow> uread m pgdir va' = poke (uread (mem s) pgdir) va cs va'"
    "\<And>a. PGROUNDDOWN a \<notin> upage (mem s) pgdir ` umapped (mem s) pgdir \<Longrightarrow> m a = mem s a"
proof -
  let ?p = "upage (mem s) pgdir va"
  have out: "m a = mem s a" if "PGROUNDDOWN a \<noteq> ?p" for a
  proof -
    have False if k: "unat (a - uaddr (mem s) pgdir va) < length cs"
    proof -
      define k where "k = unat (a - uaddr (mem s) pgdir va)"
      have "a = uaddr (mem s) pgdir va + of_nat k" by (simp add: k_def)
      also have "\<dots> = uaddr (mem s) pgdir (va + of_nat k)"
        using k len by (subst uaddr_add) (simp_all add: k_def)
      finally have "PGROUNDDOWN a = upage (mem s) pgdir (va + of_nat k)"
        by (simp add: uaddr_page)
      also have "\<dots> = ?p"
        using same_page_add [of va k] k len upage_page [of "mem s" pgdir va]
          upage_page [of "mem s" pgdir "va + of_nat k"] by (simp add: k_def)
      finally show False using \<open>PGROUNDDOWN a \<noteq> ?p\<close> by simp
    qed
    then show ?thesis by (auto simp: m_def poke_def)
  qed
  then show "m a = mem s a" if "PGROUNDDOWN a \<notin> upage (mem s) pgdir ` umapped (mem s) pgdir" for a
    using that va by auto
  have w: "m a = mem s a" if "PGROUNDDOWN a \<in> set xs \<union> pt_pages (mem s) pgdir" for a
    using that uvm_inv_page(2,3) [OF inv va] by (intro out) auto
  note w = uvm_inv_write [OF inv w]
  then show "uvm_inv L (s\<lparr>mem := m\<rparr>) pgdir xs" and pte: "pte_at m pgdir = pte_at (mem s) pgdir"
    by simp_all
  assume va': "va' \<in> umapped (mem s) pgdir"
  have ua: "uaddr m pgdir va' = uaddr (mem s) pgdir va'" by (simp add: uaddr_def upage_def pte)
  let ?d = "uaddr (mem s) pgdir va' - uaddr (mem s) pgdir va"
  have fwd: "unat ?d = k" "unat (va' - va) = k"
    if "va' = va + of_nat k" "k < length cs" for k
    using that len by (simp_all add: uaddr_add unat_of_nat_u32)
  have bwd: "va' = va + of_nat (unat ?d)" if "unat ?d < length cs"
  proof -
    have "uaddr (mem s) pgdir va' = uaddr (mem s) pgdir va + of_nat (unat ?d)" by simp
    also have "\<dots> = uaddr (mem s) pgdir (va + of_nat (unat ?d))" 
      by (rule uaddr_add [symmetric]) (use that len in linarith)
    finally show ?thesis by (rule uaddr_inj [OF inv um [rule_format, OF that] va'])
  qed
  have eq: "unat ?d = unat (va' - va)" if "unat (va' - va) < length cs"
    by (rule fwd(1) [OF _ that]) simp
  have "unat (va' - va) = unat ?d" if "unat ?d < length cs"
    by (rule fwd(2) [OF bwd [OF that] that])
  with eq have iff: "unat ?d < length cs \<longleftrightarrow> unat (va' - va) < length cs"
    by linarith
  have mm: "m a = (if unat (a - uaddr (mem s) pgdir va) < length cs
      then cs ! unat (a - uaddr (mem s) pgdir va) else mem s a)" for a
    by (simp add: m_def poke_def)
  show "uread m pgdir va' = poke (uread (mem s) pgdir) va cs va'"
    unfolding uread_def ua mm poke_def iff using eq by simp
qed

lemma copyout_step:
  assumes "uvm_inv L s pgdir xs" "va \<in> uaccess (mem s) pgdir" "bs \<noteq> []"
  defines "n \<equiv> min (4096 - unat va mod 4096) (length bs)"
  shows "copyout pgdir va bs s =
    copyout pgdir (PGROUNDDOWN va + PGSIZE) (drop n bs)
      (s\<lparr>mem := poke (mem s) (uaddr (mem s) pgdir va) (take n bs)\<rparr>)"
  using uva2ka_access [OF assms(1,2)] assms(3)
  by (subst copyout.simps) (simp add: Let_def page_rest uaddr_def n_def min_def)

lemma page_end:
  assumes "unat va mod 4096 + n = 4096"
  shows "PGROUNDDOWN va + PGSIZE = va + of_nat n"
proof -
  have "unat (va - PGROUNDDOWN va) = unat va mod 4096"
    by (subst unat_sub_le) (simp_all add: u32_le_iff_unat unat_PGROUNDDOWN minus_div_mult_eq_mod)
  moreover have "va - PGROUNDDOWN va = of_nat (unat (va - PGROUNDDOWN va))" by simp
  ultimately have "va - PGROUNDDOWN va = of_nat (unat va mod 4096)" by (simp only:)
  moreover have "of_nat (unat va mod 4096) + of_nat n = (PGSIZE :: u32)"
    using assms by (metis of_nat_add of_nat_numeral)
  ultimately have "PGROUNDDOWN va + PGSIZE = PGROUNDDOWN va + ((va - PGROUNDDOWN va) + of_nat n)"
    by (simp only:)
  then show ?thesis by simp
qed

text \<open>
  C31: Copying bytes out to a program: when every target address is mapped for the user,
  \<^verbatim>\<open>copyout\<close> returns 0 and the program sees exactly the bytes at the target and its old memory
  everywhere else, even where the target crosses pages that are scattered in physical memory.
  No mapping changes and no memory but the program's own pages is written.
\<close>

theorem copyout_stores:
  assumes "uvm_inv L s pgdir xs" "unat va + length bs \<le> 2147483648"
    and "\<And>i. i < length bs \<Longrightarrow> va + of_nat i \<in> uaccess (mem s) pgdir"
  shows "\<exists>s'. copyout pgdir va bs s = Ok 0 s' \<and> uvm_inv L s' pgdir xs \<and>
    pte_at (mem s') pgdir = pte_at (mem s) pgdir \<and>
    (\<forall>va' \<in> umapped (mem s) pgdir. uread (mem s') pgdir va' = poke (uread (mem s) pgdir) va bs va') \<and>
    (\<forall>a. PGROUNDDOWN a \<notin> upage (mem s) pgdir ` umapped (mem s) pgdir \<longrightarrow> mem s' a = mem s a)"
  using assms
proof (induction "length bs" arbitrary: va bs s rule: less_induct)
  case less
  show ?case
  proof (cases "bs = []")
    case True
    then show ?thesis using less.prems by (simp add: copyout.simps)
  next
    case False
    define n where "n = min (4096 - unat va mod 4096) (length bs)"
    have n: "0 < n" "n \<le> length bs" "unat va mod 4096 + n \<le> 4096"
      using False by (auto simp: n_def min_def)
    have va: "va \<in> uaccess (mem s) pgdir" using less.prems(3) [of 0] False by simp
    note st = copyout_step [OF less.prems(1) va False, folded n_def]
    define m where "m = poke (mem s) (uaddr (mem s) pgdir va) (take n bs)"
    have um: "\<forall>k < length (take n bs). va + of_nat k \<in> umapped (mem s) pgdir"
      using less.prems(3) by (simp add: uaccess_def)
    have va': "va \<in> umapped (mem s) pgdir" using va by (simp add: uaccess_def)
    have len: "unat va mod 4096 + length (take n bs) \<le> 4096" using n by simp
    note ch = copyout_chunk [OF less.prems(1) va' len um, folded m_def]
    have eqs: "umapped m pgdir = umapped (mem s) pgdir" "uaccess m pgdir = uaccess (mem s) pgdir"
      "upage m pgdir = upage (mem s) pgdir"
      using ch(2) by (simp_all add: umapped_def uaccess_def upage_def fun_eq_iff)
    have "\<exists>s'. copyout pgdir (PGROUNDDOWN va + PGSIZE) (drop n bs) (s\<lparr>mem := m\<rparr>) = Ok 0 s' \<and>
        uvm_inv L s' pgdir xs \<and> pte_at (mem s') pgdir = pte_at m pgdir \<and>
        (\<forall>va' \<in> umapped m pgdir. uread (mem s') pgdir va' = poke (uread m pgdir) (va + of_nat n) (drop n bs) va') \<and>
        (\<forall>a. PGROUNDDOWN a \<notin> upage m pgdir ` umapped m pgdir \<longrightarrow> mem s' a = m a)"
    proof (cases "n = length bs")
      case True
      then show ?thesis using ch(1) by (auto simp: copyout.simps)
    next
      case ne: False
      then have "unat va mod 4096 + n = 4096" by (auto simp: n_def min_def)
      note nxt = page_end [OF this]
      have "unat (va + of_nat n) = unat va + n"
        using less.prems(2) n(2) by (subst unat_add_lt) (simp_all add: unat_of_nat_u32)
      moreover have "va + of_nat n + of_nat i \<in> uaccess m pgdir" if "i < length (drop n bs)" for i
        using less.prems(3) [of "n + i"] that eqs by (simp add: add.assoc)
      ultimately show ?thesis
        unfolding nxt using less.hyps [of "drop n bs" "s\<lparr>mem := m\<rparr>" "va + of_nat n"] n ch(1) less.prems(2)
        by simp
    qed
    then obtain s' where s': "copyout pgdir va bs s = Ok 0 s'" "uvm_inv L s' pgdir xs"
      "pte_at (mem s') pgdir = pte_at (mem s) pgdir"
      and rd: "\<forall>va' \<in> umapped (mem s) pgdir. uread (mem s') pgdir va' =
        poke (uread m pgdir) (va + of_nat n) (drop n bs) va'"
      and fr: "\<forall>a. PGROUNDDOWN a \<notin> upage (mem s) pgdir ` umapped (mem s) pgdir \<longrightarrow> mem s' a = m a"
      unfolding eqs st m_def [symmetric] ch(2) by blast
    have "uread (mem s') pgdir va' = poke (uread (mem s) pgdir) va bs va'"
      if "va' \<in> umapped (mem s) pgdir" for va'
    proof -
      have "uread (mem s') pgdir va' =
          poke (poke (uread (mem s) pgdir) va (take n bs)) (va + of_nat n) (drop n bs) va'"
        using rd that ch(3) [OF that] by (simp add: poke_def)
      also have "\<dots> = poke (uread (mem s) pgdir) va bs va'"
        using less.prems(2) n(2) by (subst poke_append) simp_all
      finally show ?thesis .
    qed
    with s' fr ch(4) show ?thesis by auto
  qed
qed

lemma demo_mapped_access:
  "uaccess (mem demo_mapped) 0x80120000 = {va. PGROUNDDOWN va = 0x60000000}"
proof -
  have "va < KERNBASE" if "PGROUNDDOWN va = 0x60000000" for va
    using below_KERNBASE [of va] that by simp
  then show ?thesis
    by (auto simp: uaccess_def umapped_def demo_mapped_pte split: if_splits)
qed

theorem copyout_stores_witness:
  "\<exists>s'. copyout 0x80120000 0x60000010 [1, 2, 3] demo_mapped = Ok 0 s' \<and>
    uvm_inv demo_syms s' 0x80120000 [] \<and> pte_at (mem s') 0x80120000 = pte_at (mem demo_mapped) 0x80120000 \<and>
    (\<forall>va' \<in> umapped (mem demo_mapped) 0x80120000. uread (mem s') 0x80120000 va' =
       poke (uread (mem demo_mapped) 0x80120000) 0x60000010 [1, 2, 3] va') \<and>
    (\<forall>a. PGROUNDDOWN a \<notin> upage (mem demo_mapped) 0x80120000 ` umapped (mem demo_mapped) 0x80120000 \<longrightarrow>
       mem s' a = mem demo_mapped a)"
  by (rule copyout_stores [OF demo_mapped_uvm])
    (auto simp: demo_mapped_access PGROUNDDOWN_def less_Suc_eq numeral_3_eq_3)

end
