(* ===== verification/Kstring.thy ===== *)
theory Kstring
  imports Memory
begin

text \<open>
  The string routines of the kernel (\<^verbatim>\<open>string.c\<close>) and of the user library
  (\<^verbatim>\<open>ulib.c\<close>) on byte memory, next to \<^verbatim>\<open>memset\<close> and \<^verbatim>\<open>memmove\<close> of theory Memory. A
  routine with no bound on its loop (\<^verbatim>\<open>strlen\<close>, \<^verbatim>\<open>strcpy\<close>, \<^verbatim>\<open>strchr\<close>, \<^verbatim>\<open>strcmp\<close>) is a
  partial function: \<^const>\<open>None\<close> means that it never returns. The theory shows what the
  routines do on NUL-terminated strings.
\<close>

section \<open>Character constants\<close>

text \<open>The bytes of a string constant of the source, without the closing NUL.\<close>

definition bytes :: "string \<Rightarrow> u8 list" where
  "bytes cs = map of_char cs"

section \<open>Bounded routines\<close>

text \<open>The value of a \<^verbatim>\<open>uchar\<close> in an \<^verbatim>\<open>int\<close> expression.\<close>

abbreviation (input) int_of_uchar :: "u8 \<Rightarrow> i32" where
  "int_of_uchar b \<equiv> ucast b"

primrec memcmp_loop :: "memory \<Rightarrow> nat \<Rightarrow> u32 \<Rightarrow> u32 \<Rightarrow> i32" where
  "memcmp_loop m 0 s1 s2 = 0"
| "memcmp_loop m (Suc n) s1 s2 =
     (if m s1 \<noteq> m s2 then int_of_uchar (m s1) - int_of_uchar (m s2)
      else memcmp_loop m n (s1 + 1) (s2 + 1))"

definition memcmp :: "memory \<Rightarrow> u32 \<Rightarrow> u32 \<Rightarrow> u32 \<Rightarrow> i32" where
  "memcmp m v1 v2 n = memcmp_loop m (unat n) v1 v2"

definition memcpy :: "memory \<Rightarrow> u32 \<Rightarrow> u32 \<Rightarrow> u32 \<Rightarrow> memory" where
  "memcpy m dst src n = memmove m dst src n"

primrec strncmp_loop :: "memory \<Rightarrow> nat \<Rightarrow> u32 \<Rightarrow> u32 \<Rightarrow> i32" where
  "strncmp_loop m 0 p q = 0"
| "strncmp_loop m (Suc n) p q =
     (if m p \<noteq> 0 \<and> m p = m q then strncmp_loop m n (p + 1) (q + 1)
      else int_of_uchar (m p) - int_of_uchar (m q))"

definition strncmp :: "memory \<Rightarrow> u32 \<Rightarrow> u32 \<Rightarrow> u32 \<Rightarrow> i32" where
  "strncmp m p q n = strncmp_loop m (unat n) p q"

text \<open>The number of rounds of a loop \<^verbatim>\<open>while(n-- > 0)\<close> on an \<^verbatim>\<open>int n\<close>.\<close>

definition rounds :: "i32 \<Rightarrow> nat" where
  "rounds n = nat (sint n)"

text \<open>The second loop of \<^verbatim>\<open>strncpy\<close>.\<close>

primrec zero_fill :: "memory \<Rightarrow> nat \<Rightarrow> u32 \<Rightarrow> memory" where
  "zero_fill m 0 s = m"
| "zero_fill m (Suc n) s = zero_fill (m(s := 0)) n (s + 1)"

primrec strncpy_loop :: "memory \<Rightarrow> nat \<Rightarrow> u32 \<Rightarrow> u32 \<Rightarrow> memory" where
  "strncpy_loop m 0 s t = m"
| "strncpy_loop m (Suc n) s t =
     (let c = m t; m = m(s := c)
      in if c \<noteq> 0 then strncpy_loop m n (s + 1) (t + 1) else zero_fill m n (s + 1))"

definition strncpy :: "memory \<Rightarrow> u32 \<Rightarrow> u32 \<Rightarrow> i32 \<Rightarrow> memory" where
  "strncpy m s t n = strncpy_loop m (rounds n) s t"

text \<open>The loop \<^verbatim>\<open>while(--n > 0 && ...)\<close> of \<^verbatim>\<open>safestrcpy\<close> and the final \<^verbatim>\<open>*s = 0\<close>; when the
  loop ends at a NUL byte, \<^verbatim>\<open>s\<close> has moved past it already.\<close>

primrec safestrcpy_loop :: "memory \<Rightarrow> nat \<Rightarrow> u32 \<Rightarrow> u32 \<Rightarrow> memory" where
  "safestrcpy_loop m 0 s t = m(s := 0)"
| "safestrcpy_loop m (Suc n) s t =
     (let c = m t; m = m(s := c)
      in if c \<noteq> 0 then safestrcpy_loop m n (s + 1) (t + 1) else m(s + 1 := 0))"

definition safestrcpy :: "memory \<Rightarrow> u32 \<Rightarrow> u32 \<Rightarrow> i32 \<Rightarrow> memory" where
  "safestrcpy m s t n = (if n \<le>s 0 then m else safestrcpy_loop m (rounds n - 1) s t)"

section \<open>Unbounded routines\<close>

partial_function (option) strlen_from :: "memory \<Rightarrow> u32 \<Rightarrow> i32 \<Rightarrow> i32 option" where
  "strlen_from m s n = (if m (s + n) = 0 then Some n else strlen_from m s (n + 1))"

definition strlen :: "memory \<Rightarrow> u32 \<Rightarrow> i32 option" where
  "strlen m s = strlen_from m s 0"

partial_function (option) strcpy :: "memory \<Rightarrow> u32 \<Rightarrow> u32 \<Rightarrow> memory option" where
  "strcpy m s t = (let c = m t; m = m(s := c)
     in if c = 0 then Some m else strcpy m (s + 1) (t + 1))"

partial_function (option) strcmp :: "memory \<Rightarrow> u32 \<Rightarrow> u32 \<Rightarrow> i32 option" where
  "strcmp m p q = (if m p \<noteq> 0 \<and> m p = m q then strcmp m (p + 1) (q + 1)
     else Some (int_of_uchar (m p) - int_of_uchar (m q)))"

partial_function (option) strchr :: "memory \<Rightarrow> u32 \<Rightarrow> u8 \<Rightarrow> u32 option" where
  "strchr m s c = (if m s = 0 then Some 0 else if m s = c then Some s else strchr m (s + 1) c)"

text \<open>\<^verbatim>\<open>memset\<close> and \<^verbatim>\<open>memmove\<close> of the user library: the latter copies upwards only, so it is
  no move for a destination that overlaps the source from above.\<close>

definition umemset :: "memory \<Rightarrow> u32 \<Rightarrow> i32 \<Rightarrow> u32 \<Rightarrow> memory" where
  "umemset m dst c n = stosb m dst (ucast c) (unat n)"

definition umemmove :: "memory \<Rightarrow> u32 \<Rightarrow> u32 \<Rightarrow> i32 \<Rightarrow> memory" where
  "umemmove m vdst vsrc n = copy_up m vdst vsrc (rounds n)"

text \<open>\<^verbatim>\<open>'0' <= *s\<close> compares signed characters.\<close>

definition is_digit :: "u8 \<Rightarrow> bool" where
  "is_digit c \<longleftrightarrow> 48 \<le>s c \<and> c \<le>s 57"

partial_function (option) atoi_from :: "memory \<Rightarrow> u32 \<Rightarrow> i32 \<Rightarrow> i32 option" where
  "atoi_from m s n = (if is_digit (m s) then atoi_from m (s + 1) (n * 10 + ucast (m s) - 48) else Some n)"

definition atoi :: "memory \<Rightarrow> u32 \<Rightarrow> i32 option" where
  "atoi m s = atoi_from m s 0"

text \<open>\<open>rd\<close> stands for \<^verbatim>\<open>read(0, &c, 1)\<close>: the result, the byte and the rest of the input.\<close>

primrec gets_loop :: "('i \<Rightarrow> i32 \<times> u8 \<times> 'i) \<Rightarrow> nat \<Rightarrow> memory \<Rightarrow> u32 \<Rightarrow> 'i \<Rightarrow> memory \<times> 'i" where
  "gets_loop rd 0 m p inp = (m(p := 0), inp)"
| "gets_loop rd (Suc n) m p inp =
     (let (cc, c, inp) = rd inp
      in if cc <s 1 then (m(p := 0), inp)
         else
           let m = m(p := c)
           in if c = 10 \<or> c = 13 then (m(p + 1 := 0), inp) else gets_loop rd n m (p + 1) inp)"

definition gets :: "('i \<Rightarrow> i32 \<times> u8 \<times> 'i) \<Rightarrow> memory \<Rightarrow> u32 \<Rightarrow> i32 \<Rightarrow> 'i \<Rightarrow> memory \<times> 'i" where
  "gets rd m buf maxn inp = gets_loop rd (rounds maxn - 1) m buf inp"

text \<open>\<open>op\<close>, \<open>fst\<close> and \<open>cl\<close> stand for the calls \<^verbatim>\<open>open\<close>, \<^verbatim>\<open>fstat\<close> and \<^verbatim>\<open>close\<close>.\<close>

definition ustat :: "('n \<Rightarrow> 's \<Rightarrow> i32 \<times> 's) \<Rightarrow> (i32 \<Rightarrow> 's \<Rightarrow> (i32 \<times> 't) \<times> 's) \<Rightarrow> (i32 \<Rightarrow> 's \<Rightarrow> 's) \<Rightarrow>
    'n \<Rightarrow> 's \<Rightarrow> (i32 \<times> 't option) \<times> 's" where
  "ustat opn fstat cls n s =
     (let (fd, s) = opn n s
      in if fd <s 0 then ((- 1, None), s)
         else let ((r, st), s) = fstat fd s; s = cls fd s in ((r, Some st), s))"

section \<open>NUL-terminated strings\<close>

text \<open>\<open>xs\<close> is the string at \<open>p\<close>.\<close>

primrec cstr :: "memory \<Rightarrow> u32 \<Rightarrow> u8 list \<Rightarrow> bool" where
  "cstr m p [] \<longleftrightarrow> m p = 0"
| "cstr m p (x # xs) \<longleftrightarrow> m p = x \<and> x \<noteq> 0 \<and> cstr m (p + 1) xs"

lemma cstr_cong:
  "(\<And>i. i \<le> length xs \<Longrightarrow> m' (p + of_nat i) = m (p + of_nat i)) \<Longrightarrow> cstr m' p xs = cstr m p xs"
proof (induction xs arbitrary: p)
  case Nil
  from Nil [of 0] show ?case by simp
next
  case (Cons x xs)
  have "cstr m' (p + 1) xs = cstr m (p + 1) xs"
    using Cons.prems [of "Suc i" for i] by (intro Cons.IH) (simp add: add.assoc)
  with Cons.prems [of 0] show ?case by simp
qed

lemma cstr_unique: "cstr m p xs \<Longrightarrow> cstr m p ys \<Longrightarrow> xs = ys"
  by (induction xs arbitrary: p ys) (case_tac ys; auto)+

lemma strlen_from_cstr: "cstr m (s + n) xs \<Longrightarrow> strlen_from m s n = Some (n + of_nat (length xs))"
proof (induction xs arbitrary: n)
  case Nil
  then show ?case by (subst strlen_from.simps) simp
next
  case (Cons x xs)
  then show ?case
    using Cons.IH [of "n + 1"] by (subst strlen_from.simps) (simp add: algebra_simps)
qed

lemma strlen_cstr: "cstr m s xs \<Longrightarrow> strlen m s = Some (of_nat (length xs))"
  using strlen_from_cstr [of m s 0 xs] by (simp add: strlen_def)

lemma unat_uchar [simp]: "unat (int_of_uchar b) = unat b"
proof -
  have "unat b < 256" using unsigned_less [of b] by simp
  then show ?thesis by (simp add: unsigned_ucast_eq take_bit_nat_eq_self)
qed

lemma uchar_eq [simp]: "int_of_uchar a = int_of_uchar b \<longleftrightarrow> a = b" "int_of_uchar a = 0 \<longleftrightarrow> a = 0"
  by (simp_all add: word_unat_eq_iff)

lemma uchar_diff: "int_of_uchar a - int_of_uchar b = 0 \<longleftrightarrow> a = b"
  unfolding right_minus_eq by simp

lemma strcmp_cstr:
  "cstr m p xs \<Longrightarrow> cstr m q ys \<Longrightarrow> \<exists>r. strcmp m p q = Some r \<and> (r = 0 \<longleftrightarrow> xs = ys)"
proof (induction xs arbitrary: p q ys)
  case Nil
  then show ?case by (cases ys) (subst strcmp.simps; auto simp: uchar_diff)+
next
  case (Cons x xs)
  show ?case
  proof (cases "m q = x")
    case True
    with Cons.prems obtain ys' where ys: "ys = x # ys'" "cstr m (q + 1) ys'" by (cases ys) auto
    with Cons.prems Cons.IH [of "p + 1" "q + 1" ys'] True show ?thesis
      by (subst strcmp.simps) auto
  next
    case False
    with Cons.prems have "x # xs \<noteq> ys" by (cases ys) auto
    with False Cons.prems uchar_diff [of x "m q"] show ?thesis by (subst strcmp.simps) auto
  qed
qed

lemma strncmp_loop_cstr:
  "cstr m p xs \<Longrightarrow> cstr m q ys \<Longrightarrow> strncmp_loop m n p q = 0 \<longleftrightarrow> take n xs = take n ys"
proof (induction n arbitrary: p q xs ys)
  case 0
  then show ?case by simp
next
  case (Suc n)
  then show ?case
    using uchar_diff [of "m p" "m q"] by (cases xs; cases ys) auto
qed

subsection \<open>Copying with a bound\<close>

lemma unat_from_next:
  fixes a s :: u32
  assumes "a \<noteq> s"
  shows "unat (a - s) = Suc (unat (a - (s + 1)))"
proof -
  have "a - s \<noteq> 0" using assms by simp
  then have "unat (a - s - 1) = unat (a - s) - 1" "0 < unat (a - s)"
    by (simp_all add: unat_minus_one unat_gt_0)
  then show ?thesis by (simp add: diff_diff_eq)
qed

lemma safestrcpy_loop_frame:
  "n < unat (a - s) \<Longrightarrow> safestrcpy_loop m n s t a = m a"
proof (induction n arbitrary: m s t)
  case 0
  then show ?case by auto
next
  case (Suc n)
  then have "a \<noteq> s" by auto
  moreover from this Suc.prems have "n < unat (a - (s + 1))" by (simp add: unat_from_next)
  moreover from this have "a \<noteq> s + 1" by auto
  ultimately show ?case using Suc.IH [of "s + 1"] by (simp add: Let_def)
qed

lemma safestrcpy_loop_cstr:
  assumes "cstr m t xs" "n < 4294967295"
    and "\<And>i j. i \<le> length xs \<Longrightarrow> j \<le> n \<Longrightarrow> t + of_nat i \<noteq> s + of_nat j"
  shows "cstr (safestrcpy_loop m n s t) s (take n xs)"
  using assms
proof (induction n arbitrary: m s t xs)
  case 0
  then show ?case by simp
next
  case (Suc n)
  show ?case
  proof (cases xs)
    case Nil
    with Suc.prems(1) show ?thesis by (simp add: Let_def)
  next
    case (Cons x xs')
    have keep: "t + of_nat i \<noteq> s" if "i \<le> length xs" for i
      using Suc.prems(3) [OF that, of 0] by simp
    have "cstr (m(s := x)) (t + 1) xs'"
      using Suc.prems(1) Cons keep [of "Suc i" for i]
      by (subst cstr_cong [of _ _ _ m]) (auto simp: add.assoc)
    moreover have "t + 1 + of_nat i \<noteq> s + 1 + of_nat j" if "i \<le> length xs'" "j \<le> n" for i j
      using Suc.prems(3) [of "Suc i" "Suc j"] that Cons by (simp add: add.assoc)
    ultimately have "cstr (safestrcpy_loop (m(s := x)) n (s + 1) (t + 1)) (s + 1) (take n xs')"
      by (rule Suc.IH [OF _ Suc_lessD [OF Suc.prems(2)]])
    moreover have "safestrcpy_loop (m(s := x)) n (s + 1) (t + 1) s = x"
      using Suc.prems(2) by (subst safestrcpy_loop_frame) (simp_all add: unat_minus_one_u32)
    ultimately show ?thesis
      using Suc.prems(1) Cons by (simp add: Let_def)
  qed
qed

text \<open>
  C25: \<^verbatim>\<open>safestrcpy(s, t, n)\<close> with a positive \<^verbatim>\<open>n\<close> leaves at \<^verbatim>\<open>s\<close> a NUL-terminated string, the
  first \<^verbatim>\<open>n-1\<close> bytes of the string at \<^verbatim>\<open>t\<close>, and writes nothing outside the \<^verbatim>\<open>n\<close> bytes from
  \<^verbatim>\<open>s\<close> on, provided these do not overlap the source.
\<close>

theorem safestrcpy_bounded:
  assumes "cstr m t xs" "0 <s n"
    and "\<And>i j. i \<le> length xs \<Longrightarrow> j < rounds n \<Longrightarrow> t + of_nat i \<noteq> s + of_nat j"
  shows "cstr (safestrcpy m s t n) s (take (rounds n - 1) xs) \<and>
    (\<forall>a. rounds n \<le> unat (a - s) \<longrightarrow> safestrcpy m s t n a = m a)"
proof -
  have r: "0 < rounds n" "rounds n < 2147483648"
    using assms(2) sint_lt [of n] by (simp_all add: rounds_def word_sless_alt)
  have eq: "safestrcpy m s t n = safestrcpy_loop m (rounds n - 1) s t"
    using assms(2) by (simp add: safestrcpy_def word_sless_alt word_sle_eq)
  have "cstr (safestrcpy m s t n) s (take (rounds n - 1) xs)"
    unfolding eq using r assms(3) by (intro safestrcpy_loop_cstr [OF assms(1)]) simp_all
  moreover have "\<forall>a. rounds n \<le> unat (a - s) \<longrightarrow> safestrcpy m s t n a = m a"
    unfolding eq using r by (auto intro!: safestrcpy_loop_frame)
  ultimately show ?thesis ..
qed

text \<open>The string \<^verbatim>\<open>"hi"\<close> at address 100.\<close>

definition demo_string :: memory where
  "demo_string = (\<lambda>_. 0)(100 := 104, 101 := 105)"

theorem safestrcpy_bounded_witness:
  "cstr (safestrcpy demo_string 200 100 2) 200 [104] \<and> safestrcpy demo_string 200 100 2 202 = demo_string 202"
proof -
  have far: "100 + of_nat i \<noteq> 200 + (of_nat j :: u32)" if "i \<le> length [104, 105 :: u8]" "j < rounds 2" for i j
    using that by (simp add: u32_eq_iff_unat unat_word_ariths unat_of_nat rounds_def)
  have str: "cstr demo_string 100 [104, 105]" "0 <s (2 :: i32)"
    by (simp_all add: demo_string_def word_sless_alt)
  have r: "rounds 2 = 2" by (simp add: rounds_def)
  have "cstr (safestrcpy demo_string 200 100 2) 200 (take (rounds 2 - 1) [104, 105]) \<and>
      (\<forall>a. rounds 2 \<le> unat (a - 200) \<longrightarrow> safestrcpy demo_string 200 100 2 a = demo_string a)"
    by (rule safestrcpy_bounded [OF str far])
  then show ?thesis by (simp add: r)
qed

end
