(* ===== verification/Grep.thy ===== *)
theory Grep
  imports Kstring
begin

text \<open>
  The program \<^verbatim>\<open>grep.c\<close>: the regular expression matcher, and the loop that reads the input
  in pieces and prints the lines that match. Patterns and texts are the bytes before the
  terminating NUL. The theory gives the patterns a meaning (a list of items, each a
  character, any character, or a repetition, with anchors) and shows that the matcher
  decides it, and that the reading loop prints the matching lines.
\<close>

section \<open>The matcher\<close>

text \<open>The bytes \<open>42\<close>, \<open>46\<close>, \<open>36\<close>, \<open>94\<close> and \<open>10\<close> are \<^verbatim>\<open>*\<close>, \<^verbatim>\<open>.\<close>, \<^verbatim>\<open>$\<close>, \<^verbatim>\<open>^\<close> and the
  newline.\<close>

function matchhere :: "u8 list \<Rightarrow> u8 list \<Rightarrow> bool"
  and matchstar :: "u8 \<Rightarrow> u8 list \<Rightarrow> u8 list \<Rightarrow> bool" where
  "matchhere re tx =
     (case re of [] \<Rightarrow> True
      | c # re1 \<Rightarrow>
          if re1 \<noteq> [] \<and> hd re1 = 42 then matchstar c (tl re1) tx
          else if c = 36 \<and> re1 = [] then tx = []
          else (case tx of [] \<Rightarrow> False
                | t # ts \<Rightarrow> if c = 46 \<or> c = t then matchhere re1 ts else False))"
| "matchstar c re tx =
     (if matchhere re tx then True
      else (case tx of [] \<Rightarrow> False
            | t # ts \<Rightarrow> if t = c \<or> c = 46 then matchstar c re ts else False))"
  by pat_completeness auto
termination
  by (relation "measure (\<lambda>x. case x of Inl (re, tx) \<Rightarrow> 2 * (length re + length tx)
      | Inr (c, re, tx) \<Rightarrow> 2 * (length re + length tx) + 1)")
    (auto simp: neq_Nil_conv)

declare matchhere.simps [simp del] matchstar.simps [simp del]

primrec match_from :: "u8 list \<Rightarrow> u8 list \<Rightarrow> bool" where
  "match_from re [] = matchhere re []"
| "match_from re (t # ts) = (if matchhere re (t # ts) then True else match_from re ts)"

definition match :: "u8 list \<Rightarrow> u8 list \<Rightarrow> bool" where
  "match re tx = (if re \<noteq> [] \<and> hd re = 94 then matchhere (tl re) tx else match_from re tx)"

section \<open>Reading and printing\<close>

text \<open>The inner loop over the newlines of the buffer: what it prints, what is left of the
  buffer, and whether there was a newline at all. \<^verbatim>\<open>strchr\<close> does not look past a NUL byte.\<close>

function grep_lines :: "u8 list \<Rightarrow> u8 list \<Rightarrow> u8 list \<times> u8 list \<times> bool" where
  "grep_lines pat buf =
     (let l = takeWhile (\<lambda>c. c \<noteq> 10 \<and> c \<noteq> 0) buf; r = drop (length l) buf
      in if r \<noteq> [] \<and> hd r = 10 then
           let (out, rest, _) = grep_lines pat (tl r)
           in ((if match pat l then l @ [10] else []) @ out, rest, True)
         else ([], buf, False))"
  by pat_completeness auto
termination
  by (relation "measure (\<lambda>(pat, buf). length buf)") auto

declare grep_lines.simps [simp del]

text \<open>\<open>rd n\<close> stands for \<^verbatim>\<open>read(fd, _, n)\<close>: the bytes read, none at the end or on an error.
  When a piece has no newline the buffer is emptied (\<^verbatim>\<open>if(p == buf) m = 0\<close>).\<close>

partial_function (option) grep :: "u8 list \<Rightarrow> (nat \<Rightarrow> 'i \<Rightarrow> u8 list \<times> 'i) \<Rightarrow> u8 list \<Rightarrow> 'i \<Rightarrow>
    (u8 list \<times> 'i) option" where
  "grep pat rd buf inp =
     (let (bs, inp) = rd (1024 - length buf - 1) inp
      in if bs = [] then Some ([], inp)
         else
           let (out, rest, nl) = grep_lines pat (buf @ bs)
           in Option.bind (grep pat rd (if nl then rest else []) inp) (\<lambda>(out', inp). Some (out @ out', inp)))"

section \<open>What a pattern means\<close>

datatype atom = Lit u8 | Any
datatype item = One atom | Many atom

definition atom_of :: "u8 \<Rightarrow> atom" where
  "atom_of c = (if c = 46 then Any else Lit c)"

fun atom_ok :: "atom \<Rightarrow> u8 \<Rightarrow> bool" where
  "atom_ok (Lit c) t \<longleftrightarrow> t = c"
| "atom_ok Any t \<longleftrightarrow> True"

text \<open>The items of a pattern, and whether it ends in the anchor \<^verbatim>\<open>$\<close>.\<close>

fun items :: "u8 list \<Rightarrow> item list \<times> bool" where
  "items [] = ([], False)"
| "items [c] = (if c = 36 then ([], True) else ([One (atom_of c)], False))"
| "items (c # d # re) =
     (if d = 42 then let (is, e) = items re in (Many (atom_of c) # is, e)
      else let (is, e) = items (d # re) in (One (atom_of c) # is, e))"

primrec lang :: "item list \<Rightarrow> u8 list set" where
  "lang [] = {[]}"
| "lang (i # is) =
     (case i of One a \<Rightarrow> {t # ts |t ts. atom_ok a t \<and> ts \<in> lang is}
      | Many a \<Rightarrow> {us @ ts |us ts. list_all (atom_ok a) us \<and> ts \<in> lang is})"

definition starts_with :: "u8 list \<Rightarrow> u8 list \<Rightarrow> bool" where
  "starts_with re tx \<longleftrightarrow>
     (let (is, e) = items re in \<exists>us vs. tx = us @ vs \<and> us \<in> lang is \<and> (e \<longrightarrow> vs = []))"

text \<open>A pattern matches somewhere, or at the start when it begins with \<^verbatim>\<open>^\<close>.\<close>

definition matches :: "u8 list \<Rightarrow> u8 list \<Rightarrow> bool" where
  "matches re tx \<longleftrightarrow>
     (if re \<noteq> [] \<and> hd re = 94 then starts_with (tl re) tx
      else \<exists>us vs. tx = us @ vs \<and> starts_with re vs)"

section \<open>The matcher decides the meaning\<close>

text \<open>A repetition followed by \<open>P\<close>, and a list of items, by recursion on the text.\<close>

primrec star_then :: "(u8 \<Rightarrow> bool) \<Rightarrow> (u8 list \<Rightarrow> bool) \<Rightarrow> u8 list \<Rightarrow> bool" where
  "star_then A P [] \<longleftrightarrow> P []"
| "star_then A P (t # ts) \<longleftrightarrow> P (t # ts) \<or> A t \<and> star_then A P ts"

lemma ex_append_Cons:
  "(\<exists>us vs. t # ts = us @ vs \<and> Q us vs) \<longleftrightarrow> Q [] (t # ts) \<or> (\<exists>us vs. ts = us @ vs \<and> Q (t # us) vs)"
  unfolding Cons_eq_append_conv by blast

lemma star_then_iff:
  "star_then A P tx \<longleftrightarrow> (\<exists>us vs. tx = us @ vs \<and> list_all A us \<and> P vs)"
proof (induction tx)
  case Nil
  then show ?case by auto
next
  case (Cons t ts)
  then show ?case unfolding ex_append_Cons by auto
qed

primrec item_match :: "item list \<Rightarrow> bool \<Rightarrow> u8 list \<Rightarrow> bool" where
  "item_match [] e tx \<longleftrightarrow> (e \<longrightarrow> tx = [])"
| "item_match (i # is) e tx \<longleftrightarrow>
     (case i of One a \<Rightarrow> (case tx of [] \<Rightarrow> False | t # ts \<Rightarrow> atom_ok a t \<and> item_match is e ts)
      | Many a \<Rightarrow> star_then (atom_ok a) (item_match is e) tx)"

lemma item_match_lang:
  "item_match is e tx \<longleftrightarrow> (\<exists>us vs. tx = us @ vs \<and> us \<in> lang is \<and> (e \<longrightarrow> vs = []))"
proof (induction "is" arbitrary: tx)
  case Nil
  then show ?case by auto
next
  case (Cons i "is")
  show ?case
  proof (cases i)
    case (One a)
    with Cons show ?thesis by (cases tx) (simp, simp add: ex_append_Cons, blast)
  next
    case (Many a)
    with Cons show ?thesis
      by (simp add: star_then_iff) (metis append.assoc)
  qed
qed

lemma starts_with_items: "starts_with re tx \<longleftrightarrow> item_match (fst (items re)) (snd (items re)) tx"
  by (simp add: starts_with_def item_match_lang split: prod.split)

lemma starts_with_simps:
  "starts_with [] tx"
  "starts_with [c] tx \<longleftrightarrow>
     (if c = 36 then tx = [] else (case tx of [] \<Rightarrow> False | t # ts \<Rightarrow> atom_ok (atom_of c) t))"
  "starts_with (c # 42 # re) tx \<longleftrightarrow> star_then (atom_ok (atom_of c)) (starts_with re) tx"
  "d \<noteq> 42 \<Longrightarrow> starts_with (c # d # re) tx \<longleftrightarrow>
     (case tx of [] \<Rightarrow> False | t # ts \<Rightarrow> atom_ok (atom_of c) t \<and> starts_with (d # re) ts)"
  by (auto simp: starts_with_items [abs_def] split: prod.split list.split)

lemma atom_ok_of: "atom_ok (atom_of c) t \<longleftrightarrow> c = 46 \<or> c = t"
  by (auto simp: atom_of_def)

lemma matchhere_starts_with:
  "matchhere re tx \<longleftrightarrow> starts_with re tx"
  "matchstar c re tx \<longleftrightarrow> star_then (atom_ok (atom_of c)) (starts_with re) tx"
proof (induction re tx and c re tx rule: matchhere_matchstar.induct)
  case (1 re tx)
  consider "re = []" | c where "re = [c]" | c re2 where "re = c # 42 # re2"
    | c d re2 where "re = c # d # re2" "d \<noteq> 42"
    by (metis neq_Nil_conv)
  then show ?case
  proof cases
    case 3
    with "1.IH"(1) [of c "42 # re2"] show ?thesis
      by (subst matchhere.simps) (simp add: starts_with_simps)
  next
    case 4
    with "1.IH"(2) [of c "d # re2"] show ?thesis
      by (subst matchhere.simps) (auto simp: starts_with_simps atom_ok_of split: list.split)
  next
    case 2
    then show ?thesis
      by (subst matchhere.simps)
        (auto simp: starts_with_simps matchhere.simps [of "[]"] atom_ok_of split: list.split)
  qed (simp add: matchhere.simps starts_with_simps)
next
  case (2 c re tx)
  have "(t = c \<or> c = 46) = atom_ok (atom_of c) t" for t by (auto simp: atom_ok_of)
  with 2 show ?case by (cases tx; subst matchstar.simps; simp)
qed

lemma match_from_matches: "match_from re tx \<longleftrightarrow> (\<exists>us vs. tx = us @ vs \<and> starts_with re vs)"
  by (induction tx) (simp_all add: matchhere_starts_with ex_append_Cons)

lemma match_matches: "match re tx = matches re tx"
  by (simp add: match_def matches_def matchhere_starts_with match_from_matches)

text \<open>
  C23: The matcher of \<^verbatim>\<open>grep\<close> is correct: \<^verbatim>\<open>match\<close> accepts a line exactly when the pattern,
  read as a list of characters, wildcards and repetitions with optional anchors, matches some
  part of it (its start after \<^verbatim>\<open>^\<close>, up to its end before \<^verbatim>\<open>$\<close>).
\<close>

theorem match_correct: "match re tx = matches re tx"
  by (rule match_matches)

section \<open>The loop prints the matching lines\<close>

text \<open>The complete lines of an input, without their newlines, and the unfinished last one.\<close>

function lines :: "u8 list \<Rightarrow> u8 list list" where
  "lines xs = (let l = takeWhile (\<lambda>c. c \<noteq> 10) xs; r = drop (length l) xs
     in if r = [] then [] else l # lines (tl r))"
  by pat_completeness auto
termination by (relation "measure length") auto

declare lines.simps [simp del]

definition last_part :: "u8 list \<Rightarrow> u8 list" where
  "last_part xs = rev (takeWhile (\<lambda>c. c \<noteq> 10) (rev xs))"

definition print_matching :: "u8 list \<Rightarrow> u8 list list \<Rightarrow> u8 list" where
  "print_matching pat ls = concat (map (\<lambda>l. l @ [10]) (filter (match pat) ls))"

lemma takeWhile_line:
  "10 \<notin> set l \<Longrightarrow> takeWhile (\<lambda>c. c \<noteq> 10) l = l"
  "10 \<notin> set l \<Longrightarrow> takeWhile (\<lambda>c. c \<noteq> 10) (l @ 10 # xs) = l"
  "10 \<notin> set l \<Longrightarrow> 0 \<notin> set l \<Longrightarrow> takeWhile (\<lambda>c. c \<noteq> 10 \<and> c \<noteq> 0) l = l"
  "10 \<notin> set l \<Longrightarrow> 0 \<notin> set l \<Longrightarrow> takeWhile (\<lambda>c. c \<noteq> 10 \<and> c \<noteq> 0) (l @ 10 # xs) = l"
  by (induction l) simp_all

lemma lines_no_newline: "10 \<notin> set xs \<Longrightarrow> lines xs = []"
  by (subst lines.simps) (simp add: takeWhile_line)

lemma lines_newline: "10 \<notin> set l \<Longrightarrow> lines (l @ 10 # xs) = l # lines xs"
  by (subst lines.simps) (simp add: takeWhile_line)

lemma last_part_no_newline: "10 \<notin> set xs \<Longrightarrow> last_part xs = xs"
  by (simp add: last_part_def takeWhile_line)

lemma last_part_newline: "last_part (l @ 10 # xs) = last_part xs"
proof (cases "10 \<in> set xs")
  case False
  then have "takeWhile (\<lambda>c. c \<noteq> 10) (rev xs @ 10 # rev l) = rev xs"
    by (intro takeWhile_line) simp
  with False show ?thesis by (simp add: last_part_def takeWhile_line)
next
  case True
  then show ?thesis by (simp add: last_part_def takeWhile_append1 [of 10])
qed

text \<open>Inputs by their lines: induction over the newlines.\<close>

lemma newline_induct [case_names last_line line]:
  assumes "\<And>xs. 10 \<notin> set xs \<Longrightarrow> P xs" "\<And>l xs. 10 \<notin> set l \<Longrightarrow> P xs \<Longrightarrow> P (l @ (10 :: u8) # xs)"
  shows "P xs"
proof (induction xs rule: length_induct)
  case (1 xs)
  show ?case
  proof (cases "10 \<in> set xs")
    case True
    then obtain l r where "xs = l @ 10 # r" "10 \<notin> set l" by (meson split_list_first)
    with 1 show ?thesis by (auto intro: assms(2))
  qed (rule assms(1))
qed

lemma lines_append: "lines (xs @ ys) = lines xs @ lines (last_part xs @ ys)"
  by (induction xs rule: newline_induct)
    (simp_all add: lines_no_newline lines_newline last_part_no_newline last_part_newline)

lemma last_part_append: "last_part (xs @ ys) = last_part (last_part xs @ ys)"
  by (induction xs rule: newline_induct) (simp_all add: last_part_no_newline last_part_newline)

lemma last_part_props: "10 \<notin> set (last_part xs)" "set (last_part xs) \<subseteq> set xs" "length (last_part xs) \<le> length xs"
proof -
  show "10 \<notin> set (last_part xs)" by (auto simp: last_part_def dest: set_takeWhileD)
  show "set (last_part xs) \<subseteq> set xs" using set_takeWhileD by (fastforce simp: last_part_def)
  show "length (last_part xs) \<le> length xs" by (simp add: last_part_def length_takeWhile_le [of _ "rev xs", simplified])
qed

lemma grep_lines_spec:
  "0 \<notin> set xs \<Longrightarrow> grep_lines pat xs = (print_matching pat (lines xs), last_part xs, 10 \<in> set xs)"
proof (induction xs rule: newline_induct)
  case (last_line xs)
  then show ?case
    by (subst grep_lines.simps)
      (simp add: takeWhile_line lines_no_newline last_part_no_newline print_matching_def)
next
  case (line l xs)
  then show ?case
    by (subst grep_lines.simps)
      (simp add: takeWhile_line lines_newline last_part_newline print_matching_def)
qed

text \<open>\<^verbatim>\<open>read\<close> on an input that arrives in pieces.\<close>

fun read_pieces :: "nat \<Rightarrow> u8 list list \<Rightarrow> u8 list \<times> u8 list list" where
  "read_pieces n [] = ([], [])"
| "read_pieces n (c # cs) = (if length c \<le> n then (c, cs) else (take n c, drop n c # cs))"

lemma grep_spec:
  assumes "\<forall>c \<in> set cs. 10 \<in> set c \<and> 0 \<notin> set c \<and> length c \<le> 500"
    and "10 \<notin> set buf" "0 \<notin> set buf" "length buf \<le> 500"
  shows "grep pat read_pieces buf cs = Some (print_matching pat (lines (buf @ concat cs)), [])"
  using assms
proof (induction cs arbitrary: buf)
  case Nil
  then show ?case by (subst grep.simps) (simp add: lines_no_newline print_matching_def)
next
  case (Cons c cs)
  have c: "10 \<in> set c" "0 \<notin> set c" "length c \<le> 500" using Cons.prems(1) by simp_all
  from c(1) obtain l r where lr: "c = l @ 10 # r" by (meson split_list_first)
  have part: "last_part (buf @ c) = last_part r"
    using Cons.prems(2) last_part_newline [of "buf @ l" r] by (simp add: lr)
  have "grep pat read_pieces (last_part r) cs = Some (print_matching pat (lines (last_part r @ concat cs)), [])"
    using Cons.prems c last_part_props [of r] by (intro Cons.IH) (auto simp: lr)
  moreover have "lines (buf @ concat (c # cs)) = lines (buf @ c) @ lines (last_part r @ concat cs)"
    using lines_append [of "buf @ c" "concat cs"] by (simp add: part)
  moreover have "c \<noteq> []" "length c \<le> 1024 - length buf - 1" using c Cons.prems(4) by auto
  ultimately show ?case
    using c Cons.prems(3) by (subst grep.simps) (simp add: grep_lines_spec part print_matching_def)
qed



text \<open>A line that arrives in two pieces is lost: the first piece has no newline, so the
  buffer is emptied.\<close>

lemma grep_loses_split_line:
  "grep [97] read_pieces [] [[97, 98], [99, 10]] = Some ([], []) \<and> match [97] [97, 98, 99]"
proof -
  have "\<not> matchhere [97] [99]" "\<not> matchhere [97] []" "matchhere [97] [97, 98, 99]"
    by (simp_all add: matchhere.simps)
  then show ?thesis
    by (subst grep.simps, subst grep_lines.simps) (subst grep.simps, subst grep_lines.simps,
      subst grep_lines.simps, subst grep.simps, simp add: match_def)
qed

end
