(* ===== verification/Kbd.thy ===== *)
theory Kbd
  imports Kstring
begin

text \<open>
  The keyboard driver (\<^verbatim>\<open>kbd.c\<close>, \<^verbatim>\<open>kbd.h\<close>): the tables of key codes and \<^verbatim>\<open>kbdgetc\<close>, a state
  machine over the scan codes whose state is the set of modifiers held down or locked.
\<close>

section \<open>Tables\<close>

definition SHIFT :: u32 where
  "SHIFT = 1"

definition CTL :: u32 where
  "CTL = 2"

definition ALT :: u32 where
  "ALT = 4"

definition CAPSLOCK :: u32 where
  "CAPSLOCK = 8"

definition NUMLOCK :: u32 where
  "NUMLOCK = 16"

definition SCROLLLOCK :: u32 where
  "SCROLLLOCK = 32"

definition E0ESC :: u32 where
  "E0ESC = 64"

definition Ctl :: "char \<Rightarrow> u8" where
  "Ctl x = of_char x - 64"

definition shiftcode :: "nat \<Rightarrow> u8" where
  "shiftcode = (\<lambda>_. 0)(0x1D := ucast CTL, 0x2A := ucast SHIFT, 0x36 := ucast SHIFT, 0x38 := ucast ALT,
     0x9D := ucast CTL, 0xB8 := ucast ALT)"

definition togglecode :: "nat \<Rightarrow> u8" where
  "togglecode = (\<lambda>_. 0)(0x3A := ucast CAPSLOCK, 0x45 := ucast NUMLOCK, 0x46 := ucast SCROLLLOCK)"

text \<open>The codes \<^verbatim>\<open>KEY_HOME\<close> to \<^verbatim>\<open>KEY_DEL\<close> of the keys behind the escape byte, the same in all
  three maps.\<close>

definition special :: "(nat \<Rightarrow> u8) \<Rightarrow> nat \<Rightarrow> u8" where
  "special f = f(0xC8 := 0xE2, 0xD0 := 0xE3, 0xC9 := 0xE6, 0xD1 := 0xE7, 0xCB := 0xE4, 0xCD := 0xE5,
     0x97 := 0xE0, 0xCF := 0xE1, 0xD2 := 0xE8, 0xD3 := 0xE9)"

definition rows :: "u8 list \<Rightarrow> nat \<Rightarrow> u8" where
  "rows xs k = (if k < length xs then xs ! k else 0)"

definition normal_rows :: "u8 list" where
  "normal_rows =
     [0, 0x1B] @ bytes ''123456'' @ bytes ''7890-='' @ [8, 9] @
     bytes ''qwertyui'' @ bytes ''op[]'' @ [10, 0] @ bytes ''as'' @
     bytes ''dfghjkl;'' @ [39] @ bytes ''`'' @ [0, 92] @ bytes ''zxcv'' @
     bytes ''bnm,./'' @ [0] @ bytes ''*'' @ [0] @ bytes '' '' @ [0, 0, 0, 0, 0, 0] @
     [0, 0, 0, 0, 0, 0, 0] @ bytes ''7'' @ bytes ''89-456+1'' @ bytes ''230.'' @ [0, 0, 0, 0]"

definition normalmap :: "nat \<Rightarrow> u8" where
  "normalmap = special ((rows normal_rows)(0x9C := 10, 0xB5 := of_char (CHR ''/'')))"

definition shift_rows :: "u8 list" where
  "shift_rows =
     [0, 27] @ bytes ''!@#$%^'' @ bytes ''&*()_+'' @ [8, 9] @
     bytes ''QWERTYUI'' @ bytes ''OP{}'' @ [10, 0] @ bytes ''AS'' @
     bytes ''DFGHJKL:'' @ [34] @ bytes ''~'' @ [0] @ bytes ''|ZXCV'' @
     bytes ''BNM<>?'' @ [0] @ bytes ''*'' @ [0] @ bytes '' '' @ [0, 0, 0, 0, 0, 0] @
     [0, 0, 0, 0, 0, 0, 0] @ bytes ''7'' @ bytes ''89-456+1'' @ bytes ''230.'' @ [0, 0, 0, 0]"

definition shiftmap :: "nat \<Rightarrow> u8" where
  "shiftmap = special ((rows shift_rows)(0x9C := 10, 0xB5 := of_char (CHR ''/'')))"

definition ctlmap :: "nat \<Rightarrow> u8" where
  "ctlmap = special ((rows (
     replicate 16 0 @ map Ctl ''QWERTYUI'' @ map Ctl ''OP'' @ [0, 0, 13, 0] @ map Ctl ''AS'' @
     map Ctl ''DFGHJKL'' @ [0] @ [0, 0, 0] @ [92 - 64] @ map Ctl ''ZXCV'' @ map Ctl ''BNM'' @ [0, 0] @ map Ctl ''/'' @ [0, 0]))
       (0x9C := 13, 0xB5 := Ctl (CHR ''/'')))"

definition charcode :: "u32 \<Rightarrow> nat \<Rightarrow> u8" where
  "charcode k = (if k = 0 then normalmap else if k = 1 then shiftmap else ctlmap)"

section \<open>The driver\<close>

text \<open>\<open>inp\<close> is what the controller has: nothing, or a byte. The static variable \<^verbatim>\<open>shift\<close> is
  passed through.\<close>

definition kbdgetc :: "u8 option \<Rightarrow> u32 \<Rightarrow> i32 \<times> u32" where
  "kbdgetc inp shift =
     (case inp of
        None \<Rightarrow> (- 1, shift)
      | Some b \<Rightarrow>
        let d = ucast b :: u32 in
        if d = 0xE0 then (0, shift OR E0ESC)
        else if d AND 0x80 \<noteq> 0 then
          let d = (if shift AND E0ESC \<noteq> 0 then d else d AND 0x7F)
          in (0, shift AND NOT (ucast (shiftcode (unat d)) OR E0ESC))
        else
          let (d, shift) = (if shift AND E0ESC \<noteq> 0 then (d OR 0x80, shift AND NOT E0ESC) else (d, shift));
              shift = shift OR ucast (shiftcode (unat d));
              shift = shift XOR ucast (togglecode (unat d));
              c = ucast (charcode (shift AND (CTL OR SHIFT)) (unat d)) :: u32
          in if shift AND CAPSLOCK \<noteq> 0 then
               (if 97 \<le> c \<and> c \<le> 122 then (c - 32, shift)
                else if 65 \<le> c \<and> c \<le> 90 then (c + 32, shift) else (c, shift))
             else (c, shift))"

section \<open>Caps lock\<close>

definition is_lower :: "u8 \<Rightarrow> bool" where
  "is_lower c \<longleftrightarrow> 97 \<le> c \<and> c \<le> 122"

definition is_upper :: "u8 \<Rightarrow> bool" where
  "is_upper c \<longleftrightarrow> 65 \<le> c \<and> c \<le> 90"

lemma maps_below_128:
  assumes "k < 128"
  shows "normalmap k = rows normal_rows k" "shiftmap k = rows shift_rows k"
  using assms by (simp_all add: normalmap_def shiftmap_def special_def)

text \<open>The plain code \<open>a\<close> and the shifted code \<open>b\<close> of a key agree on whether it is a letter.\<close>

definition key_pair :: "u8 \<Rightarrow> u8 \<Rightarrow> bool" where
  "key_pair a b \<longleftrightarrow> (is_lower a \<longrightarrow> b = a - 32) \<and> \<not> is_upper a \<and> (is_upper b \<longrightarrow> a = b + 32) \<and> \<not> is_lower b"

lemma rows_agree: "list_all2 key_pair normal_rows shift_rows"
  by (simp only: normal_rows_def shift_rows_def bytes_def list.map append_Cons append_Nil)
    (simp add: key_pair_def is_lower_def is_upper_def)

lemma letter_keys:
  assumes "k < 128"
  shows "is_lower (normalmap k) \<Longrightarrow> shiftmap k = normalmap k - 32" "\<not> is_upper (normalmap k)"
    "is_upper (shiftmap k) \<Longrightarrow> normalmap k = shiftmap k + 32" "\<not> is_lower (shiftmap k)"
proof -
  have len: "length shift_rows = length normal_rows" using rows_agree by (simp add: list_all2_lengthD)
  have "key_pair 0 0" by (simp add: key_pair_def is_lower_def is_upper_def)
  then have "key_pair (normalmap k) (shiftmap k)"
    using len rows_agree by (simp add: maps_below_128 [OF assms] rows_def list_all2_nthD)
  then show "is_lower (normalmap k) \<Longrightarrow> shiftmap k = normalmap k - 32" "\<not> is_upper (normalmap k)"
    "is_upper (shiftmap k) \<Longrightarrow> normalmap k = shiftmap k + 32" "\<not> is_lower (shiftmap k)"
    unfolding key_pair_def by blast+
qed

text \<open>C14: caps lock exchanges the two cases of the letters and leaves every other key alone: with
  caps lock on, a key gives what the shift key would give if it is a letter, and its plain code
  otherwise; together with the shift key the roles are reversed. The modifiers stay as they are.\<close>

theorem kbd_caps_lock:
  assumes "b < 128" "shiftcode (unat b) = 0" "togglecode (unat b) = 0"
  shows "kbdgetc (Some b) CAPSLOCK =
      (ucast (if is_lower (normalmap (unat b)) then shiftmap (unat b) else normalmap (unat b)), CAPSLOCK) \<and>
    kbdgetc (Some b) (CAPSLOCK OR SHIFT) =
      (ucast (if is_upper (shiftmap (unat b)) then normalmap (unat b) else shiftmap (unat b)), CAPSLOCK OR SHIFT)"
proof -
  define k where "k = unat b"
  have k: "k < 128" using assms(1) by (simp add: k_def word_less_nat_alt)
  have d: "unat (ucast b :: u32) = k" by (simp add: k_def)
  have n: "(ucast b :: u32) \<noteq> 0xE0" 
  proof
    assume "(ucast b :: u32) = 0xE0"
    then have "unat (ucast b :: u32) = unat (0xE0 :: u32)" by (simp only:)
    with d k show False by simp
  qed
  have "\<not> bit (ucast b :: u32) 7"
  proof -
    have "b div 128 = 0" using assms(1) by (simp add: div_word_less)
    then have "\<not> bit b 7" by (simp add: bit_iff_odd)
    then show ?thesis by (simp add: bit_simps)
  qed
  then have hi: "(ucast b :: u32) AND 0x80 = 0"
    using and_exp_eq_0_iff_not_bit [of "ucast b :: u32" 7] by simp
  have lo: "97 \<le> (ucast x :: u32) \<longleftrightarrow> 97 \<le> x" "(ucast x :: u32) \<le> 122 \<longleftrightarrow> x \<le> 122"
     "65 \<le> (ucast x :: u32) \<longleftrightarrow> 65 \<le> x" "(ucast x :: u32) \<le> 90 \<longleftrightarrow> x \<le> 90" for x :: u8
    by (simp_all add: word_le_nat_alt)
  have sub: "(ucast x :: u32) - 32 = ucast (x - 32)" if "is_lower x" for x :: u8
    using that by (simp add: word_unat_eq_iff unat_sub is_lower_def word_le_nat_alt)
  have add: "(ucast x :: u32) + 32 = ucast (x + 32)" if "is_upper x" for x :: u8
    using that by (simp add: word_unat_eq_iff unat_word_ariths is_upper_def word_le_nat_alt)
  note eval = kbdgetc_def Let_def d k_def [symmetric] lo charcode_def CAPSLOCK_def E0ESC_def SHIFT_def CTL_def
    is_lower_def [symmetric] is_upper_def [symmetric]
  have e1: "kbdgetc (Some b) CAPSLOCK = (if is_lower (normalmap k) then ucast (normalmap k) - 32
      else if is_upper (normalmap k) then ucast (normalmap k) + 32 else ucast (normalmap k), CAPSLOCK)"
    using n hi assms(2,3) by (simp add: eval)
  have e2: "kbdgetc (Some b) (CAPSLOCK OR SHIFT) = (if is_lower (shiftmap k) then ucast (shiftmap k) - 32
      else if is_upper (shiftmap k) then ucast (shiftmap k) + 32 else ucast (shiftmap k), CAPSLOCK OR SHIFT)"
    using n hi assms(2,3) by (simp add: eval)
  show ?thesis
    unfolding e1 e2 k_def [symmetric]
  proof (rule conjI)
    show "(if is_lower (normalmap k) then ucast (normalmap k) - 32
      else if is_upper (normalmap k) then ucast (normalmap k) + 32 else ucast (normalmap k), CAPSLOCK) =
      ((ucast (if is_lower (normalmap k) then shiftmap k else normalmap k) :: u32), CAPSLOCK)"
      using letter_keys(2) [OF k] by (simp add: sub letter_keys(1) [OF k])
    show "(if is_lower (shiftmap k) then ucast (shiftmap k) - 32
      else if is_upper (shiftmap k) then ucast (shiftmap k) + 32 else ucast (shiftmap k), CAPSLOCK OR SHIFT) =
      ((ucast (if is_upper (shiftmap k) then normalmap k else shiftmap k) :: u32), CAPSLOCK OR SHIFT)"
      using letter_keys(4) [OF k] by (simp add: add letter_keys(3) [OF k])
  qed
qed

theorem kbd_caps_lock_witness:
  "kbdgetc (Some 0x1E) CAPSLOCK = (65, CAPSLOCK) \<and> kbdgetc (Some 0x02) CAPSLOCK = (49, CAPSLOCK)"
proof -
  have "shiftcode 30 = 0" "togglecode 30 = 0" "shiftcode 2 = 0" "togglecode 2 = 0"
    by (simp_all add: shiftcode_def togglecode_def)
  moreover have "normalmap 30 = 97" "shiftmap 30 = 65" "normalmap 2 = 49"
    by (simp_all add: maps_below_128 rows_def normal_rows_def shift_rows_def bytes_def)
  ultimately show ?thesis
    using kbd_caps_lock [of "0x1E"] kbd_caps_lock [of "0x02"] by (simp add: is_lower_def is_upper_def)
qed

end
