(* ===== verification/Spinlock.thy ===== *)
theory Spinlock
  imports Kstring
begin

text \<open>
  Spin locks (\<^verbatim>\<open>spinlock.c\<close>): \<^verbatim>\<open>pushcli\<close> and \<^verbatim>\<open>popcli\<close> on a processor's interrupt flag and
  nesting counter, \<^verbatim>\<open>holding\<close>, \<^verbatim>\<open>acquire\<close>, \<^verbatim>\<open>release\<close> and the stack walk of
  \<^verbatim>\<open>getcallerpcs\<close>. The second half lets any number of processors interleave the single steps
  of these routines on any number of locks and shows that a lock has one owner at a time,
  that an owner runs with interrupts off, and that the panics of the routines are not reached
  by a processor that takes a lock it does not hold and releases one it does.
\<close>

section \<open>Interrupt flag and nesting\<close>

record cpu =
  eflags :: u32
  ncli :: i32
  intena :: i32

definition FL_IF :: u32 where
  "FL_IF = 0x200"

definition cli :: "cpu \<Rightarrow> cpu" where
  "cli c = c\<lparr>eflags := eflags c AND NOT FL_IF\<rparr>"

definition sti :: "cpu \<Rightarrow> cpu" where
  "sti c = c\<lparr>eflags := eflags c OR FL_IF\<rparr>"

definition pushcli :: "cpu \<Rightarrow> cpu" where
  "pushcli c =
     (let fl = eflags c;
          c = cli c;
          c = (if ncli c = 0 then c\<lparr>intena := fl AND FL_IF\<rparr> else c)
      in c\<lparr>ncli := ncli c + 1\<rparr>)"

definition popcli :: "cpu \<Rightarrow> (unit, cpu) outcome" where
  "popcli c =
     (if eflags c AND FL_IF \<noteq> 0 then Panic ''popcli - interruptible''
      else let c = c\<lparr>ncli := ncli c - 1\<rparr> in
        if ncli c <s 0 then Panic ''popcli''
        else if ncli c = 0 \<and> intena c \<noteq> 0 then Ok () (sti c) else Ok () c)"

section \<open>Locks\<close>

text \<open>\<^verbatim>\<open>lk->cpu\<close> is the number of the processor that holds the lock, or \<open>None\<close> for the null
  pointer.\<close>

record spinlock =
  locked :: u32
  lkname :: string
  lkcpu :: "nat option"
  pcs :: "u32 list"

definition initlock :: "spinlock \<Rightarrow> string \<Rightarrow> spinlock" where
  "initlock lk name = lk\<lparr>lkname := name, locked := 0, lkcpu := None\<rparr>"

text \<open>The first loop of \<^verbatim>\<open>getcallerpcs\<close> follows the saved frame pointers, at most ten, and
  the second pads the array with zeros.\<close>

primrec callerpcs :: "memory \<Rightarrow> u32 \<Rightarrow> nat \<Rightarrow> u32 list" where
  "callerpcs m ebp 0 = []"
| "callerpcs m ebp (Suc n) =
     (if ebp = 0 \<or> ebp < 0x80000000 \<or> ebp = 0xFFFFFFFF then []
      else load32 m (ebp + 4) # callerpcs m (load32 m ebp) n)"

definition getcallerpcs :: "memory \<Rightarrow> u32 \<Rightarrow> u32 list" where
  "getcallerpcs m v = (let ps = callerpcs m (v - 8) 10 in ps @ replicate (10 - length ps) 0)"

definition holding :: "nat \<Rightarrow> spinlock \<Rightarrow> cpu \<Rightarrow> (bool, cpu) outcome" where
  "holding i lk c =
     (let c = pushcli c; r = (locked lk \<noteq> 0 \<and> lkcpu lk = Some i)
      in bindO (popcli c) (\<lambda>_ c. Ok r c))"

definition xchg :: "u32 \<Rightarrow> u32 \<Rightarrow> u32 \<times> u32" where
  "xchg old v = (old, v)"

text \<open>The steps of \<^verbatim>\<open>acquire\<close>: up to the spin loop, one turn of the loop (the atomic
  exchange, \<open>None\<close> when the lock was taken), and the record of the holder.\<close>

definition acquire_check :: "nat \<Rightarrow> spinlock \<Rightarrow> cpu \<Rightarrow> (unit, cpu) outcome" where
  "acquire_check i lk c =
     bindO (holding i lk (pushcli c)) (\<lambda>h c. if h then Panic ''acquire'' else Ok () c)"

definition acquire_try :: "spinlock \<Rightarrow> spinlock option" where
  "acquire_try lk = (case xchg (locked lk) 1 of (old, v) \<Rightarrow>
     if old = 0 then Some (lk\<lparr>locked := v\<rparr>) else None)"

definition acquire_record :: "u32 list \<Rightarrow> nat \<Rightarrow> spinlock \<Rightarrow> spinlock" where
  "acquire_record ps i lk = lk\<lparr>lkcpu := Some i, pcs := ps\<rparr>"

text \<open>The whole routine when no other processor moves: on a taken lock it spins for ever.\<close>

definition acquire :: "u32 list \<Rightarrow> nat \<Rightarrow> spinlock \<Rightarrow> cpu \<Rightarrow> (spinlock, cpu) outcome" where
  "acquire ps i lk c =
     bindO (acquire_check i lk c) (\<lambda>_ c. case acquire_try lk of
       None \<Rightarrow> Diverge | Some lk \<Rightarrow> Ok (acquire_record ps i lk) c)"

definition release_check :: "nat \<Rightarrow> spinlock \<Rightarrow> cpu \<Rightarrow> (spinlock, cpu) outcome" where
  "release_check i lk c =
     bindO (holding i lk c) (\<lambda>h c. if \<not> h then Panic ''release''
       else Ok (lk\<lparr>pcs := (pcs lk)[0 := 0], lkcpu := None\<rparr>) c)"

definition release_store :: "spinlock \<Rightarrow> spinlock" where
  "release_store lk = lk\<lparr>locked := 0\<rparr>"

definition release :: "nat \<Rightarrow> spinlock \<Rightarrow> cpu \<Rightarrow> (spinlock, cpu) outcome" where
  "release i lk c =
     bindO (release_check i lk c) (\<lambda>lk c. bindO (popcli c) (\<lambda>_ c. Ok (release_store lk) c))"

section \<open>One processor\<close>

definition interruptible :: "cpu \<Rightarrow> bool" where
  "interruptible c \<longleftrightarrow> eflags c AND FL_IF \<noteq> 0"

text \<open>The nesting counter of a processor is its number of open \<^verbatim>\<open>pushcli\<close>, and interrupts
  are off while it is positive.\<close>

definition cpu_ok :: "nat \<Rightarrow> cpu \<Rightarrow> bool" where
  "cpu_ok n c \<longleftrightarrow> unat (ncli c) = n \<and> n < 2147483646 \<and> (0 < n \<longrightarrow> \<not> interruptible c)"

lemma FL_IF_off: "(x AND NOT FL_IF) AND FL_IF = 0" "\<not> interruptible (cli c)"
  by (simp_all add: interruptible_def cli_def and.assoc)

lemma pushcli_ok:
  assumes "cpu_ok n c" "n < 2147483645"
  shows "cpu_ok (Suc n) (pushcli c)" "\<not> interruptible (pushcli c)"
proof -
  have "unat (ncli c + 1) = Suc n"
    using assms by (subst unat_add_lt) (auto simp: cpu_ok_def)
  moreover show "\<not> interruptible (pushcli c)"
    by (simp add: interruptible_def pushcli_def cli_def Let_def and.assoc)
  ultimately show "cpu_ok (Suc n) (pushcli c)"
    using assms by (auto simp: cpu_ok_def pushcli_def cli_def Let_def)
qed

lemma popcli_ok:
  assumes "cpu_ok (Suc n) c"
  shows "popcli c = Ok () (if n = 0 \<and> intena c \<noteq> 0 then sti (c\<lparr>ncli := 0\<rparr>) else c\<lparr>ncli := of_nat n\<rparr>)"
    "cpu_ok n (if n = 0 \<and> intena c \<noteq> 0 then sti (c\<lparr>ncli := 0\<rparr>) else c\<lparr>ncli := of_nat n\<rparr>)"
proof -
  have u: "unat (ncli c) = Suc n" and small: "n < 2147483646" and off: "\<not> interruptible c"
    using assms by (auto simp: cpu_ok_def)
  have m: "ncli c - 1 = of_nat n"
  proof -
    have "ncli c = of_nat (unat (ncli c))" by simp
    also have "\<dots> = of_nat n + 1" by (simp add: u)
    finally show ?thesis by simp
  qed
  have z: "(of_nat n :: i32) = 0 \<longleftrightarrow> n = 0" and un: "unat (of_nat n :: i32) = n"
    using small by (simp_all add: u32_eq_iff_unat unat_of_nat)
  show "popcli c = Ok () (if n = 0 \<and> intena c \<noteq> 0 then sti (c\<lparr>ncli := 0\<rparr>) else c\<lparr>ncli := of_nat n\<rparr>)"
    using off small z un
    by (auto simp: popcli_def interruptible_def m Let_def i32_neg_iff)
  show "cpu_ok n (if n = 0 \<and> intena c \<noteq> 0 then sti (c\<lparr>ncli := 0\<rparr>) else c\<lparr>ncli := of_nat n\<rparr>)"
    using small off un by (auto simp: cpu_ok_def sti_def interruptible_def)
qed

lemma holding_ok:
  assumes "cpu_ok n c" "n < 2147483645" "locked lk \<noteq> 0 \<and> lkcpu lk = Some i \<longleftrightarrow> h"
  obtains c' where "holding i lk c = Ok h c'" "cpu_ok n c'"
  using popcli_ok [OF pushcli_ok(1) [OF assms(1,2)]] that assms(3) by (simp add: holding_def Let_def)

section \<open>Interleaved processors\<close>

text \<open>
  Where a processor stands: outside the routines; spinning in \<^verbatim>\<open>acquire\<close>; past the exchange
  but before the holder is recorded; in \<^verbatim>\<open>release\<close>, with the record cleared but the lock
  word still set.
\<close>

datatype phase = Run | Spin nat | Taken nat | Leave nat

record machine =
  cpus :: "nat \<Rightarrow> cpu"
  lks :: "nat \<Rightarrow> spinlock"
  phase :: "nat \<Rightarrow> phase"

inductive lock_step :: "nat \<Rightarrow> machine \<Rightarrow> machine \<Rightarrow> bool" for N where
  start: "phase s i = Run \<Longrightarrow> l < N \<Longrightarrow> acquire_check i (lks s l) (cpus s i) = Ok u c \<Longrightarrow>
    lock_step N s (s\<lparr>cpus := (cpus s)(i := c), phase := (phase s)(i := Spin l)\<rparr>)"
| exchange: "phase s i = Spin l \<Longrightarrow> acquire_try (lks s l) = Some lk \<Longrightarrow>
    lock_step N s (s\<lparr>lks := (lks s)(l := lk), phase := (phase s)(i := Taken l)\<rparr>)"
| spin: "phase s i = Spin l \<Longrightarrow> acquire_try (lks s l) = None \<Longrightarrow> lock_step N s s"
| mark: "phase s i = Taken l \<Longrightarrow>
    lock_step N s (s\<lparr>lks := (lks s)(l := acquire_record ps i (lks s l)), phase := (phase s)(i := Run)\<rparr>)"
| leave: "phase s i = Run \<Longrightarrow> l < N \<Longrightarrow> release_check i (lks s l) (cpus s i) = Ok lk c \<Longrightarrow>
    lock_step N s (s\<lparr>lks := (lks s)(l := lk), cpus := (cpus s)(i := c), phase := (phase s)(i := Leave l)\<rparr>)"
| store: "phase s i = Leave l \<Longrightarrow> popcli (cpus s i) = Ok u c \<Longrightarrow>
    lock_step N s (s\<lparr>lks := (lks s)(l := release_store (lks s l)), cpus := (cpus s)(i := c), phase := (phase s)(i := Run)\<rparr>)"
| flag: "phase s i = Run \<Longrightarrow> ncli (cpus s i) = 0 \<Longrightarrow>
    lock_step N s (s\<lparr>cpus := (cpus s)(i := (cpus s i)\<lparr>eflags := e\<rparr>)\<rparr>)"

inductive lock_reach :: "nat \<Rightarrow> machine \<Rightarrow> bool" for N where
  init: "\<forall>l. locked (lks s l) = 0 \<and> lkcpu (lks s l) = None \<Longrightarrow> \<forall>i. phase s i = Run \<and> ncli (cpus s i) = 0 \<Longrightarrow>
    lock_reach N s"
| step: "lock_reach N s \<Longrightarrow> lock_step N s t \<Longrightarrow> lock_reach N t"

definition held :: "machine \<Rightarrow> nat \<Rightarrow> nat set" where
  "held s i = {l. lkcpu (lks s l) = Some i}"

definition owner :: "machine \<Rightarrow> nat \<Rightarrow> nat \<Rightarrow> bool" where
  "owner s l i \<longleftrightarrow> lkcpu (lks s l) = Some i \<or> phase s i = Taken l \<or> phase s i = Leave l"

definition nesting :: "machine \<Rightarrow> nat \<Rightarrow> nat" where
  "nesting s i = card (held s i) + (if phase s i = Run then 0 else 1)"

definition lock_inv :: "nat \<Rightarrow> machine \<Rightarrow> bool" where
  "lock_inv N s \<longleftrightarrow>
     (\<forall>l. locked (lks s l) = (if \<exists>i. owner s l i then 1 else 0)) \<and>
     (\<forall>l i j. owner s l i \<longrightarrow> owner s l j \<longrightarrow> i = j) \<and>
     (\<forall>l i. phase s i = Taken l \<or> phase s i = Leave l \<longrightarrow> lkcpu (lks s l) = None) \<and>
     (\<forall>l i. phase s i \<in> {Spin l, Taken l, Leave l} \<longrightarrow> l < N) \<and>
     (\<forall>i. held s i \<subseteq> {..<N} \<and> cpu_ok (nesting s i) (cpus s i))"

lemma lock_invD:
  assumes "lock_inv N s"
  shows "locked (lks s l) = (if \<exists>i. owner s l i then 1 else 0)"
    and "owner s l i \<Longrightarrow> owner s l j \<Longrightarrow> i = j"
    and "phase s i = Taken l \<or> phase s i = Leave l \<Longrightarrow> lkcpu (lks s l) = None"
    and "phase s i \<in> {Spin l, Taken l, Leave l} \<Longrightarrow> l < N"
    and "held s i \<subseteq> {..<N}" "cpu_ok (nesting s i) (cpus s i)"
  using assms unfolding lock_inv_def by blast+

text \<open>A processor never nests deeper than the number of locks, so its counter cannot
  overflow when the locks are fewer than \<open>2\<^sup>3\<^sup>1 - 4\<close>.\<close>

lemma nesting_bound:
  assumes "lock_inv N s"
  shows "finite (held s i)" "nesting s i \<le> Suc N" "phase s i = Run \<Longrightarrow> nesting s i \<le> N"
  using finite_subset [OF lock_invD(5) [OF assms]] card_mono [OF _ lock_invD(5) [OF assms], of i]
  by (auto simp: nesting_def)

lemma lock_inv_init:
  assumes "\<forall>l. locked (lks s l) = 0 \<and> lkcpu (lks s l) = None" "\<forall>i. phase s i = Run \<and> ncli (cpus s i) = 0"
  shows "lock_inv N s"
  using assms by (simp add: lock_inv_def owner_def held_def nesting_def cpu_ok_def)

lemma holder_owner:
  assumes "lock_inv N s" "phase s i = Run"
  shows "locked (lks s l) \<noteq> 0 \<and> lkcpu (lks s l) = Some i \<longleftrightarrow> owner s l i"
  using lock_invD(1) [OF assms(1), of l] assms(2) by (auto simp: owner_def)

lemma acquire_check_inv:
  assumes "lock_inv N s" "N < 2147483640" "phase s i = Run"
  shows "if owner s l i then acquire_check i (lks s l) (cpus s i) = Panic ''acquire''
    else \<exists>c. acquire_check i (lks s l) (cpus s i) = Ok () c \<and> cpu_ok (Suc (nesting s i)) c"
proof -
  have n: "nesting s i < 2147483643" using nesting_bound(3) [OF assms(1,3)] assms(2) by simp
  have c: "cpu_ok (Suc (nesting s i)) (pushcli (cpus s i))"
    using lock_invD(6) [OF assms(1)] n by (intro pushcli_ok) simp_all
  have "Suc (nesting s i) < 2147483645" using n by simp
  then obtain c where "holding i (lks s l) (pushcli (cpus s i)) = Ok (owner s l i) c"
      "cpu_ok (Suc (nesting s i)) c"
    by (rule holding_ok [OF c _ holder_owner [OF assms(1,3)]])
  then show ?thesis by (simp add: acquire_check_def)
qed

lemma release_check_inv:
  assumes "lock_inv N s" "N < 2147483640" "phase s i = Run"
  shows "if owner s l i
    then \<exists>c. release_check i (lks s l) (cpus s i) =
      Ok ((lks s l)\<lparr>pcs := (pcs (lks s l))[0 := 0], lkcpu := None\<rparr>) c \<and> cpu_ok (nesting s i) c
    else release_check i (lks s l) (cpus s i) = Panic ''release''"
proof -
  have n: "nesting s i < 2147483645" using nesting_bound(3) [OF assms(1,3)] assms(2) by simp
  then obtain c where "holding i (lks s l) (cpus s i) = Ok (owner s l i) c" "cpu_ok (nesting s i) c"
    by (rule holding_ok [OF lock_invD(6) [OF assms(1)] _ holder_owner [OF assms(1,3)]])
  then show ?thesis by (simp add: release_check_def)
qed

lemma popcli_inv:
  assumes "lock_inv N s" "phase s i \<noteq> Run"
  shows "\<exists>c. popcli (cpus s i) = Ok () c \<and> cpu_ok (card (held s i)) c"
  using popcli_ok [of "card (held s i)" "cpus s i"] lock_invD(6) [OF assms(1), of i] assms(2)
  by (simp add: nesting_def)

lemma lock_invI:
  assumes "\<And>l. locked (lks s l) = (if \<exists>i. owner s l i then 1 else 0)"
    and "\<And>l i j. owner s l i \<Longrightarrow> owner s l j \<Longrightarrow> i = j"
    and "\<And>l i. phase s i = Taken l \<or> phase s i = Leave l \<Longrightarrow> lkcpu (lks s l) = None"
    and "\<And>l i. phase s i \<in> {Spin l, Taken l, Leave l} \<Longrightarrow> l < N"
    and "\<And>i. held s i \<subseteq> {..<N}" "\<And>i. cpu_ok (nesting s i) (cpus s i)"
  shows "lock_inv N s"
  using assms unfolding lock_inv_def by blast

text \<open>A step that moves no ownership only has to keep the processors' counters.\<close>

lemma lock_inv_same_owner:
  assumes "lock_inv N s" "\<And>l i. owner t l i = owner s l i" "\<And>l. locked (lks t l) = locked (lks s l)"
    and "\<And>l i. phase t i = Taken l \<or> phase t i = Leave l \<Longrightarrow> lkcpu (lks t l) = None"
    and "\<And>l i. phase t i \<in> {Spin l, Taken l, Leave l} \<Longrightarrow> l < N"
    and "\<And>i. held t i \<subseteq> {..<N}" "\<And>i. cpu_ok (nesting t i) (cpus t i)"
  shows "lock_inv N t"
  using assms lock_invD(1,2) [OF assms(1)] by (intro lock_invI) (auto simp: assms(2,3))

lemma lock_inv_step:
  assumes "lock_step N s t" "lock_inv N s" "N < 2147483640"
  shows "lock_inv N t"
  using assms(1)
proof cases
  case (start i l u c)
  have "cpu_ok (Suc (nesting s i)) c"
    using acquire_check_inv [OF assms(2,3) start(2), of l] start(4) by (auto split: if_splits)
  then show ?thesis
    using lock_invD(3-6) [OF assms(2)] start(2,3) unfolding start(1)
    by (intro lock_inv_same_owner [OF assms(2)])
      (auto simp: owner_def held_def nesting_def split: if_splits)
next
  case (exchange i l lk)
  then have free: "\<not> owner s l j" for j
    using lock_invD(1) [OF assms(2), of l] by (auto simp: acquire_try_def xchg_def split: if_splits)
  have lk: "lk = (lks s l)\<lparr>locked := 1\<rparr>"
    using exchange(3) by (auto simp: acquire_try_def xchg_def split: if_splits)
  have own: "owner t k j \<longleftrightarrow> (if k = l then j = i else owner s k j)" for k j
    using free exchange(2) unfolding exchange(1) lk by (auto simp: owner_def)
  have sel: "lks t = (lks s)(l := (lks s l)\<lparr>locked := 1\<rparr>)" "phase t = (phase s)(i := Taken l)" "cpus t = cpus s"
    by (simp_all add: exchange(1) lk)
  have none: "lkcpu (lks s l) = None" using free by (cases "lkcpu (lks s l)") (auto simp: owner_def)
  have held: "held t j = held s j" for j
    by (auto simp: held_def sel)
  have nest: "nesting t j = nesting s j" for j
    using exchange(2) by (simp add: nesting_def held sel)
  show ?thesis
  proof (rule lock_invI)
    show "locked (lks t k) = (if \<exists>i. owner t k i then 1 else 0)" for k
      using lock_invD(1) [OF assms(2), of k] by (simp add: own sel)
    show "owner t k j \<Longrightarrow> owner t k j' \<Longrightarrow> j = j'" for k j j'
      using lock_invD(2) [OF assms(2)] by (auto simp: own split: if_splits)
  qed (use lock_invD(3-6) [OF assms(2)] exchange(2) none in
    \<open>auto simp: held nest sel split: if_splits\<close>)
next
  case spin
  then show ?thesis using assms(2) by simp
next
  case (mark i l ps)
  have none: "lkcpu (lks s l) = None" and l: "l < N"
    using lock_invD(3,4) [OF assms(2), of i l] mark(2) by auto
  have sel: "lks t = (lks s)(l := (lks s l)\<lparr>lkcpu := Some i, pcs := ps\<rparr>)" "phase t = (phase s)(i := Run)" "cpus t = cpus s"
    by (simp_all add: mark(1) acquire_record_def)
  have held: "held t j = (if j = i then insert l (held s i) else held s j)" for j
    using none by (auto simp: sel held_def)
  have "nesting t j = nesting s j" for j
    using none mark(2) nesting_bound(1) [OF assms(2)]
    by (simp add: nesting_def held sel) (simp add: held_def)
  then show ?thesis
    using lock_invD(2-6) [OF assms(2)] none l mark(2)
    by (intro lock_inv_same_owner [OF assms(2)])
      (auto simp: held sel owner_def split: if_splits)
next
  case (leave i l lk c)
  have own: "owner s l i" and lk: "lk = (lks s l)\<lparr>pcs := (pcs (lks s l))[0 := 0], lkcpu := None\<rparr>"
    and c: "cpu_ok (nesting s i) c"
    using release_check_inv [OF assms(2,3) leave(2), of l] leave(4) by (auto split: if_splits)
  have some: "lkcpu (lks s l) = Some i" using own leave(2) by (simp add: owner_def)
  have sel: "lks t = (lks s)(l := lk)" "phase t = (phase s)(i := Leave l)" "cpus t = (cpus s)(i := c)"
    by (simp_all add: leave(1))
  have held: "held t j = (if j = i then held s i - {l} else held s j)" for j
    using some by (auto simp: sel held_def lk)
  have "l \<in> held s i" using some by (simp add: held_def)
  then have "nesting t j = nesting s j" for j
    using leave(2) card_Suc_Diff1 [OF nesting_bound(1) [OF assms(2), of i], of l]
    by (simp add: nesting_def held sel)
  moreover have "x < N" if "x \<in> held s j" for x j
    using lock_invD(5) [OF assms(2), of j] that by blast
  ultimately show ?thesis
    using lock_invD(2-4,6) [OF assms(2)] some leave(2,3) c
    by (intro lock_inv_same_owner [OF assms(2)])
      (auto simp: held sel owner_def lk split: if_splits)
next
  case (store i l u c)
  have own: "owner s l i" using store(2) by (simp add: owner_def)
  have none: "lkcpu (lks s l) = None" using lock_invD(3) [OF assms(2)] store(2) by blast
  have c: "cpu_ok (card (held s i)) c"
    using popcli_inv [OF assms(2), of i] store(2,3) by auto
  have sel: "lks t = (lks s)(l := (lks s l)\<lparr>locked := 0\<rparr>)" "phase t = (phase s)(i := Run)" "cpus t = (cpus s)(i := c)"
    by (simp_all add: store(1) release_store_def)
  have "phase s j \<noteq> Taken l \<and> phase s j \<noteq> Leave l" if "j \<noteq> i" for j
    using lock_invD(2) [OF assms(2) own, of j] that unfolding owner_def by blast
  then have own': "owner t k j \<longleftrightarrow> k \<noteq> l \<and> owner s k j" for k j
    using none store(2) by (cases "j = i") (auto simp: sel owner_def)
  have held: "held t j = held s j" for j
    by (auto simp: held_def sel)
  have nest: "nesting t j = (if j = i then card (held s i) else nesting s j)" for j
    by (simp add: nesting_def held sel)
  show ?thesis
  proof (rule lock_invI)
    show "locked (lks t k) = (if \<exists>i. owner t k i then 1 else 0)" for k
      using lock_invD(1) [OF assms(2), of k] by (simp add: own' sel)
    show "owner t k j \<Longrightarrow> owner t k j' \<Longrightarrow> j = j'" for k j j'
      using lock_invD(2) [OF assms(2)] by (auto simp: own' split: if_splits)
  qed (use lock_invD(3-6) [OF assms(2)] store(2) none c in
    \<open>auto simp: held nest sel split: if_splits\<close>)
next
  case (flag i e)
  have sel: "lks t = lks s" "phase t = phase s" "cpus t = (cpus s)(i := (cpus s i)\<lparr>eflags := e\<rparr>)"
    by (simp_all add: flag(1))
  have held: "held t j = held s j" "nesting t j = nesting s j" for j
    by (simp_all add: held_def nesting_def sel)
  have "nesting s i = 0" using lock_invD(6) [OF assms(2), of i] flag(3) by (simp add: cpu_ok_def)
  then show ?thesis
    using lock_invD(3-6) [OF assms(2)] flag(3)
    by (intro lock_inv_same_owner [OF assms(2)]) (auto simp: owner_def held sel cpu_ok_def)
qed

lemma lock_reach_inv: "lock_reach N s \<Longrightarrow> N < 2147483640 \<Longrightarrow> lock_inv N s"
  by (induction rule: lock_reach.induct) (blast intro: lock_inv_init lock_inv_step)+

text \<open>
  C18: However the processors interleave the steps of \<^verbatim>\<open>acquire\<close> and \<^verbatim>\<open>release\<close>, a lock has at
  most one owner; its lock word is set exactly while it has one; a processor that owns a lock
  runs with interrupts off; and \<^verbatim>\<open>acquire\<close> panics exactly on a lock the processor owns
  already, \<^verbatim>\<open>release\<close> exactly on one it does not own.
\<close>

theorem spinlock_mutual_exclusion:
  assumes "lock_reach N s" "N < 2147483640"
  shows "(owner s l i \<and> owner s l j \<longrightarrow> i = j) \<and>
    (locked (lks s l) = 1 \<longleftrightarrow> (\<exists>i. owner s l i)) \<and>
    (owner s l i \<longrightarrow> \<not> interruptible (cpus s i)) \<and>
    (phase s i = Run \<longrightarrow>
      (acquire_check i (lks s l) (cpus s i) = Panic ''acquire'' \<longleftrightarrow> owner s l i) \<and>
      (release_check i (lks s l) (cpus s i) = Panic ''release'' \<longleftrightarrow> \<not> owner s l i))"
proof -
  note inv = lock_reach_inv [OF assms]
  have "\<not> interruptible (cpus s i)" if "owner s l i"
  proof -
    have "0 < nesting s i"
    proof (cases "phase s i = Run")
      case True
      then have "l \<in> held s i" using that by (simp add: owner_def held_def)
      then show ?thesis using nesting_bound(1) [OF inv, of i] by (auto simp: nesting_def card_gt_0_iff)
    qed (simp add: nesting_def)
    then show ?thesis using lock_invD(6) [OF inv, of i] by (simp add: cpu_ok_def)
  qed
  then show ?thesis
    using lock_invD(1) [OF inv, of l] lock_invD(2) [OF inv, of l i j]
      acquire_check_inv [OF inv assms(2), of i l] release_check_inv [OF inv assms(2), of i l]
    by (auto split: if_splits)
qed

definition demo_cpu :: cpu where
  "demo_cpu = \<lparr>eflags = 0x202, ncli = 0, intena = 0\<rparr>"

definition demo_lock :: spinlock where
  "demo_lock = \<lparr>locked = 0, lkname = ''demo'', lkcpu = None, pcs = replicate 10 0\<rparr>"

definition demo_machine :: machine where
  "demo_machine = \<lparr>cpus = \<lambda>_. demo_cpu, lks = \<lambda>_. demo_lock, phase = \<lambda>_. Run\<rparr>"

definition demo_taken :: machine where
  "demo_taken = demo_machine\<lparr>cpus := (\<lambda>_. demo_cpu)(0 := demo_cpu\<lparr>eflags := 2, ncli := 1, intena := 0x200\<rparr>),
     lks := (\<lambda>_. demo_lock)(3 := demo_lock\<lparr>locked := 1\<rparr>), phase := (\<lambda>_. Run)(0 := Taken 3)\<rparr>"

lemma demo_taken_reach: "lock_reach 5 demo_taken"
proof -
  define s where "s = demo_machine\<lparr>cpus := (\<lambda>_. demo_cpu)(0 := demo_cpu\<lparr>eflags := 2, ncli := 1, intena := 0x200\<rparr>),
     phase := (\<lambda>_. Run)(0 := Spin 3)\<rparr>"
  have "lock_reach 5 demo_machine"
    by (rule lock_reach.init) (simp_all add: demo_machine_def demo_lock_def demo_cpu_def)
  moreover have "lock_step 5 demo_machine s"
  proof -
    have "acquire_check 0 demo_lock demo_cpu = Ok () (demo_cpu\<lparr>eflags := 2, ncli := 1, intena := 0x200\<rparr>)"
      by (simp add: acquire_check_def holding_def pushcli_def popcli_def cli_def demo_cpu_def demo_lock_def FL_IF_def word_sless_alt)
    then show ?thesis
      using lock_step.start [of demo_machine 0 3 5 "()" "demo_cpu\<lparr>eflags := 2, ncli := 1, intena := 0x200\<rparr>"]
      by (simp add: s_def demo_machine_def)
  qed
  moreover have "lock_step 5 s demo_taken"
    using lock_step.exchange [of s 0 3 "demo_lock\<lparr>locked := 1\<rparr>" 5]
    by (simp add: s_def demo_taken_def demo_machine_def acquire_try_def xchg_def demo_lock_def)
  ultimately show ?thesis by (blast intro: lock_reach.step)
qed

theorem spinlock_mutual_exclusion_witness:
  "owner demo_taken 3 0 \<and> \<not> interruptible (cpus demo_taken 0) \<and> \<not> owner demo_taken 3 1"
proof -
  have own: "owner demo_taken 3 0" by (simp add: owner_def demo_taken_def)
  then show ?thesis
    using spinlock_mutual_exclusion [OF demo_taken_reach, of 3 0 1] by auto
qed

end
