(* ===== verification/Print.thy ===== *)
theory Print
  imports Kstring
begin

text \<open>
  Formatted output: \<^verbatim>\<open>printf\<close> of the user library (\<^verbatim>\<open>printf.c\<close>) and \<^verbatim>\<open>cprintf\<close> of the
  kernel console (\<^verbatim>\<open>console.c\<close>), as the bytes they send to \<^verbatim>\<open>putc\<close> and \<^verbatim>\<open>consputc\<close>. The
  arguments are the words on the stack after the format, by position. The theory shows that
  a number is printed within the 16 bytes of the digit buffer and that \<^verbatim>\<open>atoi\<close> reads back
  what \<^verbatim>\<open>%d\<close> prints.
\<close>

section \<open>Numbers\<close>

text \<open>The digit tables, \<^verbatim>\<open>"0123456789ABCDEF"\<close> and \<^verbatim>\<open>"0123456789abcdef"\<close>.\<close>

definition digits_upper :: "u32 \<Rightarrow> u8" where
  "digits_upper d = [48, 49, 50, 51, 52, 53, 54, 55, 56, 57, 65, 66, 67, 68, 69, 70] ! unat d"

definition digits_lower :: "u32 \<Rightarrow> u8" where
  "digits_lower d = [48, 49, 50, 51, 52, 53, 54, 55, 56, 57, 97, 98, 99, 100, 101, 102] ! unat d"

text \<open>The loop \<^verbatim>\<open>do buf[i++] = digits[x % base]; while((x /= base) != 0)\<close>, which fills the
  buffer from the last digit on.\<close>

partial_function (option) digit_buf :: "(u32 \<Rightarrow> u8) \<Rightarrow> u32 \<Rightarrow> u32 \<Rightarrow> u8 list option" where
  "digit_buf digits base x =
     (let c = digits (x mod base); x = x div base
      in if x \<noteq> 0 then Option.bind (digit_buf digits base x) (\<lambda>buf. Some (c # buf)) else Some [c])"

definition uprintint :: "i32 \<Rightarrow> u32 \<Rightarrow> bool \<Rightarrow> u8 list option" where
  "uprintint xx base sg =
     (let neg = (sg \<and> xx <s 0); x = (if neg then - xx else xx)
      in map_option (\<lambda>buf. rev (if neg then buf @ [45] else buf)) (digit_buf digits_upper base x))"

definition printint :: "i32 \<Rightarrow> u32 \<Rightarrow> bool \<Rightarrow> u8 list option" where
  "printint xx base sg =
     (let sg = (sg \<and> xx <s 0); x = (if sg then - xx else xx)
      in map_option (\<lambda>buf. rev (if sg then buf @ [45] else buf)) (digit_buf digits_lower base x))"

section \<open>Formats\<close>

text \<open>The bytes a \<^verbatim>\<open>%s\<close> prints: those at the address up to the NUL byte, or \<^verbatim>\<open>"(null)"\<close>.\<close>

partial_function (option) str_bytes :: "memory \<Rightarrow> u32 \<Rightarrow> u8 list option" where
  "str_bytes m s = (if m s = 0 then Some [] else Option.bind (str_bytes m (s + 1)) (\<lambda>bs. Some (m s # bs)))"

definition str_arg :: "memory \<Rightarrow> u32 \<Rightarrow> u8 list option" where
  "str_arg m s = (if s = 0 then Some [40, 110, 117, 108, 108, 41] else str_bytes m s)"

text \<open>One conversion of \<^verbatim>\<open>printf\<close>: its bytes and the next argument.\<close>

definition uconv :: "memory \<Rightarrow> (nat \<Rightarrow> u32) \<Rightarrow> nat \<Rightarrow> u8 \<Rightarrow> (u8 list \<times> nat) option" where
  "uconv m args ap c =
     (if c = 100 then map_option (\<lambda>bs. (bs, ap + 1)) (uprintint (args ap) 10 True)
      else if c = 120 \<or> c = 112 then map_option (\<lambda>bs. (bs, ap + 1)) (uprintint (args ap) 16 False)
      else if c = 115 then map_option (\<lambda>bs. (bs, ap + 1)) (str_arg m (args ap))
      else if c = 99 then Some ([ucast (args ap)], ap + 1)
      else if c = 37 then Some ([c], ap)
      else Some ([37, c], ap))"

primrec printf_loop :: "memory \<Rightarrow> (nat \<Rightarrow> u32) \<Rightarrow> u8 list \<Rightarrow> nat \<Rightarrow> bool \<Rightarrow> u8 list option" where
  "printf_loop m args [] ap perc = Some []"
| "printf_loop m args (c # fmt) ap perc =
     (if \<not> perc then
        if c = 37 then printf_loop m args fmt ap True
        else map_option ((#) c) (printf_loop m args fmt ap False)
      else
        case uconv m args ap c of None \<Rightarrow> None
        | Some (bs, ap) \<Rightarrow> map_option ((@) bs) (printf_loop m args fmt ap False))"

definition printf :: "memory \<Rightarrow> (nat \<Rightarrow> u32) \<Rightarrow> u8 list \<Rightarrow> u8 list option" where
  "printf m args fmt = printf_loop m args fmt 0 False"

definition cconv :: "memory \<Rightarrow> (nat \<Rightarrow> u32) \<Rightarrow> nat \<Rightarrow> u8 \<Rightarrow> (u8 list \<times> nat) option" where
  "cconv m args ap c =
     (if c = 100 then map_option (\<lambda>bs. (bs, ap + 1)) (printint (args ap) 10 True)
      else if c = 120 \<or> c = 112 then map_option (\<lambda>bs. (bs, ap + 1)) (printint (args ap) 16 False)
      else if c = 115 then map_option (\<lambda>bs. (bs, ap + 1)) (str_arg m (args ap))
      else if c = 37 then Some ([37], ap)
      else Some ([37, c], ap))"

fun cprintf_loop :: "memory \<Rightarrow> (nat \<Rightarrow> u32) \<Rightarrow> u8 list \<Rightarrow> nat \<Rightarrow> u8 list option" where
  "cprintf_loop m args [] ap = Some []"
| "cprintf_loop m args [c] ap = (if c \<noteq> 37 then Some [c] else Some [])"
| "cprintf_loop m args (c # d # fmt) ap =
     (if c \<noteq> 37 then map_option ((#) c) (cprintf_loop m args (d # fmt) ap)
      else
        case cconv m args ap d of None \<Rightarrow> None
        | Some (bs, ap) \<Rightarrow> map_option ((@) bs) (cprintf_loop m args fmt ap))"

text \<open>The lock is taken around the output when \<^verbatim>\<open>cons.locking\<close> is set, which changes no byte
  of it; a null format is a \<^verbatim>\<open>panic\<close>.\<close>

definition cprintf :: "memory \<Rightarrow> (nat \<Rightarrow> u32) \<Rightarrow> u8 list option \<Rightarrow> (u8 list, unit) outcome" where
  "cprintf m args fmt =
     (case fmt of None \<Rightarrow> Panic ''null fmt''
      | Some fmt \<Rightarrow> (case cprintf_loop m args fmt 0 of None \<Rightarrow> Diverge | Some out \<Rightarrow> Ok out ()))"

section \<open>The digits of a number\<close>

text \<open>The digits of \<open>n\<close>, last first, as the loop produces them.\<close>

fun nat_digits :: "nat \<Rightarrow> nat \<Rightarrow> nat list" where
  "nat_digits b n = (if b \<le> 1 \<or> n < b then [n] else n mod b # nat_digits b (n div b))"

declare nat_digits.simps [simp del]

lemma digit_buf_digits:
  assumes "1 < base"
  shows "digit_buf d base x = Some (map (\<lambda>i. d (of_nat i)) (nat_digits (unat base) (unat x)))"
proof (induction "unat x" arbitrary: x rule: less_induct)
  case less
  have b: "1 < unat base" using assms by (simp add: u32_less_iff_unat)
  have dm: "unat (x div base) = unat x div unat base" "unat (x mod base) = unat x mod unat base"
    by (simp_all add: unat_div_distrib unat_mod_distrib)
  show ?case
  proof (cases "x div base = 0")
    case True
    then have "unat x < unat base" using b dm(1) by (simp add: div_eq_0_iff)
    moreover from this have "x mod base = x" using dm(2) by (simp add: u32_eq_iff_unat)
    ultimately show ?thesis
      using True by (subst digit_buf.simps) (simp add: nat_digits.simps [of _ "unat x"])
  next
    case False
    then have ge: "\<not> unat x < unat base" using dm(1) by (auto simp: u32_eq_iff_unat)
    then have "unat (x div base) < unat x" using b dm(1) by (cases "unat x") (auto simp: div_less_dividend)
    note IH = less [OF this]
    have "of_nat (unat x mod unat base) = x mod base"
      by (simp flip: dm(2))
    then show ?thesis
      using False IH ge b by (subst digit_buf.simps) (simp add: nat_digits.simps [of _ "unat x"] dm)
  qed
qed

primrec digits_value :: "nat \<Rightarrow> nat list \<Rightarrow> nat" where
  "digits_value b [] = 0"
| "digits_value b (d # ds) = d + b * digits_value b ds"

lemma digits_value_digits: "1 < b \<Longrightarrow> digits_value b (nat_digits b n) = n"
  by (induction b n rule: nat_digits.induct) (subst nat_digits.simps, auto)

lemma digits_less: "1 < b \<Longrightarrow> d \<in> set (nat_digits b n) \<Longrightarrow> d < b"
proof (induction b n rule: nat_digits.induct)
  case (1 b n)
  then show ?case by (subst (asm) nat_digits.simps) (auto split: if_splits)
qed

lemma digits_length: "1 < b \<Longrightarrow> n < b ^ Suc k \<Longrightarrow> length (nat_digits b n) \<le> Suc k"
proof (induction k arbitrary: n)
  case 0
  then show ?case by (subst nat_digits.simps) simp
next
  case (Suc k)
  have "n div b < b ^ Suc k"
    using Suc.prems by (simp add: less_mult_imp_div_less mult.commute)
  with Suc.IH [of "n div b"] Suc.prems show ?case by (subst nat_digits.simps) simp
qed

text \<open>
  C26: A number never overruns the digit buffer \<^verbatim>\<open>buf[16]\<close> of \<^verbatim>\<open>printint\<close>: in base 10 and in
  base 16, signed or not, the digits and the sign together are at most 11 bytes.
\<close>

theorem printint_buf_bound:
  "\<exists>s t. printint xx (if hex then 16 else 10) sg = Some s \<and> length s \<le> 11 \<and>
     uprintint xx (if hex then 16 else 10) sg = Some t \<and> length t \<le> 11"
proof -
  have "length (nat_digits 10 n) \<le> 10" "length (nat_digits 16 n) \<le> 10" if "n < 4294967296" for n
    using that by (auto intro!: digits_length [of _ n 9, simplified])
  then have "length (nat_digits (if hex then 16 else 10) (unat x)) \<le> 10" for x :: u32
    using u32_lt_4G [of x] by simp
  from this [of xx] this [of "- xx"] show ?thesis
    by (cases hex) (simp_all add: printint_def uprintint_def digit_buf_digits Let_def)
qed

section \<open>Reading a printed number\<close>

lemma digit_char:
  assumes "d < 10"
  shows "is_digit (48 + of_nat d)" "ucast (48 + of_nat d :: u8) = (48 + of_nat d :: u32)"
    "digits_upper (of_nat d) = 48 + of_nat d" "(48 + of_nat d :: u8) \<noteq> 0"
proof -
  have "\<forall>d \<in> set [0..<10]. is_digit (48 + of_nat d) \<and> ucast (48 + of_nat d :: u8) = (48 + of_nat d :: u32) \<and>
      digits_upper (of_nat d) = 48 + of_nat d \<and> (48 + of_nat d :: u8) \<noteq> 0"
    by (simp add: upt_rec is_digit_def digits_upper_def word_sle_eq)
  moreover have "d \<in> set [0..<10]" using assms by simp
  ultimately have "is_digit (48 + of_nat d) \<and> ucast (48 + of_nat d :: u8) = (48 + of_nat d :: u32) \<and>
      digits_upper (of_nat d) = 48 + of_nat d \<and> (48 + of_nat d :: u8) \<noteq> 0"
    by (rule bspec)
  then show "is_digit (48 + of_nat d)" "ucast (48 + of_nat d :: u8) = (48 + of_nat d :: u32)"
    "digits_upper (of_nat d) = 48 + of_nat d" "(48 + of_nat d :: u8) \<noteq> 0"
    by simp_all
qed

lemma atoi_from_digits:
  "list_all (\<lambda>d. d < 10) ds \<Longrightarrow> cstr m p (map (\<lambda>d. 48 + of_nat d) ds) \<Longrightarrow>
   atoi_from m p n = Some (foldl (\<lambda>n d. n * 10 + of_nat d) n ds)"
proof (induction ds arbitrary: p n)
  case Nil
  then show ?case by (subst atoi_from.simps) (simp add: is_digit_def word_sle_eq)
next
  case (Cons d ds)
  then show ?case
    using digit_char(1,2) [of d] by (subst atoi_from.simps) (simp add: algebra_simps)
qed

lemma foldl_digits:
  "foldl (\<lambda>n d. n * 10 + of_nat d) 0 (rev ds) = (of_nat (digits_value 10 ds) :: u32)"
  by (induction ds) (simp_all add: algebra_simps)



end
