(* ===== verification/Ptable.thy ===== *)
theory Ptable
  imports Spinlock Print
begin

text \<open>
  The process table of \<^verbatim>\<open>proc.c\<close>: the life cycle of a process and everything the routines do
  to the table under \<^verbatim>\<open>ptable.lock\<close> (\<^verbatim>\<open>allocproc\<close>'s choice of a slot, \<^verbatim>\<open>sleep\<close>, \<^verbatim>\<open>wakeup1\<close>,
  \<^verbatim>\<open>kill\<close>, \<^verbatim>\<open>yield\<close>, the scan of \<^verbatim>\<open>wait\<close>, the bookkeeping of \<^verbatim>\<open>exit\<close>, one turn of
  \<^verbatim>\<open>scheduler\<close>, the guards of \<^verbatim>\<open>sched\<close>). Each routine's section under the lock is one step
  of a transition system; the invariant over its runs says which processor runs which
  process, that process numbers are not reused, that every zombie has a live parent, and that
  a parent asleep in \<^verbatim>\<open>wait\<close> has no zombie child.
\<close>

section \<open>Processes\<close>

datatype procstate = UNUSED | EMBRYO | SLEEPING | RUNNABLE | RUNNING | ZOMBIE

text \<open>\<^verbatim>\<open>struct proc\<close>. Processes, files and inodes are named by their index in the tables
  they live in; \<open>None\<close> is the null pointer. The list of mapped areas stays in kernel memory
  and is treated with \<^verbatim>\<open>mmap\<close>.\<close>

record proc =
  sz :: u32
  pgdir :: u32
  kstack :: u32
  pstate :: procstate
  pid :: i32
  parent :: "nat option"
  tf :: u32
  pcontext :: u32
  chan :: u32
  killed :: i32
  ofile :: "nat option list"
  cwd :: "nat option"
  pname :: "u8 list"

definition NPROC :: nat where
  "NPROC = 64"

definition NOFILE :: nat where
  "NOFILE = 16"

record ptab =
  procs :: "proc list"
  nextpid :: i32
  initproc :: "nat option"

text \<open>The address of a slot, which \<^verbatim>\<open>wait\<close> uses as its sleep channel. A \<^verbatim>\<open>struct proc\<close> has
  220 bytes; \<open>B\<close> is the address of \<^verbatim>\<open>ptable.proc\<close>.\<close>

definition procaddr :: "u32 \<Rightarrow> nat \<Rightarrow> u32" where
  "procaddr B i = B + 220 * of_nat i"

definition procptr :: "u32 \<Rightarrow> nat option \<Rightarrow> u32" where
  "procptr B p = (case p of None \<Rightarrow> 0 | Some i \<Rightarrow> procaddr B i)"

section \<open>The routines' effect on the table\<close>

fun first_slot :: "(proc \<Rightarrow> bool) \<Rightarrow> proc list \<Rightarrow> nat option" where
  "first_slot P [] = None"
| "first_slot P (p # ps) = (if P p then Some 0 else map_option Suc (first_slot P ps))"

text \<open>\<^verbatim>\<open>allocproc\<close>, up to the release of the lock.\<close>

definition alloc_slot :: "'a ptab_scheme \<Rightarrow> nat option \<times> 'a ptab_scheme" where
  "alloc_slot t = (case first_slot (\<lambda>p. pstate p = UNUSED) (procs t) of
     None \<Rightarrow> (None, t)
   | Some i \<Rightarrow> (Some i, t\<lparr>procs := (procs t)[i := (procs t ! i)\<lparr>pstate := EMBRYO, pid := nextpid t\<rparr>],
       nextpid := nextpid t + 1\<rparr>))"

definition wakeup1 :: "u32 \<Rightarrow> proc list \<Rightarrow> proc list" where
  "wakeup1 ch ps = map (\<lambda>p. if pstate p = SLEEPING \<and> chan p = ch then p\<lparr>pstate := RUNNABLE\<rparr> else p) ps"

definition wakeup :: "u32 \<Rightarrow> 'a ptab_scheme \<Rightarrow> 'a ptab_scheme" where
  "wakeup ch t = t\<lparr>procs := wakeup1 ch (procs t)\<rparr>"

definition kill :: "i32 \<Rightarrow> 'a ptab_scheme \<Rightarrow> i32 \<times> 'a ptab_scheme" where
  "kill n t = (case first_slot (\<lambda>p. pid p = n) (procs t) of
     None \<Rightarrow> (- 1, t)
   | Some i \<Rightarrow>
       let p = (procs t ! i)\<lparr>killed := 1\<rparr>;
           p = (if pstate p = SLEEPING then p\<lparr>pstate := RUNNABLE\<rparr> else p)
       in (0, t\<lparr>procs := (procs t)[i := p]\<rparr>))"

text \<open>The guards of \<^verbatim>\<open>sched\<close>, for processor \<open>c\<close> and its process \<open>p\<close>.\<close>

definition sched_check :: "nat \<Rightarrow> spinlock \<Rightarrow> proc \<Rightarrow> cpu \<Rightarrow> (unit, cpu) outcome" where
  "sched_check c lk p cp = bindO (holding c lk cp) (\<lambda>h cp.
     if \<not> h then Panic ''sched ptable.lock''
     else if ncli cp \<noteq> 1 then Panic ''sched locks''
     else if pstate p = RUNNING then Panic ''sched running''
     else if eflags cp AND FL_IF \<noteq> 0 then Panic ''sched interruptible''
     else Ok () cp)"

text \<open>What \<^verbatim>\<open>sleep\<close> and \<^verbatim>\<open>yield\<close> do to the table before they enter the scheduler, and what
  \<^verbatim>\<open>sleep\<close> does when it comes back.\<close>

definition sleep_enter :: "u32 \<Rightarrow> nat \<Rightarrow> proc list \<Rightarrow> proc list" where
  "sleep_enter ch me ps = ps[me := (ps ! me)\<lparr>chan := ch, pstate := SLEEPING\<rparr>]"

definition sleep_return :: "nat \<Rightarrow> proc list \<Rightarrow> proc list" where
  "sleep_return me ps = ps[me := (ps ! me)\<lparr>chan := 0\<rparr>]"

definition yield_enter :: "nat \<Rightarrow> proc list \<Rightarrow> proc list" where
  "yield_enter me ps = ps[me := (ps ! me)\<lparr>pstate := RUNNABLE\<rparr>]"

text \<open>The scan of \<^verbatim>\<open>wait\<close>: whether the process has children, and its first zombie child.\<close>

definition wait_scan :: "nat \<Rightarrow> proc list \<Rightarrow> bool \<times> nat option" where
  "wait_scan me ps = (\<exists>p \<in> set ps. parent p = Some me,
     first_slot (\<lambda>p. parent p = Some me \<and> pstate p = ZOMBIE) ps)"

definition wait_reap :: "nat \<Rightarrow> proc list \<Rightarrow> proc list" where
  "wait_reap i ps = ps[i := (ps ! i)\<lparr>kstack := 0, pid := 0, parent := None,
     pname := (pname (ps ! i))[0 := 0], killed := 0, pstate := UNUSED\<rparr>]"

text \<open>The loop of \<^verbatim>\<open>exit\<close> that passes abandoned children to init, slot by slot, and the
  section of \<^verbatim>\<open>exit\<close> under the lock.\<close>

definition reparent1 :: "u32 \<Rightarrow> nat option \<Rightarrow> nat \<Rightarrow> nat \<Rightarrow> proc list \<Rightarrow> proc list" where
  "reparent1 B ini me i ps =
     (if parent (ps ! i) = Some me then
        let ps = ps[i := (ps ! i)\<lparr>parent := ini\<rparr>]
        in if pstate (ps ! i) = ZOMBIE then wakeup1 (procptr B ini) ps else ps
      else ps)"

primrec reparent :: "u32 \<Rightarrow> nat option \<Rightarrow> nat \<Rightarrow> nat \<Rightarrow> nat \<Rightarrow> proc list \<Rightarrow> proc list" where
  "reparent B ini me i 0 ps = ps"
| "reparent B ini me i (Suc n) ps = reparent B ini me (Suc i) n (reparent1 B ini me i ps)"

definition exit_table :: "u32 \<Rightarrow> nat \<Rightarrow> 'a ptab_scheme \<Rightarrow> 'a ptab_scheme" where
  "exit_table B me t =
     (let ps = wakeup1 (procptr B (parent (procs t ! me))) (procs t);
          ps = reparent B (initproc t) me 0 NPROC ps
      in t\<lparr>procs := ps[me := (ps ! me)\<lparr>pstate := ZOMBIE\<rparr>]\<rparr>)"

text \<open>\<^verbatim>\<open>mycpu\<close> finds the processor by its APIC number (\<open>apicid i\<close> is \<^verbatim>\<open>cpus[i].apicid\<close>, \<open>lapicid\<close>
  what the local APIC answers), \<^verbatim>\<open>myproc\<close> reads its process with interrupts off.\<close>

definition mycpu :: "(nat \<Rightarrow> i32) \<Rightarrow> nat \<Rightarrow> i32 \<Rightarrow> cpu \<Rightarrow> (nat, cpu) outcome" where
  "mycpu apicid ncpu lapicid c =
     (if eflags c AND FL_IF \<noteq> 0 then Panic ''mycpu called with interrupts enabled''
      else case filter (\<lambda>i. apicid i = lapicid) [0..<ncpu] of
        i # _ \<Rightarrow> Ok i c | [] \<Rightarrow> Panic ''unknown apicid'')"

definition myproc :: "(nat \<Rightarrow> i32) \<Rightarrow> nat \<Rightarrow> i32 \<Rightarrow> (nat \<Rightarrow> nat option) \<Rightarrow> cpu \<Rightarrow> (nat option, cpu) outcome" where
  "myproc apicid ncpu lapicid cp c =
     bindO (mycpu apicid ncpu lapicid (pushcli c)) (\<lambda>i c. bindO (popcli c) (\<lambda>_ c. Ok (cp i) c))"

text \<open>The process listing: the bytes \<^verbatim>\<open>procdump\<close> prints, with the call stack of the sleeping
  processes read from kernel memory.\<close>

primrec state_name :: "procstate \<Rightarrow> u8 list" where
  "state_name UNUSED = bytes ''unused''"
| "state_name EMBRYO = bytes ''embryo''"
| "state_name SLEEPING = bytes ''sleep ''"
| "state_name RUNNABLE = bytes ''runble''"
| "state_name RUNNING = bytes ''run   ''"
| "state_name ZOMBIE = bytes ''zombie''"

primrec dump_pcs :: "u32 list \<Rightarrow> u8 list option" where
  "dump_pcs [] = Some []"
| "dump_pcs (pc # ps) = (if pc = 0 then Some []
     else case (printint pc 16 False, dump_pcs ps) of
       (Some d, Some r) \<Rightarrow> Some (32 # d @ r) | _ \<Rightarrow> None)"

definition dump_proc :: "memory \<Rightarrow> proc \<Rightarrow> u8 list option" where
  "dump_proc m p =
     (if pstate p = UNUSED then Some []
      else case (printint (pid p) 10 True,
          if pstate p = SLEEPING then dump_pcs (getcallerpcs m (load32 m (pcontext p + 12) + 8)) else Some []) of
        (Some d, Some st) \<Rightarrow>
          Some (d @ [32] @ state_name (pstate p) @ [32] @ takeWhile (\<lambda>c. c \<noteq> 0) (pname p) @ st @ [10])
      | _ \<Rightarrow> None)"

primrec procdump :: "memory \<Rightarrow> proc list \<Rightarrow> u8 list option" where
  "procdump m [] = Some []"
| "procdump m (p # ps) = (case (dump_proc m p, procdump m ps) of
     (Some l, Some r) \<Rightarrow> Some (l @ r) | _ \<Rightarrow> None)"

section \<open>First slots\<close>

lemma first_slot_Some:
  "first_slot P ps = Some i \<longleftrightarrow> i < length ps \<and> P (ps ! i) \<and> (\<forall>j<i. \<not> P (ps ! j))"
proof (induction ps arbitrary: i)
  case (Cons p ps)
  then show ?case
    by (cases i) (auto simp: less_Suc_eq_0_disj)
qed simp

lemma first_slot_None: "first_slot P ps = None \<longleftrightarrow> (\<forall>p \<in> set ps. \<not> P p)"
  by (induction ps) auto

lemma procaddr_inj:
  assumes "i < NPROC" "j < NPROC"
  shows "procaddr B i = procaddr B j \<longleftrightarrow> i = j"
proof -
  have "unat (220 * of_nat k :: u32) = 220 * k" if "k < 64" for k
    using that by (simp add: unat_word_ariths unat_of_nat)
  then have "i = j" if "(220 * of_nat i :: u32) = 220 * of_nat j"
    using assms arg_cong [OF that, of unat] by (simp add: NPROC_def)
  then show ?thesis
    by (auto simp: procaddr_def)
qed

lemma wakeup1_simps [simp]:
  "length (wakeup1 ch ps) = length ps"
  "i < length ps \<Longrightarrow> wakeup1 ch ps ! i =
     (if pstate (ps ! i) = SLEEPING \<and> chan (ps ! i) = ch then (ps ! i)\<lparr>pstate := RUNNABLE\<rparr> else ps ! i)"
  by (simp_all add: wakeup1_def)

text \<open>
  C22: \<^verbatim>\<open>kill(0)\<close> returns success although no process has number 0: it marks a free slot of the
  table (in a freshly initialised one, say), and \<^verbatim>\<open>allocproc\<close> does not clear the mark, so
  the next process created in that slot is born killed.
\<close>

theorem kill_zero_poisons_next_process:
  assumes "first_slot (\<lambda>p. pstate p = UNUSED) (procs t) = Some i" "pid (procs t ! i) = 0"
    and "\<forall>j < length (procs t). pstate (procs t ! j) \<noteq> UNUSED \<longrightarrow> pid (procs t ! j) \<noteq> 0"
  shows "fst (kill 0 t) = 0 \<and>
    (\<exists>t'. alloc_slot (snd (kill 0 t)) = (Some i, t') \<and> killed (procs t' ! i) = 1)"
proof -
  have i: "i < length (procs t)" "pstate (procs t ! i) = UNUSED" "\<forall>j<i. pstate (procs t ! j) \<noteq> UNUSED"
    using assms(1) by (auto simp: first_slot_Some)
  then have k: "first_slot (\<lambda>p. pid p = 0) (procs t) = Some i"
    using assms(2,3) by (auto simp: first_slot_Some)
  define ps where "ps = (procs t)[i := (procs t ! i)\<lparr>killed := 1\<rparr>]"
  have "first_slot (\<lambda>p. pstate p = UNUSED) ps = Some i"
    using i by (auto simp: first_slot_Some ps_def nth_list_update)
  moreover have "kill 0 t = (0, t\<lparr>procs := ps\<rparr>)"
    using i k by (simp add: kill_def ps_def)
  ultimately show ?thesis
    using i by (simp add: alloc_slot_def) (simp add: ps_def)
qed

section \<open>Runs of the process table\<close>

text \<open>\<open>cpuproc c\<close> is \<^verbatim>\<open>cpus[c].proc\<close>.\<close>

record sys = ptab +
  cpuproc :: "nat \<Rightarrow> nat option"

definition upd_proc :: "nat \<Rightarrow> (proc \<Rightarrow> proc) \<Rightarrow> sys \<Rightarrow> sys" where
  "upd_proc i f s = s\<lparr>procs := (procs s)[i := f (procs s ! i)]\<rparr>"

text \<open>
  One section under \<^verbatim>\<open>ptable.lock\<close> each. A process acts when some processor runs it
  (\<open>cpuproc s c = Some me\<close>). Entering the scheduler and its \<^verbatim>\<open>c->proc = 0\<close> belong to the
  section of the process that gives up the processor, since the lock is held across the
  switch. \<^verbatim>\<open>sleep\<close> is called by \<^verbatim>\<open>wait\<close> with the process's own slot as channel and by the
  rest of the kernel with other addresses.
\<close>

inductive proc_step :: "u32 \<Rightarrow> sys \<Rightarrow> sys \<Rightarrow> bool" for B where
  alloc: "cpuproc s c = Some me \<Longrightarrow> alloc_slot s = (Some i, t) \<Longrightarrow> proc_step B s t"
| alloc_undo: "i < NPROC \<Longrightarrow> pstate (procs s ! i) = EMBRYO \<Longrightarrow>
    proc_step B s (upd_proc i (\<lambda>p. p\<lparr>pstate := UNUSED\<rparr>) s)"
| fork: "cpuproc s c = Some me \<Longrightarrow> i < NPROC \<Longrightarrow> pstate (procs s ! i) = EMBRYO \<Longrightarrow>
    proc_step B s (upd_proc i (\<lambda>p. p\<lparr>parent := Some me, pstate := RUNNABLE\<rparr>) s)"
| pick: "cpuproc s c = None \<Longrightarrow> i < NPROC \<Longrightarrow> pstate (procs s ! i) = RUNNABLE \<Longrightarrow>
    proc_step B s ((upd_proc i (\<lambda>p. p\<lparr>pstate := RUNNING\<rparr>) s)\<lparr>cpuproc := (cpuproc s)(c := Some i)\<rparr>)"
| yield: "cpuproc s c = Some me \<Longrightarrow>
    proc_step B s (s\<lparr>procs := yield_enter me (procs s), cpuproc := (cpuproc s)(c := None)\<rparr>)"
| sleep: "cpuproc s c = Some me \<Longrightarrow> ch \<notin> procaddr B ` {..<NPROC} \<Longrightarrow>
    proc_step B s (s\<lparr>procs := sleep_enter ch me (procs s), cpuproc := (cpuproc s)(c := None)\<rparr>)"
| woken: "cpuproc s c = Some me \<Longrightarrow> proc_step B s (s\<lparr>procs := sleep_return me (procs s)\<rparr>)"
| wakeup: "proc_step B s (wakeup ch s)"
| kill: "proc_step B s (snd (kill n s))"
| exit: "cpuproc s c = Some me \<Longrightarrow> initproc s \<noteq> Some me \<Longrightarrow>
    proc_step B s ((exit_table B me s)\<lparr>cpuproc := (cpuproc s)(c := None)\<rparr>)"
| wait_reap: "cpuproc s c = Some me \<Longrightarrow> wait_scan me (procs s) = (h, Some i) \<Longrightarrow>
    proc_step B s (s\<lparr>procs := wait_reap i (procs s)\<rparr>)"
| wait_sleep: "cpuproc s c = Some me \<Longrightarrow> wait_scan me (procs s) = (True, None) \<Longrightarrow> killed (procs s ! me) = 0 \<Longrightarrow>
    proc_step B s (s\<lparr>procs := sleep_enter (procaddr B me) me (procs s), cpuproc := (cpuproc s)(c := None)\<rparr>)"

text \<open>\<^verbatim>\<open>userinit\<close> leaves one runnable process, init, with number 1. A run is counted by its
  steps, because process numbers wrap around after \<open>2\<^sup>3\<^sup>2\<close> calls of \<^verbatim>\<open>allocproc\<close>.\<close>

definition booted :: "sys \<Rightarrow> bool" where
  "booted s \<longleftrightarrow> length (procs s) = NPROC \<and> initproc s = Some 0 \<and> nextpid s = 2 \<and>
     pstate (procs s ! 0) = RUNNABLE \<and> pid (procs s ! 0) = 1 \<and> parent (procs s ! 0) = None \<and>
     (\<forall>i. 0 < i \<longrightarrow> i < NPROC \<longrightarrow> pstate (procs s ! i) = UNUSED \<and> pid (procs s ! i) = 0 \<and> parent (procs s ! i) = None) \<and>
     (\<forall>c. cpuproc s c = None)"

inductive proc_run :: "u32 \<Rightarrow> nat \<Rightarrow> sys \<Rightarrow> bool" for B where
  boot: "booted s \<Longrightarrow> proc_run B 0 s"
| step: "proc_run B k s \<Longrightarrow> proc_step B s t \<Longrightarrow> proc_run B (Suc k) t"

text \<open>The invariant, one group of facts per definition: the processors, the process numbers,
  the family tree, and the sleepers in \<^verbatim>\<open>wait\<close>.\<close>

definition cpu_inv :: "proc list \<Rightarrow> (nat \<Rightarrow> nat option) \<Rightarrow> bool" where
  "cpu_inv ps cp \<longleftrightarrow>
     (\<forall>c i. cp c = Some i \<longrightarrow> i < NPROC \<and> pstate (ps ! i) = RUNNING) \<and>
     (\<forall>i<NPROC. pstate (ps ! i) = RUNNING \<longrightarrow> (\<exists>c. cp c = Some i)) \<and>
     (\<forall>c d i. cp c = Some i \<longrightarrow> cp d = Some i \<longrightarrow> c = d)"

definition pid_inv :: "proc list \<Rightarrow> i32 \<Rightarrow> bool" where
  "pid_inv ps np \<longleftrightarrow>
     (\<forall>i<NPROC. unat (pid (ps ! i)) < unat np \<and> (pstate (ps ! i) \<noteq> UNUSED \<longrightarrow> pid (ps ! i) \<noteq> 0)) \<and>
     (\<forall>i<NPROC. \<forall>j<NPROC. pstate (ps ! i) \<noteq> UNUSED \<longrightarrow> pstate (ps ! j) \<noteq> UNUSED \<longrightarrow>
        pid (ps ! i) = pid (ps ! j) \<longrightarrow> i = j)"

definition live :: "procstate \<Rightarrow> bool" where
  "live st \<longleftrightarrow> st = SLEEPING \<or> st = RUNNABLE \<or> st = RUNNING"

definition tree_inv :: "proc list \<Rightarrow> nat option \<Rightarrow> bool" where
  "tree_inv ps ini \<longleftrightarrow>
     (\<exists>z<NPROC. ini = Some z \<and> live (pstate (ps ! z)) \<and> parent (ps ! z) = None \<and>
       (\<forall>i<NPROC. i \<noteq> z \<longrightarrow> live (pstate (ps ! i)) \<or> pstate (ps ! i) = ZOMBIE \<longrightarrow>
         (\<exists>q<NPROC. parent (ps ! i) = Some q \<and> q \<noteq> i \<and> live (pstate (ps ! q)))))"

definition wait_inv :: "u32 \<Rightarrow> proc list \<Rightarrow> bool" where
  "wait_inv B ps \<longleftrightarrow>
     (\<forall>q<NPROC. \<forall>i<NPROC. pstate (ps ! q) = SLEEPING \<longrightarrow> chan (ps ! q) = procaddr B q \<longrightarrow>
        pstate (ps ! i) = ZOMBIE \<longrightarrow> parent (ps ! i) \<noteq> Some q)"

definition sys_inv :: "u32 \<Rightarrow> sys \<Rightarrow> bool" where
  "sys_inv B s \<longleftrightarrow> length (procs s) = NPROC \<and> cpu_inv (procs s) (cpuproc s) \<and>
     pid_inv (procs s) (nextpid s) \<and> tree_inv (procs s) (initproc s) \<and> wait_inv B (procs s)"

section \<open>What a step has to keep\<close>

text \<open>Each part of the invariant survives every change that is small enough in its own
  terms; the steps are then checked slot by slot against these conditions.\<close>

lemma cpu_inv_same:
  assumes "cpu_inv ps cp" "\<And>j. j < NPROC \<Longrightarrow> (pstate (ps' ! j) = RUNNING) = (pstate (ps ! j) = RUNNING)"
  shows "cpu_inv ps' cp"
  using assms unfolding cpu_inv_def by metis

lemma cpu_invI:
  assumes "\<And>c i. cp c = Some i \<Longrightarrow> i < NPROC \<and> pstate (ps ! i) = RUNNING"
    and "\<And>i. i < NPROC \<Longrightarrow> pstate (ps ! i) = RUNNING \<Longrightarrow> \<exists>c. cp c = Some i"
    and "\<And>c d i. cp c = Some i \<Longrightarrow> cp d = Some i \<Longrightarrow> c = d"
  shows "cpu_inv ps cp"
  using assms unfolding cpu_inv_def by blast

lemma cpu_invD:
  assumes "cpu_inv ps cp" "cp c = Some me"
  shows "me < NPROC" "pstate (ps ! me) = RUNNING" "cp d = Some me \<Longrightarrow> c = d"
  using assms unfolding cpu_inv_def by blast+

lemma cpu_inv_off:
  assumes "cpu_inv ps cp" "cp c = Some me"
    and "\<And>j. j < NPROC \<Longrightarrow> (pstate (ps' ! j) = RUNNING) = (pstate (ps ! j) = RUNNING \<and> j \<noteq> me)"
  shows "cpu_inv ps' (cp(c := None))"
proof (rule cpu_invI)
  fix d i assume d: "(cp(c := None)) d = Some i"
  then have "cp d = Some i" "d \<noteq> c" by (auto split: if_splits)
  then show "i < NPROC \<and> pstate (ps' ! i) = RUNNING"
    using assms(3) [of i] cpu_invD [OF assms(1)] assms(2) by blast
  show "(cp(c := None)) e = Some i \<Longrightarrow> d = e" for e
    using d cpu_invD(3) [OF assms(1)] by (auto split: if_splits)
next
  fix i assume "i < NPROC" "pstate (ps' ! i) = RUNNING"
  then obtain d where "cp d = Some i" "i \<noteq> me"
    using assms(1,3) unfolding cpu_inv_def by blast
  then show "\<exists>d. (cp(c := None)) d = Some i"
    using assms(2) by (intro exI [of _ d]) auto
qed

lemma cpu_inv_on:
  assumes "cpu_inv ps cp" "cp c = None" "i < NPROC" "pstate (ps ! i) \<noteq> RUNNING"
    and "\<And>j. j < NPROC \<Longrightarrow> (pstate (ps' ! j) = RUNNING) = (pstate (ps ! j) = RUNNING \<or> j = i)"
  shows "cpu_inv ps' (cp(c := Some i))"
proof (rule cpu_invI)
  have no: "cp d \<noteq> Some i" for d using cpu_invD(2) [OF assms(1)] assms(4) by blast
  fix d j assume d: "(cp(c := Some i)) d = Some j"
  show "j < NPROC \<and> pstate (ps' ! j) = RUNNING"
  proof (cases "d = c")
    case True
    then show ?thesis using d assms(3) assms(5) [of i] by simp
  next
    case False
    then have "cp d = Some j" using d by simp
    then show ?thesis using assms(5) [of j] cpu_invD(1,2) [OF assms(1)] by blast
  qed
  show "d = e" if "(cp(c := Some i)) e = Some j" for e
  proof (cases "d = c \<or> e = c")
    case True
    then show ?thesis using d that no by (auto split: if_splits)
  next
    case False
    then show ?thesis using d that cpu_invD(3) [OF assms(1)] by (metis fun_upd_other)
  qed
next
  fix j assume "j < NPROC" "pstate (ps' ! j) = RUNNING"
  then consider "j = i" | d where "cp d = Some j"
    using assms(1,5) unfolding cpu_inv_def by blast
  then show "\<exists>d. (cp(c := Some i)) d = Some j"
  proof cases
    case 1
    then show ?thesis by (intro exI [of _ c]) simp
  next
    case 2
    then show ?thesis using assms(2) by (intro exI [of _ d]) auto
  qed
qed

lemma pid_inv_mono:
  assumes "pid_inv ps np"
    and "\<And>j. j < NPROC \<Longrightarrow> pid (ps' ! j) = pid (ps ! j) \<or> pid (ps' ! j) = 0 \<and> pstate (ps' ! j) = UNUSED"
    and "\<And>j. j < NPROC \<Longrightarrow> pstate (ps' ! j) \<noteq> UNUSED \<Longrightarrow> pstate (ps ! j) \<noteq> UNUSED"
  shows "pid_inv ps' np"
  unfolding pid_inv_def
proof (intro conjI allI impI)
  fix j assume j: "j < NPROC"
  then show "unat (pid (ps' ! j)) < unat np"
    using assms(1) assms(2) [OF j] unfolding pid_inv_def by (metis gr_implies_not0 gr0I unat_0)
  show "pid (ps' ! j) \<noteq> 0" if "pstate (ps' ! j) \<noteq> UNUSED"
    using assms(1) assms(2,3) [OF j] that j unfolding pid_inv_def by metis
  fix k assume "k < NPROC" "pstate (ps' ! j) \<noteq> UNUSED" "pstate (ps' ! k) \<noteq> UNUSED" "pid (ps' ! j) = pid (ps' ! k)"
  then show "j = k"
    using assms(1) assms(2,3) [OF j] assms(2,3) [of k] j unfolding pid_inv_def by metis
qed

lemma tree_invE:
  assumes "tree_inv ps ini"
  obtains z where "z < NPROC" "ini = Some z" "live (pstate (ps ! z))" "parent (ps ! z) = None"
    and "\<And>i. i < NPROC \<Longrightarrow> i \<noteq> z \<Longrightarrow> live (pstate (ps ! i)) \<or> pstate (ps ! i) = ZOMBIE \<Longrightarrow>
         \<exists>q<NPROC. parent (ps ! i) = Some q \<and> q \<noteq> i \<and> live (pstate (ps ! q))"
  using assms unfolding tree_inv_def by blast

lemma tree_inv_mono:
  assumes "tree_inv ps ini"
    and "\<And>j. j < NPROC \<Longrightarrow> live (pstate (ps ! j)) \<Longrightarrow> live (pstate (ps' ! j))"
    and "\<And>j. j < NPROC \<Longrightarrow> live (pstate (ps' ! j)) \<or> pstate (ps' ! j) = ZOMBIE \<Longrightarrow>
      (live (pstate (ps ! j)) \<or> pstate (ps ! j) = ZOMBIE) \<and> parent (ps' ! j) = parent (ps ! j)"
  shows "tree_inv ps' ini"
proof -
  obtain z where z: "z < NPROC" "ini = Some z" "live (pstate (ps ! z))" "parent (ps ! z) = None"
    and up: "\<And>i. i < NPROC \<Longrightarrow> i \<noteq> z \<Longrightarrow> live (pstate (ps ! i)) \<or> pstate (ps ! i) = ZOMBIE \<Longrightarrow>
         \<exists>q<NPROC. parent (ps ! i) = Some q \<and> q \<noteq> i \<and> live (pstate (ps ! q))"
    by (rule tree_invE [OF assms(1)]) blast
  have "\<exists>q<NPROC. parent (ps' ! i) = Some q \<and> q \<noteq> i \<and> live (pstate (ps' ! q))"
    if "i < NPROC" "i \<noteq> z" "live (pstate (ps' ! i)) \<or> pstate (ps' ! i) = ZOMBIE" for i
    using assms(3) [OF that(1,3)] up [OF that(1,2)] assms(2) by auto
  then show ?thesis
    using z assms(2,3) unfolding tree_inv_def by (metis (no_types, lifting))
qed

lemma wait_inv_mono:
  assumes "wait_inv B ps"
    and "\<And>q. q < NPROC \<Longrightarrow> pstate (ps' ! q) = SLEEPING \<Longrightarrow> chan (ps' ! q) = procaddr B q \<Longrightarrow>
      pstate (ps ! q) = SLEEPING \<and> chan (ps ! q) = procaddr B q"
    and "\<And>i. i < NPROC \<Longrightarrow> pstate (ps' ! i) = ZOMBIE \<Longrightarrow>
      pstate (ps ! i) = ZOMBIE \<and> parent (ps' ! i) = parent (ps ! i)"
  shows "wait_inv B ps'"
  using assms unfolding wait_inv_def by metis

lemma sys_invD:
  assumes "sys_inv B s"
  shows "length (procs s) = NPROC" "cpu_inv (procs s) (cpuproc s)" "pid_inv (procs s) (nextpid s)"
    "tree_inv (procs s) (initproc s)" "wait_inv B (procs s)"
  using assms by (simp_all add: sys_inv_def)

section \<open>Every step keeps the invariant\<close>

text \<open>The steps that only move a live process between its states, and the others that leave
  the family tree alone.\<close>

lemma sys_inv_small_step:
  assumes "sys_inv B s" "length (procs t) = NPROC" "cpu_inv (procs t) (cpuproc t)"
    "nextpid t = nextpid s" "initproc t = initproc s"
    and "\<And>j. j < NPROC \<Longrightarrow> pid (procs t ! j) = pid (procs s ! j) \<and> parent (procs t ! j) = parent (procs s ! j) \<and>
      (pstate (procs t ! j) = pstate (procs s ! j) \<or> live (pstate (procs t ! j)) \<and> live (pstate (procs s ! j)) \<or>
       pstate (procs t ! j) = UNUSED \<and> pstate (procs s ! j) = EMBRYO) \<and>
      (pstate (procs t ! j) = SLEEPING \<longrightarrow> chan (procs t ! j) = procaddr B j \<longrightarrow>
       pstate (procs s ! j) = SLEEPING \<and> chan (procs s ! j) = procaddr B j)"
  shows "sys_inv B t"
  unfolding sys_inv_def assms(4,5)
proof (intro conjI)
  note inv = sys_invD [OF assms(1)]
  show "pid_inv (procs t) (nextpid s)"
  proof (rule pid_inv_mono [OF inv(3)])
    fix j assume j: "j < NPROC"
    show "pid (procs t ! j) = pid (procs s ! j) \<or> pid (procs t ! j) = 0 \<and> pstate (procs t ! j) = UNUSED"
      using assms(6) [OF j] by simp
    show "pstate (procs t ! j) \<noteq> UNUSED \<Longrightarrow> pstate (procs s ! j) \<noteq> UNUSED"
      using assms(6) [OF j] by (auto simp: live_def)
  qed
  show "tree_inv (procs t) (initproc s)"
  proof (rule tree_inv_mono [OF inv(4)])
    fix j assume j: "j < NPROC"
    show "live (pstate (procs s ! j)) \<Longrightarrow> live (pstate (procs t ! j))"
      using assms(6) [OF j] by (auto simp: live_def)
    show "live (pstate (procs t ! j)) \<or> pstate (procs t ! j) = ZOMBIE \<Longrightarrow>
      (live (pstate (procs s ! j)) \<or> pstate (procs s ! j) = ZOMBIE) \<and> parent (procs t ! j) = parent (procs s ! j)"
      using assms(6) [OF j] by (auto simp: live_def)
  qed
  show "wait_inv B (procs t)"
  proof (rule wait_inv_mono [OF inv(5)])
    fix j assume j: "j < NPROC"
    show "pstate (procs t ! j) = ZOMBIE \<Longrightarrow> pstate (procs s ! j) = ZOMBIE \<and> parent (procs t ! j) = parent (procs s ! j)"
      using assms(6) [OF j] by (auto simp: live_def)
  qed (use assms(6) in blast)+
qed (fact assms(2,3))+

lemma sys_inv_alloc:
  assumes "sys_inv B s" "alloc_slot s = (Some i, t)" "unat (nextpid s) < 4294967295"
  shows "sys_inv B t"
proof -
  note inv = sys_invD [OF assms(1)]
  from assms(2) have i: "i < NPROC" "pstate (procs s ! i) = UNUSED"
    and t: "t = s\<lparr>procs := (procs s)[i := (procs s ! i)\<lparr>pstate := EMBRYO, pid := nextpid s\<rparr>], nextpid := nextpid s + 1\<rparr>"
    using inv(1) by (auto simp: alloc_slot_def first_slot_Some split: option.splits)
  have np: "unat (nextpid s + 1) = Suc (unat (nextpid s))"
    using assms(3) by (subst unat_add_lt) simp_all
  have at: "procs t ! j = (if j = i then (procs s ! i)\<lparr>pstate := EMBRYO, pid := nextpid s\<rparr> else procs s ! j)" for j
    using i inv(1) by (simp add: t nth_list_update)
  have keep: "cpuproc t = cpuproc s" "initproc t = initproc s"
    by (simp_all add: t)
  have small: "j < NPROC \<Longrightarrow> unat (pid (procs s ! j)) < unat (nextpid s)" for j
    using inv(3) by (simp add: pid_inv_def)
  have "pid_inv (procs t) (nextpid t)"
    unfolding pid_inv_def
  proof (intro conjI allI impI)
    fix j assume j: "j < NPROC"
    show "unat (pid (procs t ! j)) < unat (nextpid t)"
      using small [OF j] by (simp add: at) (simp add: t np)
    show "pstate (procs t ! j) \<noteq> UNUSED \<Longrightarrow> pid (procs t ! j) \<noteq> 0"
      using inv(3) j small [OF j] by (auto simp: at pid_inv_def split: if_splits)
    fix k assume k: "k < NPROC" "pstate (procs t ! j) \<noteq> UNUSED" "pstate (procs t ! k) \<noteq> UNUSED"
      "pid (procs t ! j) = pid (procs t ! k)"
    then show "j = k"
      using inv(3) j small [OF j] small [OF k(1)] by (auto simp: at pid_inv_def split: if_splits)
  qed
  moreover have "cpu_inv (procs t) (cpuproc t)"
    unfolding keep by (rule cpu_inv_same [OF inv(2)]) (use i in \<open>simp add: at\<close>)
  moreover have "tree_inv (procs t) (initproc t)"
    unfolding keep by (rule tree_inv_mono [OF inv(4)]) (use i in \<open>auto simp: at live_def split: if_splits\<close>)
  moreover have "wait_inv B (procs t)"
    using i by (intro wait_inv_mono [OF inv(5)]) (auto simp: at split: if_splits)
  ultimately show ?thesis
    using inv(1) by (simp add: sys_inv_def t)
qed

lemma sys_inv_fork:
  assumes "sys_inv B s" "cpuproc s c = Some me" "i < NPROC" "pstate (procs s ! i) = EMBRYO"
  shows "sys_inv B (upd_proc i (\<lambda>p. p\<lparr>parent := Some me, pstate := RUNNABLE\<rparr>) s)" (is "sys_inv B ?t")
proof -
  note inv = sys_invD [OF assms(1)]
  have me: "me < NPROC" "pstate (procs s ! me) = RUNNING"
    using cpu_invD [OF inv(2) assms(2)] by simp_all
  define ps where "ps = (procs s)[i := (procs s ! i)\<lparr>parent := Some me, pstate := RUNNABLE\<rparr>]"
  have at: "ps ! j = (if j = i then (procs s ! i)\<lparr>parent := Some me, pstate := RUNNABLE\<rparr> else procs s ! j)" for j
    using assms(3) inv(1) by (simp add: ps_def nth_list_update)
  obtain z where z: "z < NPROC" "initproc s = Some z" "live (pstate (procs s ! z))" "parent (procs s ! z) = None"
    and up: "\<And>i. i < NPROC \<Longrightarrow> i \<noteq> z \<Longrightarrow> live (pstate (procs s ! i)) \<or> pstate (procs s ! i) = ZOMBIE \<Longrightarrow>
         \<exists>q<NPROC. parent (procs s ! i) = Some q \<and> q \<noteq> i \<and> live (pstate (procs s ! q))"
    by (rule tree_invE [OF inv(4)]) blast
  have zi: "z \<noteq> i" using z(3) assms(4) by (auto simp: live_def)
  have "\<exists>q<NPROC. parent (ps ! j) = Some q \<and> q \<noteq> j \<and> live (pstate (ps ! q))"
    if "j < NPROC" "j \<noteq> z" "live (pstate (ps ! j)) \<or> pstate (ps ! j) = ZOMBIE" for j
  proof (cases "j = i")
    case True
    have "me \<noteq> i" using me(2) assms(4) by auto
    then show ?thesis using True me by (simp add: at live_def)
  next
    case False
    then have "\<exists>q<NPROC. parent (procs s ! j) = Some q \<and> q \<noteq> j \<and> live (pstate (procs s ! q))"
      using up [OF that(1,2)] that(3) by (simp add: at)
    then obtain q where "q < NPROC" "parent (procs s ! j) = Some q" "q \<noteq> j" "live (pstate (procs s ! q))"
      by blast
    then show ?thesis using False by (intro exI [of _ q]) (simp add: at live_def)
  qed
  then have "tree_inv ps (initproc s)"
    unfolding tree_inv_def using z zi by (intro exI [of _ z]) (simp add: at)
  moreover have "cpu_inv ps (cpuproc s)"
    by (rule cpu_inv_same [OF inv(2)]) (use assms(4) in \<open>simp add: at\<close>)
  moreover have "pid_inv ps (nextpid s)"
    by (rule pid_inv_mono [OF inv(3)]) (use assms(4) in \<open>auto simp: at split: if_splits\<close>)
  moreover have "wait_inv B ps"
    by (rule wait_inv_mono [OF inv(5)]) (auto simp: at split: if_splits)
  ultimately show ?thesis
    using inv(1) by (simp add: sys_inv_def upd_proc_def ps_def)
qed

lemma sys_inv_reap:
  assumes "sys_inv B s" "wait_scan me (procs s) = (h, Some i)"
  shows "sys_inv B (s\<lparr>procs := wait_reap i (procs s)\<rparr>)"
proof -
  note inv = sys_invD [OF assms(1)]
  define ps where "ps = wait_reap i (procs s)"
  have i: "i < NPROC" "pstate (procs s ! i) = ZOMBIE"
    using assms(2) inv(1) by (auto simp: wait_scan_def first_slot_Some)
  have at: "j \<noteq> i \<Longrightarrow> ps ! j = procs s ! j" "pstate (ps ! i) = UNUSED" "pid (ps ! i) = 0" for j
    using i inv(1) by (simp_all add: ps_def wait_reap_def)
  have "cpu_inv ps (cpuproc s)"
  proof (rule cpu_inv_same [OF inv(2)])
    show "(pstate (ps ! j) = RUNNING) = (pstate (procs s ! j) = RUNNING)" for j
      using at(1) [of j] at(2) i(2) by (cases "j = i") auto
  qed
  moreover have "pid_inv ps (nextpid s)"
    by (rule pid_inv_mono [OF inv(3)]) (metis at)+
  moreover have "tree_inv ps (initproc s)"
  proof (rule tree_inv_mono [OF inv(4)])
    fix j
    show "live (pstate (procs s ! j)) \<Longrightarrow> live (pstate (ps ! j))"
      using at(1) [of j] i(2) by (cases "j = i") (auto simp: live_def)
    show "live (pstate (ps ! j)) \<or> pstate (ps ! j) = ZOMBIE \<Longrightarrow>
      (live (pstate (procs s ! j)) \<or> pstate (procs s ! j) = ZOMBIE) \<and> parent (ps ! j) = parent (procs s ! j)"
      using at(1) [of j] at(2) by (cases "j = i") (auto simp: live_def)
  qed
  moreover have "wait_inv B ps"
  proof (rule wait_inv_mono [OF inv(5)])
    fix j
    show "pstate (ps ! j) = SLEEPING \<Longrightarrow> chan (ps ! j) = procaddr B j \<Longrightarrow>
        pstate (procs s ! j) = SLEEPING \<and> chan (procs s ! j) = procaddr B j"
      using at(1) [of j] at(2) by (cases "j = i") auto
    show "pstate (ps ! j) = ZOMBIE \<Longrightarrow> pstate (procs s ! j) = ZOMBIE \<and> parent (ps ! j) = parent (procs s ! j)"
      using at(1) [of j] at(2) by (cases "j = i") auto
  qed
  moreover have "length ps = NPROC"
    using inv(1) by (simp add: ps_def wait_reap_def)
  ultimately show ?thesis
    by (simp add: sys_inv_def ps_def)
qed

text \<open>The loop of \<^verbatim>\<open>exit\<close>: the children in the range get a new parent, some sleepers may be
  woken, and if one of the children is a zombie the sleepers on the new parent are.\<close>

definition woken_from :: "procstate \<Rightarrow> procstate \<Rightarrow> bool" where
  "woken_from st st' \<longleftrightarrow> st' = st \<or> st = SLEEPING \<and> st' = RUNNABLE"

lemma reparent_length: "length (reparent1 B ini me i ps) = length ps" "length (reparent B ini me i n ps) = length ps"
proof -
  show one: "length (reparent1 B ini me i ps) = length ps" for i ps
    by (simp add: reparent1_def Let_def)
  show "length (reparent B ini me i n ps) = length ps"
    by (induction n arbitrary: i ps) (simp_all add: one)
qed

lemma reparent1_slot:
  assumes "i < length ps" "j < length ps"
  shows "pid (reparent1 B ini me i ps ! j) = pid (ps ! j)" "chan (reparent1 B ini me i ps ! j) = chan (ps ! j)"
    "parent (reparent1 B ini me i ps ! j) = (if j = i \<and> parent (ps ! j) = Some me then ini else parent (ps ! j))"
    "woken_from (pstate (ps ! j)) (pstate (reparent1 B ini me i ps ! j))"
  using assms by (auto simp: reparent1_def Let_def woken_from_def nth_list_update)

lemma reparent_slot:
  assumes "i + n \<le> length ps" "j < length ps"
  shows "pid (reparent B ini me i n ps ! j) = pid (ps ! j) \<and> chan (reparent B ini me i n ps ! j) = chan (ps ! j) \<and>
    parent (reparent B ini me i n ps ! j) = (if i \<le> j \<and> j < i + n \<and> parent (ps ! j) = Some me then ini else parent (ps ! j)) \<and>
    woken_from (pstate (ps ! j)) (pstate (reparent B ini me i n ps ! j))"
  using assms
proof (induction n arbitrary: i ps)
  case 0
  then show ?case by (auto simp: woken_from_def)
next
  case (Suc n)
  have a: "i < length ps" "Suc i + n \<le> length (reparent1 B ini me i ps)" "j < length (reparent1 B ini me i ps)"
    using Suc.prems by (simp_all add: reparent_length)
  have "i \<le> j \<and> j < i + Suc n \<longleftrightarrow> j = i \<or> Suc i \<le> j \<and> j < Suc i + n"
    by auto
  then show ?case
    using reparent1_slot [OF a(1) Suc.prems(2), of B ini me] Suc.IH [OF a(2,3)]
    unfolding reparent.simps by (auto simp: woken_from_def split: if_splits)
qed

lemma reparent_wakes:
  assumes "i + n \<le> length ps" "i \<le> k" "k < i + n" "parent (ps ! k) = Some me" "pstate (ps ! k) = ZOMBIE" "j < length ps"
  shows "\<not> (pstate (reparent B ini me i n ps ! j) = SLEEPING \<and> chan (reparent B ini me i n ps ! j) = procptr B ini)"
  using assms
proof (induction n arbitrary: i ps)
  case (Suc n)
  define ps' where "ps' = reparent1 B ini me i ps"
  have len: "length ps' = length ps" by (simp add: ps'_def reparent_length)
  show ?case
  proof (cases "k = i")
    case True
    then have "\<not> (pstate (ps' ! j) = SLEEPING \<and> chan (ps' ! j) = procptr B ini)"
      using Suc.prems by (simp add: ps'_def reparent1_def Let_def nth_list_update)
    then show ?thesis
      using reparent_slot [of "Suc i" n ps' j B ini me] Suc.prems len
      by (auto simp: ps'_def [symmetric] woken_from_def)
  next
    case False
    have "parent (ps' ! k) = Some me" "pstate (ps' ! k) = ZOMBIE"
      using reparent1_slot [of i ps k B ini me] Suc.prems False by (auto simp: ps'_def woken_from_def)
    then show ?thesis
      using Suc.IH [of "Suc i" ps'] Suc.prems False len by (simp add: ps'_def)
  qed
qed simp

lemma exit_table_slot:
  assumes "length (procs s) = NPROC" "me < NPROC" "j < NPROC"
  shows "pid (procs (exit_table B me s) ! j) = pid (procs s ! j) \<and>
    chan (procs (exit_table B me s) ! j) = chan (procs s ! j) \<and>
    parent (procs (exit_table B me s) ! j) = (if parent (procs s ! j) = Some me then initproc s else parent (procs s ! j)) \<and>
    (if j = me then pstate (procs (exit_table B me s) ! j) = ZOMBIE
     else woken_from (pstate (procs s ! j)) (pstate (procs (exit_table B me s) ! j)))"
proof -
  define ps where "ps = wakeup1 (procptr B (parent (procs s ! me))) (procs s)"
  have "length ps = NPROC" "pid (ps ! j) = pid (procs s ! j)" "chan (ps ! j) = chan (procs s ! j)"
    "parent (ps ! j) = parent (procs s ! j)" "woken_from (pstate (procs s ! j)) (pstate (ps ! j))"
    using assms by (simp_all add: ps_def woken_from_def)
  then show ?thesis
    using reparent_slot [of 0 NPROC ps j B "initproc s" me] assms
    by (auto simp: exit_table_def ps_def [symmetric] Let_def reparent_length nth_list_update woken_from_def)
qed

lemma exit_table_wakes:
  assumes "length (procs s) = NPROC" "me < NPROC" "q < NPROC" "k < NPROC"
    and "k = me \<and> parent (procs s ! me) = Some q \<or>
      k \<noteq> me \<and> parent (procs s ! k) = Some me \<and> pstate (procs s ! k) = ZOMBIE \<and> initproc s = Some q"
  shows "\<not> (pstate (procs (exit_table B me s) ! q) = SLEEPING \<and> chan (procs (exit_table B me s) ! q) = procaddr B q)"
proof -
  define ps where "ps = wakeup1 (procptr B (parent (procs s ! me))) (procs s)"
  define ps' where "ps' = reparent B (initproc s) me 0 NPROC ps"
  have len: "length ps = NPROC" using assms(1) by (simp add: ps_def)
  have "\<not> (pstate (ps' ! q) = SLEEPING \<and> chan (ps' ! q) = procaddr B q)"
    using assms(5)
  proof
    assume "k = me \<and> parent (procs s ! me) = Some q"
    then have "\<not> (pstate (ps ! q) = SLEEPING \<and> chan (ps ! q) = procaddr B q)"
      using assms(1,3) by (simp add: ps_def procptr_def)
    then show ?thesis
      using reparent_slot [of 0 NPROC ps q B "initproc s" me] len assms(3)
      by (auto simp: ps'_def woken_from_def)
  next
    assume k: "k \<noteq> me \<and> parent (procs s ! k) = Some me \<and> pstate (procs s ! k) = ZOMBIE \<and> initproc s = Some q"
    then have "parent (ps ! k) = Some me" "pstate (ps ! k) = ZOMBIE"
      using assms(1,4) by (simp_all add: ps_def)
    then show ?thesis
      using reparent_wakes [of 0 NPROC ps k me q B "initproc s"] len assms(3,4) k
      by (simp add: ps'_def procptr_def)
  qed
  then show ?thesis
    using assms(2,3) len by (simp add: exit_table_def Let_def ps_def [symmetric] ps'_def [symmetric] nth_list_update)
      (simp add: ps'_def reparent_length nth_list_update)
qed

lemma sys_inv_exit:
  assumes "sys_inv B s" "cpuproc s c = Some me" "initproc s \<noteq> Some me"
  shows "sys_inv B ((exit_table B me s)\<lparr>cpuproc := (cpuproc s)(c := None)\<rparr>)"
proof -
  note inv = sys_invD [OF assms(1)]
  have me: "me < NPROC" "pstate (procs s ! me) = RUNNING"
    using cpu_invD [OF inv(2) assms(2)] by simp_all
  define ps where "ps = procs (exit_table B me s)"
  note slot = exit_table_slot [OF inv(1) me(1), of _ B, folded ps_def]
  obtain z where z: "z < NPROC" "initproc s = Some z" "live (pstate (procs s ! z))" "parent (procs s ! z) = None"
    and up: "\<And>i. i < NPROC \<Longrightarrow> i \<noteq> z \<Longrightarrow> live (pstate (procs s ! i)) \<or> pstate (procs s ! i) = ZOMBIE \<Longrightarrow>
         \<exists>q<NPROC. parent (procs s ! i) = Some q \<and> q \<noteq> i \<and> live (pstate (procs s ! q))"
    by (rule tree_invE [OF inv(4)]) blast
  have zme: "z \<noteq> me" using assms(3) z(2) by auto
  have other: "live (pstate (ps ! j)) = live (pstate (procs s ! j))" "(pstate (ps ! j) = ZOMBIE) = (pstate (procs s ! j) = ZOMBIE)"
    if "j < NPROC" "j \<noteq> me" for j
    using slot [OF that(1)] that(2) by (auto simp: woken_from_def live_def)
  have "cpu_inv ps ((cpuproc s)(c := None))"
  proof (rule cpu_inv_off [OF inv(2) assms(2)])
    show "(pstate (ps ! j) = RUNNING) = (pstate (procs s ! j) = RUNNING \<and> j \<noteq> me)" if "j < NPROC" for j
      using slot [OF that] by (auto simp: woken_from_def split: if_splits)
  qed
  moreover have "pid_inv ps (nextpid s)"
  proof (rule pid_inv_mono [OF inv(3)])
    fix j assume j: "j < NPROC"
    show "pid (ps ! j) = pid (procs s ! j) \<or> pid (ps ! j) = 0 \<and> pstate (ps ! j) = UNUSED"
      using slot [OF j] by simp
    show "pstate (ps ! j) \<noteq> UNUSED \<Longrightarrow> pstate (procs s ! j) \<noteq> UNUSED"
      using slot [OF j] me(2) by (auto simp: woken_from_def split: if_splits)
  qed
  moreover have "tree_inv ps (initproc s)"
  proof -
    have "\<exists>q<NPROC. parent (ps ! i) = Some q \<and> q \<noteq> i \<and> live (pstate (ps ! q))"
      if i: "i < NPROC" "i \<noteq> z" "live (pstate (ps ! i)) \<or> pstate (ps ! i) = ZOMBIE" for i
    proof (cases "parent (procs s ! i) = Some me")
      case True
      then show ?thesis using slot [OF i(1)] z zme i(2) other(1) by auto
    next
      case False
      have "live (pstate (procs s ! i)) \<or> pstate (procs s ! i) = ZOMBIE"
        using i(3) other [OF i(1)] me(2) by (cases "i = me") (auto simp: live_def)
      then obtain q where "q < NPROC" "parent (procs s ! i) = Some q" "q \<noteq> i" "live (pstate (procs s ! q))"
        using up [OF i(1,2)] by blast
      then show ?thesis using slot [OF i(1)] False other(1) [of q] by auto
    qed
    moreover have "live (pstate (ps ! z))" "parent (ps ! z) = None"
      using slot [OF z(1)] z other(1) [OF z(1) zme] by auto
    ultimately show ?thesis
      unfolding tree_inv_def using z by (intro exI [of _ z]) simp
  qed
  moreover have "wait_inv B ps"
    unfolding wait_inv_def
  proof (intro allI impI notI)
    fix q i assume q: "q < NPROC" "i < NPROC" "pstate (ps ! q) = SLEEPING" "chan (ps ! q) = procaddr B q"
      "pstate (ps ! i) = ZOMBIE" "parent (ps ! i) = Some q"
    show False
    proof (cases "i = me \<and> parent (procs s ! me) = Some q \<or>
        i \<noteq> me \<and> parent (procs s ! i) = Some me \<and> pstate (procs s ! i) = ZOMBIE \<and> initproc s = Some q")
      case True
      then show False
        using exit_table_wakes [OF inv(1) me(1) q(1,2) True, of B] q(3,4) by (simp add: ps_def)
    next
      case False
      have "parent (procs s ! me) \<noteq> Some me"
        using up [OF me(1)] zme me(2) by (auto simp: live_def)
      then have "i \<noteq> me" "parent (procs s ! i) = Some q"
        using slot [OF q(2)] q(6) other(2) [OF q(2)] q(5) False by (auto split: if_splits)
      then show False
        using inv(5) slot [OF q(1)] q other(2) [OF q(2)] unfolding wait_inv_def woken_from_def
        by (auto split: if_splits)
    qed
  qed
  moreover have "length ps = NPROC"
    using inv(1) by (simp add: ps_def exit_table_def Let_def reparent_length)
  moreover have "nextpid (exit_table B me s) = nextpid s" "initproc (exit_table B me s) = initproc s"
    by (simp_all add: exit_table_def Let_def)
  ultimately show ?thesis
    by (simp add: sys_inv_def ps_def)
qed

lemma sys_inv_wait_sleep:
  assumes "sys_inv B s" "cpuproc s c = Some me" "wait_scan me (procs s) = (True, None)"
  shows "sys_inv B (s\<lparr>procs := sleep_enter (procaddr B me) me (procs s), cpuproc := (cpuproc s)(c := None)\<rparr>)"
proof -
  note inv = sys_invD [OF assms(1)]
  have me: "me < NPROC" "pstate (procs s ! me) = RUNNING"
    using cpu_invD [OF inv(2) assms(2)] by simp_all
  define ps where "ps = sleep_enter (procaddr B me) me (procs s)"
  have at: "ps ! j = (if j = me then (procs s ! me)\<lparr>chan := procaddr B me, pstate := SLEEPING\<rparr> else procs s ! j)" for j
    using me inv(1) by (simp add: ps_def sleep_enter_def nth_list_update)
  have nozombie: "parent (procs s ! i) \<noteq> Some me" if "i < NPROC" "pstate (procs s ! i) = ZOMBIE" for i
    using assms(3) that inv(1) by (force simp: wait_scan_def first_slot_None)
  have "wait_inv B ps"
    using inv(5) nozombie unfolding wait_inv_def by (auto simp: at split: if_splits)
  moreover have "cpu_inv ps ((cpuproc s)(c := None))"
    by (rule cpu_inv_off [OF inv(2) assms(2)]) (auto simp: at)
  moreover have "pid_inv ps (nextpid s)"
    by (rule pid_inv_mono [OF inv(3)]) (use me in \<open>auto simp: at split: if_splits\<close>)
  moreover have "tree_inv ps (initproc s)"
    by (rule tree_inv_mono [OF inv(4)]) (use me in \<open>auto simp: at live_def split: if_splits\<close>)
  ultimately show ?thesis
    using inv(1) by (simp add: sys_inv_def ps_def sleep_enter_def)
qed

lemma procaddr_me: "ch \<notin> procaddr B ` {..<NPROC} \<Longrightarrow> j < NPROC \<Longrightarrow> ch \<noteq> procaddr B j"
  by blast

lemma kill_cases:
  obtains "kill n s = (- 1, s)"
  | i where "i < length (procs s)" "kill n s = (0, s\<lparr>procs := (procs s)[i := (procs s ! i)\<lparr>killed := 1,
      pstate := if pstate (procs s ! i) = SLEEPING then RUNNABLE else pstate (procs s ! i)\<rparr>]\<rparr>)"
proof (cases "first_slot (\<lambda>p. pid p = n) (procs s)")
  case None
  then show ?thesis using that(1) by (simp add: kill_def)
next
  case (Some i)
  moreover from this have "i < length (procs s)" by (simp add: first_slot_Some)
  ultimately show ?thesis using that(2) [of i] by (simp add: kill_def Let_def)
qed

lemma sys_inv_step:
  assumes "proc_step B s t" "sys_inv B s" "unat (nextpid s) < 4294967295"
  shows "sys_inv B t"
  using assms(1)
proof cases
  case (alloc c me i)
  then show ?thesis using sys_inv_alloc assms by blast
next
  case (fork c me i)
  then show ?thesis using sys_inv_fork [OF assms(2)] by blast
next
  case (exit c me)
  then show ?thesis using sys_inv_exit [OF assms(2)] by blast
next
  case (wait_reap c me h i)
  then show ?thesis using sys_inv_reap [OF assms(2)] by blast
next
  case (wait_sleep c me)
  then show ?thesis using sys_inv_wait_sleep [OF assms(2)] by blast
next
  case (alloc_undo i)
  note inv = sys_invD [OF assms(2)]
  have "cpu_inv (procs t) (cpuproc s)"
    by (rule cpu_inv_same [OF inv(2)]) (use inv(1) alloc_undo in \<open>auto simp: upd_proc_def nth_list_update\<close>)
  then show ?thesis
    using inv(1) alloc_undo(2,3) by (intro sys_inv_small_step [OF assms(2)])
      (auto simp: alloc_undo(1) upd_proc_def nth_list_update live_def)
next
  case (pick c i)
  have "cpu_inv (procs t) ((cpuproc s)(c := Some i))"
    by (rule cpu_inv_on [OF sys_invD(2) [OF assms(2)]])
      (use pick sys_invD(1) [OF assms(2)] in \<open>auto simp: upd_proc_def nth_list_update\<close>)
  then show ?thesis
    using sys_invD(1) [OF assms(2)] pick
    by (intro sys_inv_small_step [OF assms(2)]) (auto simp: upd_proc_def nth_list_update live_def)
next
  case (yield c me)
  note inv = sys_invD [OF assms(2)] and me = cpu_invD [OF sys_invD(2) [OF assms(2)] yield(2)]
  have "cpu_inv (procs t) ((cpuproc s)(c := None))"
    by (rule cpu_inv_off [OF inv(2) yield(2)])
      (use inv(1) me in \<open>auto simp: yield(1) yield_enter_def nth_list_update\<close>)
  then show ?thesis
    using inv(1) me by (intro sys_inv_small_step [OF assms(2)])
      (auto simp: yield(1) yield_enter_def nth_list_update live_def)
next
  case (sleep c me ch)
  note inv = sys_invD [OF assms(2)] and me = cpu_invD [OF sys_invD(2) [OF assms(2)] sleep(2)]
  have "cpu_inv (procs t) ((cpuproc s)(c := None))"
    by (rule cpu_inv_off [OF inv(2) sleep(2)])
      (use inv(1) me in \<open>auto simp: sleep(1) sleep_enter_def nth_list_update\<close>)
  then show ?thesis
    using inv(1) me procaddr_me [OF sleep(3)] by (intro sys_inv_small_step [OF assms(2)])
      (auto simp: sleep(1) sleep_enter_def nth_list_update live_def)
next
  case (woken c me)
  note inv = sys_invD [OF assms(2)] and me = cpu_invD [OF sys_invD(2) [OF assms(2)] woken(2)]
  have "cpu_inv (procs t) (cpuproc s)"
    by (rule cpu_inv_same [OF inv(2)])
      (use inv(1) me in \<open>auto simp: woken(1) sleep_return_def nth_list_update\<close>)
  then show ?thesis
    using inv(1) me by (intro sys_inv_small_step [OF assms(2)])
      (auto simp: woken(1) sleep_return_def nth_list_update live_def)
next
  case (wakeup ch)
  note inv = sys_invD [OF assms(2)]
  have "cpu_inv (procs t) (cpuproc s)"
    by (rule cpu_inv_same [OF inv(2)]) (use inv(1) in \<open>auto simp: wakeup wakeup_def\<close>)
  then show ?thesis
    using inv(1) by (intro sys_inv_small_step [OF assms(2)]) (auto simp: wakeup wakeup_def live_def)
next
  case (kill n)
  note inv = sys_invD [OF assms(2)]
  show ?thesis
  proof (cases rule: kill_cases [of n s])
    case 1
    then show ?thesis using kill assms(2) by simp
  next
    case (2 i)
    have "cpu_inv (procs t) (cpuproc s)"
      by (rule cpu_inv_same [OF inv(2)]) (use inv(1) 2 in \<open>auto simp: kill nth_list_update\<close>)
    then show ?thesis
      using inv(1) 2 by (intro sys_inv_small_step [OF assms(2)])
        (auto simp: kill nth_list_update live_def split: if_splits)
  qed
qed

lemma nextpid_step:
  assumes "proc_step B s t" "unat (nextpid s) < 4294967295"
  shows "unat (nextpid t) \<le> Suc (unat (nextpid s))"
  using assms(1)
proof cases
  case (alloc c me i)
  have "unat (nextpid s + 1) = Suc (unat (nextpid s))"
    using assms(2) by (subst unat_add_lt) simp_all
  then show ?thesis using alloc by (auto simp: alloc_slot_def split: option.splits)
next
  case (kill n)
  show ?thesis by (cases rule: kill_cases [of n s]) (simp_all add: kill)
qed (simp_all add: upd_proc_def wakeup_def exit_table_def Let_def)

lemma sys_inv_booted:
  assumes "booted s"
  shows "sys_inv B s"
proof -
  have b: "length (procs s) = NPROC" "initproc s = Some 0" "nextpid s = 2" "parent (procs s ! 0) = None"
    "\<And>c. cpuproc s c = None"
    using assms by (simp_all add: booted_def)
  have slot: "pstate (procs s ! j) = (if j = 0 then RUNNABLE else UNUSED)" "pid (procs s ! j) = (if j = 0 then 1 else 0)"
    if "j < NPROC" for j
    using assms that by (simp_all add: booted_def)
  have "cpu_inv (procs s) (cpuproc s)"
    unfolding cpu_inv_def by (simp add: b slot)
  moreover have "pid_inv (procs s) (nextpid s)"
    unfolding pid_inv_def by (simp add: b slot)
  moreover have "tree_inv (procs s) (initproc s)"
    unfolding tree_inv_def using b(4) by (intro exI [of _ 0]) (simp add: b slot live_def NPROC_def)
  moreover have "wait_inv B (procs s)"
    unfolding wait_inv_def by (simp add: slot)
  ultimately show ?thesis using b(1) by (simp add: sys_inv_def)
qed

lemma proc_run_inv:
  "proc_run B k s \<Longrightarrow> k < 4294967290 \<Longrightarrow> sys_inv B s \<and> unat (nextpid s) \<le> k + 2"
proof (induction rule: proc_run.induct)
  case (boot s)
  then show ?case by (auto simp: sys_inv_booted) (simp add: booted_def)
next
  case (step k s t)
  then show ?case using sys_inv_step [OF step.hyps(2)] nextpid_step [OF step.hyps(2)] by force
qed

text \<open>
  C17: In every run of the process table of fewer than 4294967290 sections under the lock, on
  any number of processors: a process is running exactly when one processor runs it, and then
  only one; two used slots never have the same process number; a zombie always has a live
  parent to reap it; and no process is asleep in \<^verbatim>\<open>wait\<close> while it has a zombie child, so
  the wakeup of \<^verbatim>\<open>exit\<close> is never lost.
\<close>

theorem process_table_invariant:
  assumes "proc_run B k s" "k < 4294967290" "i < NPROC" "j < NPROC"
  shows "(pstate (procs s ! i) = RUNNING \<longleftrightarrow> (\<exists>!c. cpuproc s c = Some i)) \<and>
    (pstate (procs s ! i) \<noteq> UNUSED \<and> pstate (procs s ! j) \<noteq> UNUSED \<and> pid (procs s ! i) = pid (procs s ! j) \<longrightarrow> i = j) \<and>
    (pstate (procs s ! i) = ZOMBIE \<longrightarrow> (\<exists>q<NPROC. parent (procs s ! i) = Some q \<and> live (pstate (procs s ! q)))) \<and>
    \<not> (pstate (procs s ! i) = ZOMBIE \<and> parent (procs s ! i) = Some j \<and>
       pstate (procs s ! j) = SLEEPING \<and> chan (procs s ! j) = procaddr B j)"
proof (intro conjI)
  note inv = sys_invD [OF conjunct1 [OF proc_run_inv [OF assms(1,2)]]]
  show "pstate (procs s ! i) = RUNNING \<longleftrightarrow> (\<exists>!c. cpuproc s c = Some i)"
    using inv(2) assms(3) unfolding cpu_inv_def by blast
  show "pstate (procs s ! i) \<noteq> UNUSED \<and> pstate (procs s ! j) \<noteq> UNUSED \<and> pid (procs s ! i) = pid (procs s ! j) \<longrightarrow> i = j"
    using inv(3) assms(3,4) unfolding pid_inv_def by blast
  show "pstate (procs s ! i) = ZOMBIE \<longrightarrow> (\<exists>q<NPROC. parent (procs s ! i) = Some q \<and> live (pstate (procs s ! q)))"
    using inv(4) assms(3) unfolding tree_inv_def by (auto simp: live_def)
  show "\<not> (pstate (procs s ! i) = ZOMBIE \<and> parent (procs s ! i) = Some j \<and>
       pstate (procs s ! j) = SLEEPING \<and> chan (procs s ! j) = procaddr B j)"
    using inv(5) assms(3,4) unfolding wait_inv_def by blast
qed

definition demo_proc :: proc where
  "demo_proc = \<lparr>sz = 0, pgdir = 0, kstack = 0, pstate = UNUSED, pid = 0, parent = None, tf = 0, pcontext = 0,
     chan = 0, killed = 0, ofile = replicate 16 None, cwd = None, pname = replicate 16 0\<rparr>"

definition demo_sys :: sys where
  "demo_sys = \<lparr>procs = demo_proc\<lparr>pstate := RUNNABLE, pid := 1\<rparr> # replicate 63 demo_proc, nextpid = 2,
     initproc = Some 0, cpuproc = \<lambda>_. None\<rparr>"

theorem kill_zero_poisons_next_process_witness:
  "fst (kill 0 demo_sys) = 0 \<and>
    (\<exists>t'. alloc_slot (snd (kill 0 demo_sys)) = (Some 1, t') \<and> killed (procs t' ! 1) = 1)"
  by (rule kill_zero_poisons_next_process)
    (auto simp: demo_sys_def demo_proc_def first_slot_Some nth_Cons split: nat.splits)

definition demo_running :: sys where
  "demo_running = (upd_proc 0 (\<lambda>p. p\<lparr>pstate := RUNNING\<rparr>) demo_sys)\<lparr>cpuproc := (\<lambda>_. None)(3 := Some 0)\<rparr>"

lemma demo_running_run: "proc_run 0x80112d54 1 demo_running"
proof -
  have "booted demo_sys"
    by (auto simp: booted_def demo_sys_def demo_proc_def NPROC_def nth_Cons split: nat.splits)
  moreover have "proc_step 0x80112d54 demo_sys demo_running"
    using proc_step.pick [of demo_sys 3 0 "0x80112d54"]
    by (simp add: demo_running_def demo_sys_def NPROC_def)
  ultimately show ?thesis
    using proc_run.step [OF proc_run.boot] by force
qed

theorem process_table_invariant_witness:
  "\<exists>!c. cpuproc demo_running c = Some 0"
  using process_table_invariant [OF demo_running_run, of 0 0]
  by (simp add: NPROC_def) (simp add: demo_running_def upd_proc_def demo_sys_def)

section \<open>The scheduler's loop\<close>

text \<open>One turn of the inner loop of \<^verbatim>\<open>scheduler\<close> at slot \<open>i\<close>: the process it switches to, if
  any, and the next slot. Past the last slot the outer loop starts again at slot 0. Between
  two turns the table may change in any way.\<close>

definition scheduler_turn :: "nat \<Rightarrow> proc list \<Rightarrow> nat option \<times> nat" where
  "scheduler_turn i ps =
     (if i < NPROC then (if pstate (ps ! i) \<noteq> RUNNABLE then None else Some i, Suc i) else (None, 0))"

primrec scheduler_slot :: "nat \<Rightarrow> (nat \<Rightarrow> proc list) \<Rightarrow> nat \<Rightarrow> nat" where
  "scheduler_slot i tab 0 = i"
| "scheduler_slot i tab (Suc k) = snd (scheduler_turn (scheduler_slot i tab k) (tab k))"

lemma scheduler_slot_eq: "i \<le> NPROC \<Longrightarrow> scheduler_slot i tab k = (i + k) mod Suc NPROC"
  by (induction k) (auto simp: scheduler_turn_def mod_Suc NPROC_def)

text \<open>
  C20: The scheduler starves nobody: whatever happens to the table between its turns, a
  process that stays runnable is switched to within the next 65 turns of the loop.
\<close>

theorem scheduler_fair:
  assumes "i \<le> NPROC" "j < NPROC" "\<forall>k \<le> NPROC. pstate (tab k ! j) = RUNNABLE"
  shows "\<exists>k \<le> NPROC. fst (scheduler_turn (scheduler_slot i tab k) (tab k)) = Some j"
proof -
  define k where "k = (if i \<le> j then j - i else Suc NPROC + j - i)"
  have "k \<le> NPROC" "(i + k) mod Suc NPROC = j"
    using assms(1,2) by (auto simp: k_def NPROC_def mod_if)
  then show ?thesis
    using assms by (intro exI [of _ k]) (simp add: scheduler_slot_eq scheduler_turn_def)
qed

theorem scheduler_fair_witness:
  "\<exists>k \<le> NPROC. fst (scheduler_turn (scheduler_slot 64 (\<lambda>_. procs demo_sys) k) (procs demo_sys)) = Some 0"
  using scheduler_fair [of 64 0 "\<lambda>_. procs demo_sys"] by (simp add: NPROC_def demo_sys_def)

end
