(* ===== verification/Sleeplock.thy ===== *)
theory Sleeplock
  imports Ptable
begin

text \<open>
  Sleeping locks (\<^verbatim>\<open>sleeplock.c\<close>) and the hand-over between \<^verbatim>\<open>sleep\<close> and \<^verbatim>\<open>wakeup\<close> in
  \<^verbatim>\<open>proc.c\<close>. The first half gives the routines as one kernel thread sees them. The second
  half interleaves the single steps of \<^verbatim>\<open>acquiresleep\<close>, \<^verbatim>\<open>sleep\<close>, \<^verbatim>\<open>releasesleep\<close> and
  \<^verbatim>\<open>wakeup\<close>, run by any number of processes on one lock, with the two spin locks they take;
  it shows that the lock has one holder, that no wakeup is lost, and that the processes cannot
  block each other on the spin locks.
\<close>

section \<open>The routines\<close>

record sleeplock =
  slocked :: u32
  slk :: spinlock
  slname :: string
  spid :: i32

definition initsleeplock :: "sleeplock \<Rightarrow> string \<Rightarrow> sleeplock" where
  "initsleeplock lk name = lk\<lparr>slk := initlock (slk lk) ''sleep lock'', slname := name, slocked := 0, spid := 0\<rparr>"

text \<open>For process number \<open>me\<close>, when no other process runs: a lock that is taken is waited
  for for ever.\<close>

definition acquiresleep :: "i32 \<Rightarrow> sleeplock \<Rightarrow> (unit, sleeplock) outcome" where
  "acquiresleep me lk = (if slocked lk \<noteq> 0 then Diverge else Ok () (lk\<lparr>slocked := 1, spid := me\<rparr>))"

definition releasesleep :: "sleeplock \<Rightarrow> sleeplock" where
  "releasesleep lk = lk\<lparr>slocked := 0, spid := 0\<rparr>"

definition holdingsleep :: "i32 \<Rightarrow> sleeplock \<Rightarrow> bool" where
  "holdingsleep me lk \<longleftrightarrow> slocked lk \<noteq> 0 \<and> spid lk = me"

lemma holdingsleep_acquire [simp]:
  "acquiresleep me lk = Ok u lk' \<Longrightarrow> holdingsleep me lk'"
  "\<not> holdingsleep me (releasesleep lk)"
  by (auto simp: acquiresleep_def holdingsleep_def releasesleep_def split: if_splits)

section \<open>Interleaved steps\<close>

text \<open>
  Where a process stands in the routines. In \<^verbatim>\<open>acquiresleep\<close>: about to take the inner spin
  lock, holding it at the test of \<^verbatim>\<open>locked\<close>, and done but still holding it. In \<^verbatim>\<open>sleep\<close>: about
  to take \<^verbatim>\<open>ptable.lock\<close> (holding the inner lock), holding both, holding only
  \<^verbatim>\<open>ptable.lock\<close>, switched away, running again with \<^verbatim>\<open>ptable.lock\<close>, and about to take the
  inner lock again. Then the owner of the sleeping lock, and in \<^verbatim>\<open>releasesleep\<close>: about to take
  the inner lock, holding it, about to call \<^verbatim>\<open>wakeup\<close>, in \<^verbatim>\<open>wakeup\<close> with \<^verbatim>\<open>ptable.lock\<close>, and
  about to release the inner lock.
\<close>

datatype at = Idle | Acq | Test | Done | Sl_ptable | Sl_both | Sl_mark | Away | Back | Again
  | Own | Rel | Clear | Wake_ptable | Wake_all | Unlock

record slsys =
  pc :: "nat \<Rightarrow> at"
  sl :: sleeplock
  lkown :: "nat option"
  ptown :: "nat option"
  tab :: "proc list"

inductive sl_step :: "u32 \<Rightarrow> slsys \<Rightarrow> slsys \<Rightarrow> bool" for ch where
  begin_acquire: "pc s p = Idle \<Longrightarrow> p < length (tab s) \<Longrightarrow> sl_step ch s (s\<lparr>pc := (pc s)(p := Acq)\<rparr>)"
| acquire_lk: "pc s p = Acq \<or> pc s p = Again \<Longrightarrow> lkown s = None \<Longrightarrow>
    sl_step ch s (s\<lparr>pc := (pc s)(p := Test), lkown := Some p\<rparr>)"
| test_free: "pc s p = Test \<Longrightarrow> slocked (sl s) = 0 \<Longrightarrow>
    sl_step ch s (s\<lparr>pc := (pc s)(p := Done), sl := (sl s)\<lparr>slocked := 1, spid := pid (tab s ! p)\<rparr>\<rparr>)"
| test_taken: "pc s p = Test \<Longrightarrow> slocked (sl s) \<noteq> 0 \<Longrightarrow> sl_step ch s (s\<lparr>pc := (pc s)(p := Sl_ptable)\<rparr>)"
| acquired: "pc s p = Done \<Longrightarrow> sl_step ch s (s\<lparr>pc := (pc s)(p := Own), lkown := None\<rparr>)"
| sleep_ptable: "pc s p = Sl_ptable \<Longrightarrow> ptown s = None \<Longrightarrow>
    sl_step ch s (s\<lparr>pc := (pc s)(p := Sl_both), ptown := Some p\<rparr>)"
| sleep_release: "pc s p = Sl_both \<Longrightarrow> sl_step ch s (s\<lparr>pc := (pc s)(p := Sl_mark), lkown := None\<rparr>)"
| sleep_sched: "pc s p = Sl_mark \<Longrightarrow>
    sl_step ch s (s\<lparr>pc := (pc s)(p := Away), tab := sleep_enter ch p (tab s), ptown := None\<rparr>)"
| killed: "p < length (tab s) \<Longrightarrow> pstate (tab s ! p) = SLEEPING \<Longrightarrow>
    sl_step ch s (s\<lparr>tab := (tab s)[p := (tab s ! p)\<lparr>killed := 1, pstate := RUNNABLE\<rparr>]\<rparr>)"
| resume: "pc s p = Away \<Longrightarrow> pstate (tab s ! p) = RUNNABLE \<Longrightarrow> ptown s = None \<Longrightarrow>
    sl_step ch s (s\<lparr>pc := (pc s)(p := Back), tab := (tab s)[p := (tab s ! p)\<lparr>pstate := RUNNING\<rparr>], ptown := Some p\<rparr>)"
| sleep_return: "pc s p = Back \<Longrightarrow>
    sl_step ch s (s\<lparr>pc := (pc s)(p := Again), tab := sleep_return p (tab s), ptown := None\<rparr>)"
| begin_release: "pc s p = Own \<Longrightarrow> sl_step ch s (s\<lparr>pc := (pc s)(p := Rel)\<rparr>)"
| release_lk: "pc s p = Rel \<Longrightarrow> lkown s = None \<Longrightarrow> sl_step ch s (s\<lparr>pc := (pc s)(p := Clear), lkown := Some p\<rparr>)"
| release_clear: "pc s p = Clear \<Longrightarrow> sl_step ch s (s\<lparr>pc := (pc s)(p := Wake_ptable), sl := releasesleep (sl s)\<rparr>)"
| wakeup_ptable: "pc s p = Wake_ptable \<Longrightarrow> ptown s = None \<Longrightarrow>
    sl_step ch s (s\<lparr>pc := (pc s)(p := Wake_all), ptown := Some p\<rparr>)"
| wakeup_all: "pc s p = Wake_all \<Longrightarrow>
    sl_step ch s (s\<lparr>pc := (pc s)(p := Unlock), tab := wakeup1 ch (tab s), ptown := None\<rparr>)"
| released: "pc s p = Unlock \<Longrightarrow> sl_step ch s (s\<lparr>pc := (pc s)(p := Idle), lkown := None\<rparr>)"

inductive sl_reach :: "u32 \<Rightarrow> slsys \<Rightarrow> bool" for ch where
  init: "\<forall>p. pc s p = Idle \<Longrightarrow> slocked (sl s) = 0 \<Longrightarrow> lkown s = None \<Longrightarrow> ptown s = None \<Longrightarrow>
    sl_reach ch s"
| step: "sl_reach ch s \<Longrightarrow> sl_step ch s t \<Longrightarrow> sl_reach ch t"

text \<open>The places where a process holds the inner spin lock, \<^verbatim>\<open>ptable.lock\<close>, the sleeping
  lock.\<close>

definition has_lk :: "at set" where
  "has_lk = {Test, Done, Sl_ptable, Sl_both, Clear, Wake_ptable, Wake_all, Unlock}"

definition has_pt :: "at set" where
  "has_pt = {Sl_both, Sl_mark, Back, Wake_all}"

definition has_sl :: "at set" where
  "has_sl = {Done, Own, Rel, Clear}"

text \<open>\<open>o\<close> is the one process whose place is in \<open>A\<close>, if there is one.\<close>

definition sole :: "at set \<Rightarrow> (nat \<Rightarrow> at) \<Rightarrow> nat option \<Rightarrow> bool" where
  "sole A f ow \<longleftrightarrow> (\<forall>p. (f p \<in> A) = (ow = Some p))"

definition holder_inv :: "(nat \<Rightarrow> at) \<Rightarrow> bool \<Rightarrow> bool" where
  "holder_inv f taken \<longleftrightarrow> (\<exists>ow. sole has_sl f ow \<and> taken = (ow \<noteq> None))"

definition waiting_inv :: "u32 \<Rightarrow> (nat \<Rightarrow> at) \<Rightarrow> bool \<Rightarrow> proc list \<Rightarrow> bool" where
  "waiting_inv ch f taken ps \<longleftrightarrow>
     (\<forall>p. f p \<noteq> Idle \<longrightarrow> p < length ps) \<and>
     (\<forall>p. f p = Sl_ptable \<or> f p = Sl_both \<longrightarrow> taken) \<and>
     (\<forall>p. f p = Sl_mark \<longrightarrow> taken \<or> (\<exists>q. f q = Wake_ptable)) \<and>
     (\<forall>p. f p = Away \<longrightarrow> pstate (ps ! p) = RUNNABLE \<or> pstate (ps ! p) = SLEEPING \<and> chan (ps ! p) = ch \<and>
        (taken \<or> (\<exists>q. f q = Wake_ptable \<or> f q = Wake_all)))"

definition sl_inv :: "u32 \<Rightarrow> slsys \<Rightarrow> bool" where
  "sl_inv ch s \<longleftrightarrow> sole has_lk (pc s) (lkown s) \<and> sole has_pt (pc s) (ptown s) \<and>
     holder_inv (pc s) (slocked (sl s) \<noteq> 0) \<and> waiting_inv ch (pc s) (slocked (sl s) \<noteq> 0) (tab s)"

lemma sole_unique: "sole A f ow \<Longrightarrow> f p \<in> A \<Longrightarrow> ow = Some p"
  by (simp add: sole_def)

lemma sole_keep: "sole A f ow \<Longrightarrow> (x \<in> A) = (f p \<in> A) \<Longrightarrow> sole A (f(p := x)) ow"
  by (auto simp: sole_def)

lemma sole_take: "sole A f None \<Longrightarrow> x \<in> A \<Longrightarrow> sole A (f(p := x)) (Some p)"
  by (auto simp: sole_def)

lemma sole_drop: "sole A f ow \<Longrightarrow> f p \<in> A \<Longrightarrow> x \<notin> A \<Longrightarrow> sole A (f(p := x)) None"
  by (auto simp: sole_def)

text \<open>A step that does not touch the sleeping lock keeps its owner when the place of the
  process stays on the same side of \<^const>\<open>has_sl\<close>.\<close>

lemma holder_keep:
  assumes "holder_inv f taken" "(x \<in> has_sl) = (f p \<in> has_sl)"
  shows "holder_inv (f(p := x)) taken"
  using assms sole_keep unfolding holder_inv_def by blast

lemma holder_take:
  assumes "holder_inv f False" "x \<in> has_sl"
  shows "holder_inv (f(p := x)) True"
proof -
  have "sole has_sl f None" using assms(1) by (simp add: holder_inv_def)
  then show ?thesis using sole_take [OF _ assms(2)] by (auto simp: holder_inv_def)
qed

lemma holder_drop:
  assumes "holder_inv f taken" "f p \<in> has_sl" "x \<notin> has_sl"
  shows "holder_inv (f(p := x)) False"
  using assms sole_drop by (auto simp: holder_inv_def)

lemma place_mem:
  "x \<in> has_lk \<longleftrightarrow> x \<in> {Test, Done, Sl_ptable, Sl_both, Clear, Wake_ptable, Wake_all, Unlock}"
  "x \<in> has_pt \<longleftrightarrow> x \<in> {Sl_both, Sl_mark, Back, Wake_all}"
  "x \<in> has_sl \<longleftrightarrow> x \<in> {Done, Own, Rel, Clear}"
  by (simp_all add: has_lk_def has_pt_def has_sl_def)

text \<open>Waiting processes across a step of one process.\<close>

lemma waiting_move:
  assumes "waiting_inv ch f taken ps" "p < length ps \<or> x = Idle" "x = Sl_ptable \<or> x = Sl_both \<longrightarrow> taken"
    and "x \<noteq> Away" "x = Sl_mark \<longrightarrow> taken \<or> (\<exists>q. q \<noteq> p \<and> f q = Wake_ptable)"
    and "f p = Wake_ptable \<longrightarrow> x = Wake_all \<and> (\<forall>q. f q \<noteq> Sl_mark)" "f p \<noteq> Wake_all"
  shows "waiting_inv ch (f(p := x)) taken ps"
  unfolding waiting_inv_def
proof (intro conjI allI impI)
  fix q
  show "(f(p := x)) q \<noteq> Idle \<Longrightarrow> q < length ps" "(f(p := x)) q = Sl_ptable \<or> (f(p := x)) q = Sl_both \<Longrightarrow> taken"
    using assms(1-3) unfolding waiting_inv_def by (auto split: if_splits)
  show "taken \<or> (\<exists>q. (f(p := x)) q = Wake_ptable)" if "(f(p := x)) q = Sl_mark"
  proof (cases "q = p")
    case True
    then show ?thesis using assms(5) that by auto
  next
    case False
    then have "taken \<or> (\<exists>q. f q = Wake_ptable)" "f q = Sl_mark"
      using assms(1) that unfolding waiting_inv_def by auto
    then show ?thesis using assms(6) by auto
  qed
  assume a: "(f(p := x)) q = Away"
  then have "q \<noteq> p" "f q = Away" using assms(4) by (auto split: if_splits)
  then consider "pstate (ps ! q) = RUNNABLE" | "pstate (ps ! q) = SLEEPING" "chan (ps ! q) = ch" "taken"
    | r where "pstate (ps ! q) = SLEEPING" "chan (ps ! q) = ch" "f r = Wake_ptable \<or> f r = Wake_all"
    using assms(1) unfolding waiting_inv_def by blast
  then show "pstate (ps ! q) = RUNNABLE \<or> pstate (ps ! q) = SLEEPING \<and> chan (ps ! q) = ch \<and>
      (taken \<or> (\<exists>r. (f(p := x)) r = Wake_ptable \<or> (f(p := x)) r = Wake_all))"
  proof cases
    case 3
    then have "(f(p := x)) r = Wake_ptable \<or> (f(p := x)) r = Wake_all"
      using assms(6,7) by (cases "r = p") auto
    then show ?thesis using 3 by blast
  qed simp_all
qed

lemma waiting_invD:
  assumes "waiting_inv ch f taken ps"
  shows "f p \<noteq> Idle \<Longrightarrow> p < length ps" "f p = Sl_ptable \<or> f p = Sl_both \<Longrightarrow> taken"
    "f p = Sl_mark \<Longrightarrow> taken \<or> (\<exists>q. f q = Wake_ptable)"
    "f p = Away \<Longrightarrow> pstate (ps ! p) = RUNNABLE \<or> pstate (ps ! p) = SLEEPING \<and> chan (ps ! p) = ch \<and>
        (taken \<or> (\<exists>q. f q = Wake_ptable \<or> f q = Wake_all))"
  using assms unfolding waiting_inv_def by blast+

text \<open>A step that changes the table: the slots of the processes that are away stay as they
  are or become runnable.\<close>

lemma waiting_table:
  assumes "waiting_inv ch f taken ps" "length ps' = length ps"
    and "\<And>q. f q = Away \<Longrightarrow> ps' ! q = ps ! q \<or> pstate (ps' ! q) = RUNNABLE"
  shows "waiting_inv ch f taken ps'"
  using assms unfolding waiting_inv_def by metis

lemma sl_invD:
  assumes "sl_inv ch s"
  shows "sole has_lk (pc s) (lkown s)" "sole has_pt (pc s) (ptown s)"
    "holder_inv (pc s) (slocked (sl s) \<noteq> 0)"
    "waiting_inv ch (pc s) (slocked (sl s) \<noteq> 0) (tab s)"
  using assms by (simp_all add: sl_inv_def)

lemma waiting_away:
  assumes "waiting_inv ch f taken ps" "f p = Sl_mark"
  shows "waiting_inv ch (f(p := Away)) taken (sleep_enter ch p ps)"
proof -
  have p: "p < length ps" "taken \<or> (\<exists>q. q \<noteq> p \<and> f q = Wake_ptable)"
  proof -
    show "p < length ps" using waiting_invD(1) [OF assms(1), of p] assms(2) by simp
    have "q \<noteq> p" if "f q = Wake_ptable" for q using that assms(2) by auto
    then show "taken \<or> (\<exists>q. q \<noteq> p \<and> f q = Wake_ptable)"
      using waiting_invD(3) [OF assms(1,2)] by blast
  qed
  have at: "sleep_enter ch p ps ! q = (if q = p then (ps ! p)\<lparr>chan := ch, pstate := SLEEPING\<rparr> else ps ! q)" for q
    using p(1) by (simp add: sleep_enter_def nth_list_update)
  have wake: "(\<exists>q. f q = Wake_ptable \<or> f q = Wake_all) \<Longrightarrow> \<exists>q. (f(p := Away)) q = Wake_ptable \<or> (f(p := Away)) q = Wake_all"
    "(\<exists>q. f q = Wake_ptable) \<Longrightarrow> \<exists>q. (f(p := Away)) q = Wake_ptable"
  proof -
    have "(f(p := Away)) q = f q" if "f q = Wake_ptable \<or> f q = Wake_all" for q using that assms(2) by auto
    then show "(\<exists>q. f q = Wake_ptable \<or> f q = Wake_all) \<Longrightarrow> \<exists>q. (f(p := Away)) q = Wake_ptable \<or> (f(p := Away)) q = Wake_all"
      "(\<exists>q. f q = Wake_ptable) \<Longrightarrow> \<exists>q. (f(p := Away)) q = Wake_ptable"
      by metis+
  qed
  show ?thesis
    unfolding waiting_inv_def
  proof (intro conjI allI impI)
    fix q
    show "(f(p := Away)) q \<noteq> Idle \<Longrightarrow> q < length (sleep_enter ch p ps)"
      "(f(p := Away)) q = Sl_ptable \<or> (f(p := Away)) q = Sl_both \<Longrightarrow> taken"
      using waiting_invD(1,2) [OF assms(1), of q] p(1) by (auto simp: sleep_enter_def split: if_splits)
    show "taken \<or> (\<exists>q. (f(p := Away)) q = Wake_ptable)" if "(f(p := Away)) q = Sl_mark"
    proof -
      have "f q = Sl_mark" using that by (auto split: if_splits)
      then show ?thesis using waiting_invD(3) [OF assms(1)] wake(2) by blast
    qed
    assume a: "(f(p := Away)) q = Away"
    show "pstate (sleep_enter ch p ps ! q) = RUNNABLE \<or>
        pstate (sleep_enter ch p ps ! q) = SLEEPING \<and> chan (sleep_enter ch p ps ! q) = ch \<and>
        (taken \<or> (\<exists>q. (f(p := Away)) q = Wake_ptable \<or> (f(p := Away)) q = Wake_all))"
    proof (cases "q = p")
      case True
      have "taken \<or> (\<exists>q. (f(p := Away)) q = Wake_ptable \<or> (f(p := Away)) q = Wake_all)"
        using p(2) wake(1) by blast
      then show ?thesis using True by (simp add: at)
    next
      case False
      then have q: "f q = Away" "sleep_enter ch p ps ! q = ps ! q" using a by (simp_all add: at)
      show ?thesis
        unfolding q(2) using waiting_invD(4) [OF assms(1) q(1)] wake(1) by blast
    qed
  qed
qed

lemma waiting_set: "waiting_inv ch f taken ps \<Longrightarrow> f p = Test \<Longrightarrow> waiting_inv ch (f(p := Done)) True ps"
  unfolding waiting_inv_def by (simp split: if_splits) blast

lemma waiting_clear:
  assumes "waiting_inv ch f taken ps" "f p = Clear" "sole has_lk f (Some p)"
  shows "waiting_inv ch (f(p := Wake_ptable)) False ps"
proof -
  have none: "f q \<noteq> Sl_ptable" "f q \<noteq> Sl_both" for q
    using assms(2) sole_unique [OF assms(3), of q] by (auto simp: has_lk_def)
  have there: "(f(p := Wake_ptable)) p = Wake_ptable" by simp
  show ?thesis
    unfolding waiting_inv_def
  proof (intro conjI allI impI)
    fix q
    show "(f(p := Wake_ptable)) q \<noteq> Idle \<Longrightarrow> q < length ps"
      using waiting_invD(1) [OF assms(1), of q] assms(2) by (auto split: if_splits)
    show "(f(p := Wake_ptable)) q = Sl_ptable \<or> (f(p := Wake_ptable)) q = Sl_both \<Longrightarrow> False"
      using none by (auto split: if_splits)
    show "False \<or> (\<exists>q. (f(p := Wake_ptable)) q = Wake_ptable)"
      using there by blast
    assume "(f(p := Wake_ptable)) q = Away"
    then have "f q = Away" by (auto split: if_splits)
    then show "pstate (ps ! q) = RUNNABLE \<or> pstate (ps ! q) = SLEEPING \<and> chan (ps ! q) = ch \<and>
        (False \<or> (\<exists>q. (f(p := Wake_ptable)) q = Wake_ptable \<or> (f(p := Wake_ptable)) q = Wake_all))"
      using waiting_invD(4) [OF assms(1)] there by blast
  qed
qed

lemma waiting_woken:
  assumes "waiting_inv ch f taken ps" "f p = Wake_all" "sole has_pt f (Some p)"
  shows "waiting_inv ch (f(p := Unlock)) taken (wakeup1 ch ps)"
proof -
  have none: "f q \<noteq> Sl_mark" for q
    using assms(2) sole_unique [OF assms(3), of q] by (auto simp: has_pt_def)
  have run: "pstate (wakeup1 ch ps ! q) = RUNNABLE" if "f q = Away" for q
    using waiting_invD(1,4) [OF assms(1), of q] that by auto
  have "p < length ps" using waiting_invD(1) [OF assms(1), of p] assms(2) by simp
  then show ?thesis
    using assms(1) none run unfolding waiting_inv_def by (auto split: if_splits)
qed

lemma sl_inv_step:
  assumes "sl_step ch s t" "sl_inv ch s"
  shows "sl_inv ch t"
  using assms(1)
proof cases
  note inv = sl_invD [OF assms(2)] and wait = waiting_invD [OF sl_invD(4) [OF assms(2)]]
  note keep = sole_keep [OF inv(1)] sole_keep [OF inv(2)] holder_keep [OF inv(3)]
  have taken: "(x \<in> has_sl) = (pc s p \<in> has_sl) \<Longrightarrow> holder_inv ((pc s)(p := x)) True"
    "p < length (tab s) \<Longrightarrow> pc s p \<noteq> Wake_ptable \<Longrightarrow> pc s p \<noteq> Wake_all \<Longrightarrow> x \<noteq> Away \<Longrightarrow>
      waiting_inv ch ((pc s)(p := x)) True (tab s)" if "slocked (sl s) \<noteq> 0" for p x
    using that inv(3,4) by (auto intro: holder_keep waiting_move)
  {
    case (begin_acquire p)
    then show ?thesis
      by (auto simp: sl_inv_def place_mem intro!: keep waiting_move [OF inv(4)])
  next
    case (acquire_lk p)
    then show ?thesis using inv(1) wait(1) [of p]
      by (auto simp: sl_inv_def place_mem intro!: keep sole_take waiting_move [OF inv(4)])
  next
    case (test_free p)
    then have "holder_inv ((pc s)(p := Done)) True" "waiting_inv ch ((pc s)(p := Done)) True (tab s)"
      using inv(3,4) by (auto simp: place_mem intro: holder_take waiting_set)
    then show ?thesis using test_free
      by (auto simp: sl_inv_def place_mem intro!: keep)
  next
    case (test_taken p)
    show ?thesis using test_taken wait(1) [of p]
      by (auto simp: sl_inv_def place_mem intro!: keep taken [OF test_taken(3)])
  next
    case (acquired p)
    then show ?thesis using wait(1) [of p]
      by (auto simp: sl_inv_def place_mem intro!: keep sole_drop [OF inv(1)] waiting_move [OF inv(4)])
  next
    case (sleep_ptable p)
    then have "slocked (sl s) \<noteq> 0" using wait(2) [of p] by simp
    then show ?thesis using sleep_ptable inv(2) wait(1) [of p]
      by (auto simp: sl_inv_def place_mem intro!: keep sole_take taken)
  next
    case (sleep_release p)
    then have "slocked (sl s) \<noteq> 0" using wait(2) [of p] by simp
    then show ?thesis using sleep_release wait(1) [of p]
      by (auto simp: sl_inv_def place_mem intro!: keep sole_drop [OF inv(1)] taken)
  next
    case (sleep_sched p)
    then show ?thesis
      by (auto simp: sl_inv_def place_mem intro!: keep sole_drop [OF inv(2)] waiting_away [OF inv(4)])
  next
    case (killed p)
    have "waiting_inv ch (pc s) (slocked (sl s) \<noteq> 0) (tab t)"
      by (rule waiting_table [OF inv(4)]) (use killed in \<open>auto simp: nth_list_update\<close>)
    then show ?thesis using inv killed by (auto simp: sl_inv_def)
  next
    case (resume p)
    have "waiting_inv ch ((pc s)(p := Back)) (slocked (sl s) \<noteq> 0) (tab t)"
      by (rule waiting_table [OF waiting_move [OF inv(4), of p Back]])
        (use resume wait(1) [of p] in \<open>auto simp: nth_list_update split: if_splits\<close>)
    then show ?thesis using inv(2) resume
      by (auto simp: sl_inv_def place_mem intro!: keep sole_take)
  next
    case (sleep_return p)
    have "waiting_inv ch ((pc s)(p := Again)) (slocked (sl s) \<noteq> 0) (tab t)"
      by (rule waiting_table [OF waiting_move [OF inv(4), of p Again]])
        (use sleep_return wait(1) [of p] in \<open>auto simp: sleep_return_def nth_list_update split: if_splits\<close>)
    then show ?thesis using sleep_return
      by (auto simp: sl_inv_def place_mem intro!: keep sole_drop [OF inv(2)])
  next
    case (begin_release p)
    then show ?thesis using wait(1) [of p]
      by (auto simp: sl_inv_def place_mem intro!: keep waiting_move [OF inv(4)])
  next
    case (release_lk p)
    then show ?thesis using inv(1) wait(1) [of p]
      by (auto simp: sl_inv_def place_mem intro!: keep sole_take waiting_move [OF inv(4)])
  next
    case (release_clear p)
    have "holder_inv ((pc s)(p := Wake_ptable)) False"
      using release_clear(2) by (intro holder_drop [OF inv(3)]) (auto simp: place_mem)
    moreover have "sole has_lk (pc s) (Some p)"
      using inv(1) release_clear(2) sole_unique [OF inv(1), of p] by (auto simp: place_mem)
    ultimately show ?thesis using release_clear waiting_clear [OF inv(4), of p]
      by (auto simp: sl_inv_def releasesleep_def place_mem intro!: keep)
  next
    case (wakeup_ptable p)
    have "pc s q \<noteq> Sl_mark" for q
      using sole_unique [OF inv(2), of q] wakeup_ptable(3) by (auto simp: place_mem)
    then show ?thesis using wakeup_ptable inv(2) wait(1) [of p]
      by (auto simp: sl_inv_def place_mem intro!: keep sole_take waiting_move [OF inv(4)])
  next
    case (wakeup_all p)
    have "sole has_pt (pc s) (Some p)"
      using inv(2) wakeup_all(2) sole_unique [OF inv(2), of p] by (auto simp: place_mem)
    then show ?thesis using wakeup_all
      by (auto simp: sl_inv_def place_mem intro!: keep sole_drop [OF inv(2)] waiting_woken [OF inv(4)])
  next
    case (released p)
    then show ?thesis
      by (auto simp: sl_inv_def place_mem intro!: keep sole_drop [OF inv(1)] waiting_move [OF inv(4)])
  }
qed

lemma sl_reach_inv: "sl_reach ch s \<Longrightarrow> sl_inv ch s"
proof (induction rule: sl_reach.induct)
  case (init s)
  then have "sole A (pc s) None" if "Idle \<notin> A" for A using that by (simp add: sole_def)
  then show ?case
    using init by (auto simp: sl_inv_def holder_inv_def place_mem waiting_inv_def)
next
  case (step s t)
  then show ?case by (blast intro: sl_inv_step)
qed

text \<open>A process holding a spin lock can always go on.\<close>

lemma lock_holder_moves:
  assumes "sl_inv ch s"
  shows "ptown s = Some q \<Longrightarrow> \<exists>t. sl_step ch s t \<and> pc t q \<noteq> pc s q"
    "ptown s = None \<Longrightarrow> lkown s = Some q \<Longrightarrow> \<exists>t. sl_step ch s t \<and> pc t q \<noteq> pc s q"
proof -
  note inv = sl_invD [OF assms]
  assume "ptown s = Some q"
  then have "pc s q \<in> has_pt" using inv(2) by (simp add: sole_def)
  then consider "pc s q = Sl_both" | "pc s q = Sl_mark" | "pc s q = Back" | "pc s q = Wake_all"
    by (auto simp: place_mem)
  then show "\<exists>t. sl_step ch s t \<and> pc t q \<noteq> pc s q"
    by cases (force dest: sl_step.sleep_release sl_step.sleep_sched sl_step.sleep_return sl_step.wakeup_all)+
next
  note inv = sl_invD [OF assms]
  assume a: "ptown s = None" "lkown s = Some q"
  then have "pc s q \<in> has_lk" "pc s q \<notin> has_pt" using inv(1,2) by (simp_all add: sole_def)
  then consider "pc s q = Test" "slocked (sl s) = 0" | "pc s q = Test" "slocked (sl s) \<noteq> 0" | "pc s q = Done" | "pc s q = Sl_ptable" | "pc s q = Clear"
    | "pc s q = Wake_ptable" | "pc s q = Unlock"
    by (auto simp: place_mem)
  then show "\<exists>t. sl_step ch s t \<and> pc t q \<noteq> pc s q"
    using a(1) by cases (force dest: sl_step.test_free sl_step.test_taken sl_step.acquired sl_step.sleep_ptable
      sl_step.release_clear sl_step.wakeup_ptable sl_step.released)+
qed

text \<open>
  C16: However \<^verbatim>\<open>acquiresleep\<close>, \<^verbatim>\<open>releasesleep\<close>, \<^verbatim>\<open>sleep\<close> and \<^verbatim>\<open>wakeup\<close> interleave, a sleeping
  lock has at most one holder, and no wakeup is lost: a process asleep on the lock is asleep
  while the lock is held or while the wakeup of a release is still to come. The two spin
  locks never deadlock: while some process is inside the routines and not asleep, some
  process inside them can take a step.
\<close>

theorem sleeplock_no_lost_wakeup:
  assumes "sl_reach ch s"
  shows "(pc s p \<in> has_sl \<and> pc s q \<in> has_sl \<longrightarrow> p = q) \<and>
    (pc s p = Away \<and> pstate (tab s ! p) = SLEEPING \<longrightarrow>
      (\<exists>q. pc s q \<in> has_sl) \<or> (\<exists>q. pc s q = Wake_ptable \<or> pc s q = Wake_all)) \<and>
    (pc s p \<noteq> Idle \<and> pc s p \<noteq> Own \<and> \<not> (pc s p = Away \<and> pstate (tab s ! p) = SLEEPING) \<longrightarrow>
      (\<exists>t q. sl_step ch s t \<and> pc s q \<noteq> Idle \<and> pc s q \<noteq> Own \<and> pc t q \<noteq> pc s q))"
proof (intro conjI impI)
  note inv = sl_invD [OF sl_reach_inv [OF assms]]
  show "pc s p \<in> has_sl \<and> pc s q \<in> has_sl \<Longrightarrow> p = q"
    using inv(3) by (auto simp: holder_inv_def sole_def)
  show "(\<exists>q. pc s q \<in> has_sl) \<or> (\<exists>q. pc s q = Wake_ptable \<or> pc s q = Wake_all)"
    if "pc s p = Away \<and> pstate (tab s ! p) = SLEEPING"
    using waiting_invD(4) [OF inv(4), of p] inv(3) that by (auto simp: holder_inv_def sole_def)
  assume p: "pc s p \<noteq> Idle \<and> pc s p \<noteq> Own \<and> \<not> (pc s p = Away \<and> pstate (tab s ! p) = SLEEPING)"
  show "\<exists>t q. sl_step ch s t \<and> pc s q \<noteq> Idle \<and> pc s q \<noteq> Own \<and> pc t q \<noteq> pc s q"
  proof (cases "ptown s")
    case (Some q)
    then have "pc s q \<in> has_pt" using inv(2) by (simp add: sole_def)
    then have "pc s q \<noteq> Idle" "pc s q \<noteq> Own" by (auto simp: place_mem)
    then show ?thesis using lock_holder_moves(1) [OF sl_reach_inv [OF assms] Some] by blast
  next
    case pt: None
    show ?thesis
    proof (cases "lkown s")
      case (Some q)
      then have "pc s q \<in> has_lk" using inv(1) by (simp add: sole_def)
      then have "pc s q \<noteq> Idle" "pc s q \<noteq> Own" by (auto simp: place_mem)
      then show ?thesis using lock_holder_moves(2) [OF sl_reach_inv [OF assms] pt Some] by blast
    next
      case None
      then have "pc s p \<notin> has_lk" "pc s p \<notin> has_pt" using inv(1,2) pt by (simp_all add: sole_def)
      then consider "pc s p = Acq" | "pc s p = Again" | "pc s p = Away" "pstate (tab s ! p) = RUNNABLE" | "pc s p = Rel"
        using p waiting_invD(4) [OF inv(4), of p] by (cases "pc s p") (auto simp: place_mem)
      then have "\<exists>t. sl_step ch s t \<and> pc t p \<noteq> pc s p"
        using pt None by cases (force dest: sl_step.acquire_lk [OF disjI1] sl_step.acquire_lk [OF disjI2] sl_step.resume sl_step.release_lk)+
      then show ?thesis using p by blast
    qed
  qed
qed

definition demo_sl :: slsys where
  "demo_sl = \<lparr>pc = (\<lambda>_. Idle)(2 := Acq), sl = \<lparr>slocked = 0, slk = demo_lock, slname = ''buffer'', spid = 0\<rparr>,
     lkown = None, ptown = None, tab = replicate 64 demo_proc\<rparr>"

theorem sleeplock_no_lost_wakeup_witness:
  "\<exists>t q. sl_step 4 demo_sl t \<and> pc demo_sl q \<noteq> Idle \<and> pc t q \<noteq> pc demo_sl q"
proof -
  have "sl_reach 4 (demo_sl\<lparr>pc := \<lambda>_. Idle\<rparr>)"
    by (rule sl_reach.init) (simp_all add: demo_sl_def)
  then have "sl_reach 4 demo_sl"
    by (rule sl_reach.step) (use sl_step.begin_acquire [of "demo_sl\<lparr>pc := \<lambda>_. Idle\<rparr>" 2 4] in \<open>simp add: demo_sl_def\<close>)
  moreover have "pc demo_sl 2 \<noteq> Idle" "pc demo_sl 2 \<noteq> Own" "pc demo_sl 2 \<noteq> Away"
    by (simp_all add: demo_sl_def)
  ultimately show ?thesis
    using sleeplock_no_lost_wakeup [of 4 demo_sl 2] by blast
qed

end
