(* ===== verification/Bio.thy ===== *)
theory Bio
  imports Sleeplock
begin

text \<open>
  The buffer cache (\<^verbatim>\<open>bio.c\<close>) on the memory disk (\<^verbatim>\<open>memide.c\<close>), as one kernel thread sees it:
  thirty buffers on a doubly linked list in order of use, \<^verbatim>\<open>bget\<close> with its two scans,
  \<^verbatim>\<open>bread\<close>, \<^verbatim>\<open>bwrite\<close>, \<^verbatim>\<open>brelse\<close>, \<^verbatim>\<open>iderw\<close>. The linked list is refined to a list of buffer
  numbers, and the cache to the contents of the blocks: reading, releasing and recycling
  buffers never changes what a block contains.
\<close>

section \<open>Buffers\<close>

definition NBUF :: nat where
  "NBUF = 30"

definition BSIZE :: nat where
  "BSIZE = 512"

definition B_VALID :: i32 where
  "B_VALID = 2"

definition B_DIRTY :: i32 where
  "B_DIRTY = 4"

text \<open>\<^verbatim>\<open>struct buf\<close>; a pointer to a buffer of the cache is its index, and index \<^const>\<open>NBUF\<close> is
  \<^verbatim>\<open>bcache.head\<close>.\<close>

record buf =
  flags :: i32
  bdev :: u32
  blockno :: u32
  blk :: sleeplock
  refcnt :: u32
  bprev :: nat
  bnext :: nat
  bdata :: "u8 list"

text \<open>The cache and the disk. \<open>written\<close> records the blocks written to the disk, in order; no
  routine reads it.\<close>

record bio =
  bufs :: "nat \<Rightarrow> buf"
  disk :: "u32 \<Rightarrow> u8 list"
  disksize :: u32
  written :: "(u32 \<times> u8 list) list"

definition upd_buf :: "nat \<Rightarrow> (buf \<Rightarrow> buf) \<Rightarrow> 'a bio_scheme \<Rightarrow> 'a bio_scheme" where
  "upd_buf i f s = s\<lparr>bufs := (bufs s)(i := f (bufs s i))\<rparr>"

section \<open>The routines\<close>

definition binit_link :: "nat \<Rightarrow> 'a bio_scheme \<Rightarrow> 'a bio_scheme" where
  "binit_link b s =
     (let s = upd_buf b (\<lambda>x. x\<lparr>bnext := bnext (bufs s NBUF), bprev := NBUF, blk := initsleeplock (blk x) ''buffer''\<rparr>) s;
          s = upd_buf (bnext (bufs s NBUF)) (\<lambda>x. x\<lparr>bprev := b\<rparr>) s
      in upd_buf NBUF (\<lambda>x. x\<lparr>bnext := b\<rparr>) s)"

definition binit :: "'a bio_scheme \<Rightarrow> 'a bio_scheme" where
  "binit s = fold binit_link [0..<NBUF] (upd_buf NBUF (\<lambda>x. x\<lparr>bprev := NBUF, bnext := NBUF\<rparr>) s)"

text \<open>The scans of \<^verbatim>\<open>bget\<close> along \<open>nx\<close> (\<^const>\<open>bnext\<close> or \<^const>\<open>bprev\<close>) from buffer \<open>b\<close> on. There are
  only \<open>NBUF + 1\<close> nodes, so a scan that has taken more steps never ends (\<open>None\<close>).\<close>

primrec scan :: "(buf \<Rightarrow> nat) \<Rightarrow> (buf \<Rightarrow> bool) \<Rightarrow> (nat \<Rightarrow> buf) \<Rightarrow> nat \<Rightarrow> nat \<Rightarrow> nat option option" where
  "scan nx P f b 0 = None"
| "scan nx P f b (Suc n) = (if b = NBUF then Some None else if P (f b) then Some (Some b) else scan nx P f (nx (f b)) n)"

definition lock_buf :: "i32 \<Rightarrow> nat \<Rightarrow> 'a bio_scheme \<Rightarrow> (nat, 'a bio_scheme) outcome" where
  "lock_buf me b s = (case acquiresleep me (blk (bufs s b)) of
     Ok _ lk \<Rightarrow> Ok b (upd_buf b (\<lambda>x. x\<lparr>blk := lk\<rparr>) s) | Panic m \<Rightarrow> Panic m | Fault m \<Rightarrow> Fault m | Diverge \<Rightarrow> Diverge)"

definition bget :: "i32 \<Rightarrow> u32 \<Rightarrow> u32 \<Rightarrow> 'a bio_scheme \<Rightarrow> (nat, 'a bio_scheme) outcome" where
  "bget me dev bno s =
     (case scan bnext (\<lambda>x. bdev x = dev \<and> blockno x = bno) (bufs s) (bnext (bufs s NBUF)) (Suc NBUF) of
        None \<Rightarrow> Diverge
      | Some (Some b) \<Rightarrow> lock_buf me b (upd_buf b (\<lambda>x. x\<lparr>refcnt := refcnt x + 1\<rparr>) s)
      | Some None \<Rightarrow>
        (case scan bprev (\<lambda>x. refcnt x = 0 \<and> flags x AND B_DIRTY = 0) (bufs s) (bprev (bufs s NBUF)) (Suc NBUF) of
           None \<Rightarrow> Diverge
         | Some (Some b) \<Rightarrow>
             lock_buf me b (upd_buf b (\<lambda>x. x\<lparr>bdev := dev, blockno := bno, flags := 0, refcnt := 1\<rparr>) s)
         | Some None \<Rightarrow> Panic ''bget: no buffers''))"

text \<open>\<^verbatim>\<open>iderw\<close> of \<^verbatim>\<open>memide.c\<close>.\<close>

definition iderw :: "i32 \<Rightarrow> nat \<Rightarrow> 'a bio_scheme \<Rightarrow> (unit, 'a bio_scheme) outcome" where
  "iderw me b s =
     (let x = bufs s b in
      if \<not> holdingsleep me (blk x) then Panic ''iderw: buf not locked''
      else if flags x AND (B_VALID OR B_DIRTY) = B_VALID then Panic ''iderw: nothing to do''
      else if bdev x \<noteq> 1 then Panic ''iderw: request not for disk 1''
      else if disksize s \<le> blockno x then Panic ''iderw: block out of range''
      else if flags x AND B_DIRTY \<noteq> 0 then
        Ok () ((upd_buf b (\<lambda>x. x\<lparr>flags := (flags x AND NOT B_DIRTY) OR B_VALID\<rparr>) s)
          \<lparr>disk := (disk s)(blockno x := bdata x), written := written s @ [(blockno x, bdata x)]\<rparr>)
      else Ok () (upd_buf b (\<lambda>y. y\<lparr>bdata := disk s (blockno x), flags := flags y OR B_VALID\<rparr>) s))"

definition bread :: "i32 \<Rightarrow> u32 \<Rightarrow> u32 \<Rightarrow> 'a bio_scheme \<Rightarrow> (nat, 'a bio_scheme) outcome" where
  "bread me dev bno s = bindO (bget me dev bno s) (\<lambda>b s.
     if flags (bufs s b) AND B_VALID = 0 then bindO (iderw me b s) (\<lambda>_ s. Ok b s) else Ok b s)"

definition bwrite :: "i32 \<Rightarrow> nat \<Rightarrow> 'a bio_scheme \<Rightarrow> (unit, 'a bio_scheme) outcome" where
  "bwrite me b s =
     (if \<not> holdingsleep me (blk (bufs s b)) then Panic ''bwrite''
      else iderw me b (upd_buf b (\<lambda>x. x\<lparr>flags := flags x OR B_DIRTY\<rparr>) s))"

definition to_front :: "nat \<Rightarrow> 'a bio_scheme \<Rightarrow> 'a bio_scheme" where
  "to_front b s =
     (let s = upd_buf (bnext (bufs s b)) (\<lambda>x. x\<lparr>bprev := bprev (bufs s b)\<rparr>) s;
          s = upd_buf (bprev (bufs s b)) (\<lambda>x. x\<lparr>bnext := bnext (bufs s b)\<rparr>) s;
          s = upd_buf b (\<lambda>x. x\<lparr>bnext := bnext (bufs s NBUF), bprev := NBUF\<rparr>) s;
          s = upd_buf (bnext (bufs s NBUF)) (\<lambda>x. x\<lparr>bprev := b\<rparr>) s
      in upd_buf NBUF (\<lambda>x. x\<lparr>bnext := b\<rparr>) s)"

definition brelse :: "i32 \<Rightarrow> nat \<Rightarrow> 'a bio_scheme \<Rightarrow> (unit, 'a bio_scheme) outcome" where
  "brelse me b s =
     (if \<not> holdingsleep me (blk (bufs s b)) then Panic ''brelse''
      else let s = upd_buf b (\<lambda>x. x\<lparr>blk := releasesleep (blk x), refcnt := refcnt x - 1\<rparr>) s
        in Ok () (if refcnt (bufs s b) = 0 then to_front b s else s))"

section \<open>The list of buffers\<close>

text \<open>\<open>links nx pv a xs b\<close>: following \<open>nx\<close> from \<open>a\<close> visits \<open>xs\<close> and ends at \<open>b\<close>, and \<open>pv\<close> leads
  back. \<open>ring f xs\<close>: the buffers in order of use, the most recent first.\<close>

primrec links :: "(nat \<Rightarrow> nat) \<Rightarrow> (nat \<Rightarrow> nat) \<Rightarrow> nat \<Rightarrow> nat list \<Rightarrow> nat \<Rightarrow> bool" where
  "links nx pv a [] b \<longleftrightarrow> nx a = b \<and> pv b = a"
| "links nx pv a (x # xs) b \<longleftrightarrow> nx a = x \<and> pv x = a \<and> links nx pv x xs b"

definition ring :: "(nat \<Rightarrow> buf) \<Rightarrow> nat list \<Rightarrow> bool" where
  "ring f xs \<longleftrightarrow> links (\<lambda>x. bnext (f x)) (\<lambda>x. bprev (f x)) NBUF xs NBUF \<and> distinct xs \<and> set xs = {..<NBUF}"

lemma links_append: "links nx pv a (xs @ x # ys) b \<longleftrightarrow> links nx pv a xs x \<and> links nx pv x ys b"
  by (induction xs arbitrary: a) auto

lemma links_cong:
  assumes "\<And>x. x \<in> insert a (set xs) \<Longrightarrow> nx' x = nx x" "\<And>x. x \<in> insert b (set xs) \<Longrightarrow> pv' x = pv x"
  shows "links nx' pv' a xs b = links nx pv a xs b"
  using assms by (induction xs arbitrary: a) auto

lemma ring_cong:
  assumes "\<And>x. bnext (g x) = bnext (f x) \<and> bprev (g x) = bprev (f x)"
  shows "ring g xs = ring f xs"
  using assms by (simp add: ring_def)

lemma ring_length: "ring f xs \<Longrightarrow> length xs = NBUF"
  by (metis ring_def card_lessThan distinct_card)

lemma scan_next:
  assumes "links (\<lambda>x. bnext (f x)) pv a xs NBUF" "set xs \<subseteq> {..<NBUF}" "length xs < n"
  shows "scan bnext P f (bnext (f a)) n = Some (find (\<lambda>i. P (f i)) xs)"
  using assms
proof (induction xs arbitrary: a n)
  case Nil
  then show ?case by (cases n) auto
next
  case (Cons x xs)
  then show ?case by (cases n) auto
qed

lemma scan_prev:
  assumes "links nx (\<lambda>x. bprev (f x)) NBUF xs b" "set xs \<subseteq> {..<NBUF}" "length xs < n"
  shows "scan bprev P f (bprev (f b)) n = Some (find (\<lambda>i. P (f i)) (rev xs))"
  using assms
proof (induction xs arbitrary: b n rule: rev_induct)
  case Nil
  then show ?case by (cases n) auto
next
  case (snoc x xs)
  then have "links nx (\<lambda>x. bprev (f x)) NBUF xs x" "nx x = b" "bprev (f b) = x"
    by (auto simp: links_append)
  then show ?case using snoc by (cases n) auto
qed

text \<open>Redirecting the last link of a path, unlinking a node and linking one in front.\<close>

lemma links_redirect:
  assumes "links nx pv a xs b" "distinct (a # xs)" "c \<notin> set xs"
  shows "links (nx(last (a # xs) := c)) (pv(c := last (a # xs))) a xs c"
  using assms
proof (induction xs arbitrary: a)
  case (Cons x xs)
  then have "a \<noteq> last (x # xs)" by (metis distinct.simps(2) last_in_set list.discI)
  then show ?case using Cons by auto
qed simp

lemma links_unlink:
  assumes "links nx pv h (us @ b # vs) h" "distinct (h # us @ b # vs)"
  shows "links (nx(pv b := nx b)) (pv(nx b := pv b)) h (us @ vs) h"
proof -
  have u: "links nx pv h us b" and v: "links nx pv b vs h"
    using assms(1) by (auto simp: links_append)
  have p: "pv b = last (h # us)"
    using u by (induction us arbitrary: h) auto
  show ?thesis
  proof (cases vs)
    case Nil
    then have "nx b = h" using v by simp
    then show ?thesis using Nil links_redirect [OF u, of h] assms(2) p by auto
  next
    case (Cons q ws)
    then have q: "nx b = q" "links nx pv q ws h" using v by auto
    have "links (nx(last (h # us) := q)) (pv(q := last (h # us))) h us q"
      using links_redirect [OF u, of q] assms(2) Cons by auto
    moreover have "last (h # us) \<notin> insert q (set ws)"
      using last_in_set [of "h # us"] assms(2) Cons by auto
    then have "links (nx(last (h # us) := q)) (pv(q := last (h # us))) q ws h"
      using q(2) assms(2) Cons by (subst links_cong [of q ws _ nx h _ pv]) (auto split: if_splits)
    ultimately show ?thesis using Cons q(1) p by (simp add: links_append)
  qed
qed

lemma links_front:
  assumes "links nx pv h ys h" "distinct (h # ys)" "b \<notin> set (h # ys)"
  shows "links (nx(b := nx h, h := b)) ((pv(b := h))(nx h := b)) h (b # ys) h"
proof (cases ys)
  case Nil
  then show ?thesis using assms by auto
next
  case (Cons q ws)
  then have "links (nx(b := nx h, h := b)) ((pv(b := h))(nx h := b)) q ws h"
    using assms by (subst links_cong [of q ws _ nx h _ pv]) auto
  then show ?thesis using assms Cons by auto
qed

text \<open>What \<^const>\<open>to_front\<close> does to the two link fields.\<close>

lemma upd_buf_links:
  "bnext (bufs (upd_buf i f s) x) = (if x = i then bnext (f (bufs s i)) else bnext (bufs s x))"
  "bprev (bufs (upd_buf i f s) x) = (if x = i then bprev (f (bufs s i)) else bprev (bufs s x))"
  by (simp_all add: upd_buf_def)

lemma to_front_links:
  fixes s :: "'a bio_scheme" and b :: nat
  assumes "b < NBUF"
  defines "nx \<equiv> (\<lambda>x. bnext (bufs s x))" and "pv \<equiv> (\<lambda>x. bprev (bufs s x))"
  defines "nx' \<equiv> nx(pv b := nx b)" and "pv' \<equiv> pv(nx b := pv b)"
  shows "bnext (bufs (to_front b s) x) = (nx'(b := nx' NBUF, NBUF := b)) x"
    "bprev (bufs (to_front b s) x) = ((pv'(b := NBUF))(nx' NBUF := b)) x"
proof -
  define s1 where "s1 = upd_buf (nx b) (\<lambda>x. x\<lparr>bprev := pv b\<rparr>) s"
  have n1: "bnext (bufs s1 x) = nx x" "bprev (bufs s1 x) = pv' x" for x
    by (simp_all add: s1_def upd_buf_links nx_def pv_def pv'_def)
  have p: "bprev (bufs s1 b) = pv b" by (simp add: n1 pv'_def)
  define s2 where "s2 = upd_buf (pv b) (\<lambda>x. x\<lparr>bnext := nx b\<rparr>) s1"
  have n2: "bnext (bufs s2 x) = nx' x" "bprev (bufs s2 x) = pv' x" for x
    by (simp_all add: s2_def upd_buf_links n1 nx'_def)
  define s3 where "s3 = upd_buf b (\<lambda>x. x\<lparr>bnext := nx' NBUF, bprev := NBUF\<rparr>) s2"
  have n3: "bnext (bufs s3 x) = (nx'(b := nx' NBUF)) x" "bprev (bufs s3 x) = (pv'(b := NBUF)) x" for x
    by (simp_all add: s3_def upd_buf_links n2)
  have h: "bnext (bufs s3 NBUF) = nx' NBUF" using assms(1) by (simp add: n3)
  have "to_front b s = upd_buf NBUF (\<lambda>x. x\<lparr>bnext := b\<rparr>) (upd_buf (nx' NBUF) (\<lambda>x. x\<lparr>bprev := b\<rparr>) s3)"
    by (simp only: to_front_def Let_def s1_def [unfolded nx_def pv_def, symmetric] p n1(1) s2_def [symmetric] n2(1)
        s3_def [symmetric] h)
  then show "bnext (bufs (to_front b s) x) = (nx'(b := nx' NBUF, NBUF := b)) x"
    "bprev (bufs (to_front b s) x) = ((pv'(b := NBUF))(nx' NBUF := b)) x"
    by (simp_all add: upd_buf_links n3)
qed

lemma ring_to_front:
  assumes "ring (bufs s) xs" "b < NBUF"
  shows "ring (bufs (to_front b s)) (b # remove1 b xs)"
proof -
  obtain us vs where xs: "xs = us @ b # vs" "b \<notin> set us"
    using assms split_list_first [of b xs] by (force simp: ring_def)
  define nx where "nx = (\<lambda>x. bnext (bufs s x))"
  define pv where "pv = (\<lambda>x. bprev (bufs s x))"
  have ring: "links nx pv NBUF xs NBUF" "distinct xs" "set xs = {..<NBUF}"
    using assms(1) by (auto simp: ring_def nx_def pv_def)
  have d: "distinct (NBUF # us @ b # vs)" using ring xs by auto
  define nx' where "nx' = nx(pv b := nx b)"
  define pv' where "pv' = pv(nx b := pv b)"
  have "links nx' pv' NBUF (us @ vs) NBUF"
    using links_unlink [OF ring(1) [unfolded xs] d] by (simp add: nx'_def pv'_def)
  then have "links (nx'(b := nx' NBUF, NBUF := b)) ((pv'(b := NBUF))(nx' NBUF := b)) NBUF (b # us @ vs) NBUF"
    using d by (intro links_front) auto
  moreover have fe: "(\<lambda>x. bnext (bufs (to_front b s) x)) = nx'(b := nx' NBUF, NBUF := b)"
    "(\<lambda>x. bprev (bufs (to_front b s) x)) = (pv'(b := NBUF))(nx' NBUF := b)"
    using to_front_links [OF assms(2), of s] by (simp_all add: fun_eq_iff nx'_def pv'_def nx_def pv_def)
  moreover have "b # remove1 b xs = b # us @ vs" using xs by (simp add: remove1_append)
  ultimately show ?thesis
    using ring(2,3) xs d unfolding ring_def fe by auto
qed

section \<open>The contents of the blocks\<close>

definition valid :: "buf \<Rightarrow> bool" where
  "valid x \<longleftrightarrow> flags x AND B_VALID \<noteq> 0"

definition dirty :: "buf \<Rightarrow> bool" where
  "dirty x \<longleftrightarrow> flags x AND B_DIRTY \<noteq> 0"

text \<open>Buffer \<open>x\<close> holds block \<open>b\<close> of the disk.\<close>

definition holds :: "u32 \<Rightarrow> buf \<Rightarrow> bool" where
  "holds b x \<longleftrightarrow> bdev x = 1 \<and> blockno x = b"

text \<open>What a block contains: the data of its valid buffer if there is one, else what the disk
  has.\<close>

definition content :: "'a bio_scheme \<Rightarrow> u32 \<Rightarrow> u8 list" where
  "content s b = (case find (\<lambda>i. holds b (bufs s i) \<and> valid (bufs s i)) [0..<NBUF] of
     Some i \<Rightarrow> bdata (bufs s i) | None \<Rightarrow> disk s b)"

text \<open>
  The invariant of the cache when one kernel thread uses it: the list is intact, a block has
  at most one buffer, a buffer in use is locked and counted once, and an unused buffer that
  is not waiting to be logged agrees with the disk.
\<close>

definition buf_ok :: "(u32 \<Rightarrow> u8 list) \<Rightarrow> buf \<Rightarrow> bool" where
  "buf_ok d x \<longleftrightarrow> length (bdata x) = BSIZE \<and> refcnt x = (if slocked (blk x) = 0 then 0 else 1) \<and>
     (dirty x \<longrightarrow> valid x) \<and> (dirty x \<or> slocked (blk x) \<noteq> 0 \<longrightarrow> bdev x = 1) \<and>
     (refcnt x = 0 \<and> valid x \<and> \<not> dirty x \<and> bdev x = 1 \<longrightarrow> bdata x = d (blockno x))"

definition one_buf :: "(nat \<Rightarrow> buf) \<Rightarrow> bool" where
  "one_buf f \<longleftrightarrow> (\<forall>b. \<forall>i<NBUF. \<forall>j<NBUF. holds b (f i) \<longrightarrow> holds b (f j) \<longrightarrow> i = j)"

definition bio_inv :: "'a bio_scheme \<Rightarrow> bool" where
  "bio_inv s \<longleftrightarrow> (\<exists>xs. ring (bufs s) xs) \<and> (\<forall>i<NBUF. buf_ok (disk s) (bufs s i)) \<and>
     one_buf (bufs s) \<and> (\<forall>b. length (disk s b) = BSIZE)"

lemma bio_invD:
  assumes "bio_inv s"
  shows "\<exists>xs. ring (bufs s) xs" "i < NBUF \<Longrightarrow> buf_ok (disk s) (bufs s i)" "one_buf (bufs s)"
    "length (disk s b) = BSIZE"
  using assms by (simp_all add: bio_inv_def)

lemma buf_ok_clean:
  assumes "buf_ok d x" "refcnt x = 0" "valid x" "\<not> dirty x" "bdev x = 1"
  shows "bdata x = d (blockno x)"
  using assms by (simp add: buf_ok_def)

lemma find_SomeD: "find P xs = Some x \<Longrightarrow> x \<in> set xs \<and> P x"
  by (auto simp: find_Some_iff)

lemma find_upt: "find P [0..<n] = None \<longleftrightarrow> (\<forall>i<n. \<not> P i)" "find P [0..<n] = Some i \<Longrightarrow> i < n \<and> P i"
  by (auto simp: find_None_iff find_Some_iff)

lemma content_cached:
  assumes "one_buf (bufs s)" "i < NBUF" "holds b (bufs s i)" "valid (bufs s i)"
  shows "content s b = bdata (bufs s i)"
proof -
  obtain j where j: "find (\<lambda>i. holds b (bufs s i) \<and> valid (bufs s i)) [0..<NBUF] = Some j"
    using find_upt(1) assms(2-4) by (metis (mono_tags, lifting) not_None_eq)
  then have "j = i" using find_upt(2) [OF j] assms(1-3) unfolding one_buf_def by blast
  then show ?thesis using j by (simp add: content_def)
qed

lemma content_uncached:
  assumes "\<And>i. i < NBUF \<Longrightarrow> holds b (bufs s i) \<Longrightarrow> \<not> valid (bufs s i)"
  shows "content s b = disk s b"
proof -
  have "find (\<lambda>i. holds b (bufs s i) \<and> valid (bufs s i)) [0..<NBUF] = None"
    using assms by (simp add: find_upt)
  then show ?thesis by (simp add: content_def)
qed

text \<open>The fields of a buffer apart from its place in the list.\<close>

definition body :: "buf \<Rightarrow> buf" where
  "body x = x\<lparr>bprev := 0, bnext := 0\<rparr>"

lemma body_fields:
  assumes "body x = body y"
  shows "flags x = flags y" "bdev x = bdev y" "blockno x = blockno y" "blk x = blk y" "refcnt x = refcnt y" "bdata x = bdata y"
    "holds b x = holds b y" "valid x = valid y" "dirty x = dirty y" "buf_ok d x = buf_ok d y"
proof -
  show f: "flags x = flags y" "bdev x = bdev y" "blockno x = blockno y" "blk x = blk y" "refcnt x = refcnt y" "bdata x = bdata y"
    using arg_cong [OF assms, of flags] arg_cong [OF assms, of bdev] arg_cong [OF assms, of blockno]
      arg_cong [OF assms, of blk] arg_cong [OF assms, of refcnt] arg_cong [OF assms, of bdata]
    by (simp_all add: body_def)
  show "holds b x = holds b y" "valid x = valid y" "dirty x = dirty y" "buf_ok d x = buf_ok d y"
    using f by (simp_all add: holds_def valid_def dirty_def buf_ok_def)
qed

lemma body_links [simp]: "body (x\<lparr>bprev := p\<rparr>) = body x" "body (x\<lparr>bnext := n\<rparr>) = body x"
  by (simp_all add: body_def)

lemma body_upd_buf:
  "(\<And>x. body (f x) = body x) \<Longrightarrow> body (bufs (upd_buf i f s) j) = body (bufs s j)"
  by (simp add: upd_buf_def)

lemma body_to_front: "body (bufs (to_front b s) j) = body (bufs s j)"
  by (simp add: to_front_def Let_def body_upd_buf)

lemma content_cong:
  assumes "disk t b = disk s b"
    and "\<And>i. i < NBUF \<Longrightarrow> holds b (bufs t i) \<and> valid (bufs t i) \<longleftrightarrow> holds b (bufs s i) \<and> valid (bufs s i)"
    and "\<And>i. i < NBUF \<Longrightarrow> holds b (bufs s i) \<Longrightarrow> bdata (bufs t i) = bdata (bufs s i)"
  shows "content t b = content s b"
proof -
  have f: "find (\<lambda>i. holds b (bufs t i) \<and> valid (bufs t i)) [0..<NBUF] =
      find (\<lambda>i. holds b (bufs s i) \<and> valid (bufs s i)) [0..<NBUF]"
  proof (rule find_cong)
    fix i assume "i \<in> set [0..<NBUF]"
    then show "(holds b (bufs t i) \<and> valid (bufs t i)) = (holds b (bufs s i) \<and> valid (bufs s i))"
      using assms(2) [of i] by simp
  qed simp
  then show ?thesis
  proof (cases "find (\<lambda>i. holds b (bufs s i) \<and> valid (bufs s i)) [0..<NBUF]")
    case (Some i)
    then show ?thesis
      using f assms(3) [of i] find_upt(2) [OF Some] by (simp add: content_def)
  qed (simp add: content_def assms(1))
qed

lemma flag_bits:
  "x AND B_VALID \<noteq> 0 \<longleftrightarrow> bit x 1" "x AND B_DIRTY \<noteq> 0 \<longleftrightarrow> bit x 2"
proof -
  have e: "B_VALID = 2 ^ 1" "B_DIRTY = 2 ^ 2" by (simp_all add: B_VALID_def B_DIRTY_def)
  have p: "x AND 2 ^ n \<noteq> 0 \<longleftrightarrow> bit x n" if "n < 32" for n :: nat
    using that by (metis and_exp_eq_0_iff_not_bit)
  show "x AND B_VALID \<noteq> 0 \<longleftrightarrow> bit x 1" "x AND B_DIRTY \<noteq> 0 \<longleftrightarrow> bit x 2"
    unfolding e by (rule p, simp)+
qed

lemma flag_consts [simp]: "bit B_VALID (Suc 0)" "\<not> bit B_VALID 2" "\<not> bit B_DIRTY (Suc 0)" "bit B_DIRTY 2"
  by (simp_all add: B_VALID_def B_DIRTY_def bit_simps)

lemma flag_fields: "valid x \<longleftrightarrow> bit (flags x) 1" "dirty x \<longleftrightarrow> bit (flags x) 2"
  by (simp_all add: valid_def dirty_def flag_bits)

lemma nothing_to_do: "flags x AND (B_VALID OR B_DIRTY) = B_VALID \<longleftrightarrow> valid x \<and> \<not> dirty x"
proof -
  have "flags x AND (B_VALID OR B_DIRTY) = B_VALID \<longleftrightarrow> bit (flags x) 1 \<and> \<not> bit (flags x) 2"
  proof
    assume "flags x AND (B_VALID OR B_DIRTY) = B_VALID"
    then have "bit (flags x AND (B_VALID OR B_DIRTY)) n = bit B_VALID n" for n by simp
    from this [of 1] this [of 2] show "bit (flags x) 1 \<and> \<not> bit (flags x) 2"
      by (simp add: bit_simps)
  next
    assume "bit (flags x) 1 \<and> \<not> bit (flags x) 2"
    then have b: "bit (flags x) 1" "flags x AND B_DIRTY = 0"
      using flag_bits(2) [of "flags x"] by simp_all
    have e: "B_VALID = 2 ^ 1" by (simp add: B_VALID_def)
    have "flags x AND B_VALID = B_VALID"
      unfolding e by (rule bit_word_eqI) (use b(1) in \<open>auto simp only: bit_and_iff bit_exp_iff\<close>)
    with b(2) show "flags x AND (B_VALID OR B_DIRTY) = B_VALID" by (simp add: bit.conj_disj_distrib)
  qed
  then show ?thesis by (simp add: flag_fields)
qed

text \<open>Changing one buffer \<open>i\<close> that stays on the list keeps the invariant when the new buffer
  is in order and no other holds its block.\<close>

lemma bio_inv_upd:
  assumes "bio_inv s" "i < NBUF" "bprev y = bprev (bufs s i)" "bnext y = bnext (bufs s i)"
    and "buf_ok (disk s) y" "\<And>b j. j < NBUF \<Longrightarrow> j \<noteq> i \<Longrightarrow> holds b y \<Longrightarrow> \<not> holds b (bufs s j)"
  shows "bio_inv (s\<lparr>bufs := (bufs s)(i := y)\<rparr>)"
proof -
  have "ring ((bufs s)(i := y)) xs = ring (bufs s) xs" for xs
    by (rule ring_cong) (use assms(3,4) in auto)
  moreover have "one_buf ((bufs s)(i := y))"
    unfolding one_buf_def using bio_invD(3) [OF assms(1)] assms(6) unfolding one_buf_def
    by (auto split: if_splits)
  ultimately show ?thesis
    using assms(1,5) by (auto simp: bio_inv_def)
qed

section \<open>Reading a block\<close>

definition unlocked :: "u32 \<Rightarrow> 'a bio_scheme \<Rightarrow> bool" where
  "unlocked b s \<longleftrightarrow> (\<forall>i<NBUF. holds b (bufs s i) \<longrightarrow> slocked (blk (bufs s i)) = 0)"

text \<open>A buffer \<^verbatim>\<open>bget\<close> may recycle.\<close>

definition free_buf :: "buf \<Rightarrow> bool" where
  "free_buf x \<longleftrightarrow> refcnt x = 0 \<and> \<not> dirty x"

definition room :: "u32 \<Rightarrow> 'a bio_scheme \<Rightarrow> bool" where
  "room b s \<longleftrightarrow> (\<exists>i<NBUF. holds b (bufs s i) \<or> free_buf (bufs s i))"

definition take_lock :: "i32 \<Rightarrow> buf \<Rightarrow> buf" where
  "take_lock me x = x\<lparr>refcnt := 1, blk := (blk x)\<lparr>slocked := 1, spid := me\<rparr>\<rparr>"

lemma ring_find:
  assumes "ring (bufs s) xs"
  shows "scan bnext P (bufs s) (bnext (bufs s NBUF)) (Suc NBUF) = Some (find (\<lambda>i. P (bufs s i)) xs)"
    "scan bprev P (bufs s) (bprev (bufs s NBUF)) (Suc NBUF) = Some (find (\<lambda>i. P (bufs s i)) (rev xs))"
  using assms scan_next [of "bufs s" _ NBUF xs "Suc NBUF" P] scan_prev [of _ "bufs s" xs NBUF "Suc NBUF" P] ring_length [OF assms]
  by (auto simp: ring_def)

lemma lock_buf_free:
  assumes "slocked (blk (bufs s i)) = 0"
  shows "lock_buf me i s = Ok i (upd_buf i (\<lambda>x. x\<lparr>blk := (blk x)\<lparr>slocked := 1, spid := me\<rparr>\<rparr>) s)"
  using assms by (simp add: lock_buf_def acquiresleep_def upd_buf_def)

lemma bget_spec:
  assumes "bio_inv s" "unlocked b s" "room b s"
  obtains (hit) i where "i < NBUF" "holds b (bufs s i)" "refcnt (bufs s i) = 0"
      "bget me 1 b s = Ok i (s\<lparr>bufs := (bufs s)(i := take_lock me (bufs s i))\<rparr>)"
  | (recycle) i where "i < NBUF" "\<And>j. j < NBUF \<Longrightarrow> \<not> holds b (bufs s j)" "free_buf (bufs s i)"
      "bget me 1 b s = Ok i (s\<lparr>bufs := (bufs s)(i := take_lock me ((bufs s i)\<lparr>bdev := 1, blockno := b, flags := 0\<rparr>))\<rparr>)"
proof -
  obtain xs where xs: "ring (bufs s) xs" using bio_invD(1) [OF assms(1)] by blast
  then have set: "set xs = {..<NBUF}" by (simp add: ring_def)
  have free: "slocked (blk (bufs s i)) = 0" if "i < NBUF" "refcnt (bufs s i) = 0" for i
    using bio_invD(2) [OF assms(1) that(1)] that(2) by (simp add: buf_ok_def split: if_splits)
  show thesis
  proof (cases "find (\<lambda>i. bdev (bufs s i) = 1 \<and> blockno (bufs s i) = b) xs")
    case (Some i)
    then have i: "i < NBUF" "holds b (bufs s i)"
      using set by (auto simp: find_Some_iff holds_def)
    then have "slocked (blk (bufs s i)) = 0" "refcnt (bufs s i) = 0"
      using assms(2) bio_invD(2) [OF assms(1) i(1)] by (auto simp: unlocked_def buf_ok_def)
    then show thesis
      using hit [OF i] Some by (simp add: bget_def ring_find [OF xs] lock_buf_free upd_buf_def take_lock_def del: scan.simps)
  next
    case None
    then have no: "\<not> holds b (bufs s j)" if "j < NBUF" for j
      using set that by (auto simp: find_None_iff holds_def)
    then obtain k where k: "k < NBUF" "free_buf (bufs s k)" using assms(3) by (auto simp: room_def)
    have "find (\<lambda>i. refcnt (bufs s i) = 0 \<and> flags (bufs s i) AND B_DIRTY = 0) (rev xs) \<noteq> None"
      using k set by (auto simp: find_None_iff free_buf_def dirty_def)
    then obtain i where i: "find (\<lambda>i. refcnt (bufs s i) = 0 \<and> flags (bufs s i) AND B_DIRTY = 0) (rev xs) = Some i"
      by blast
    have f: "i < NBUF" "free_buf (bufs s i)"
      using set find_SomeD [OF i] by (auto simp: free_buf_def dirty_def)
    then have "slocked (blk (bufs s i)) = 0" using free by (simp add: free_buf_def)
    then show thesis
      using recycle [OF f(1) no f(2)] None i
      by (simp add: bget_def ring_find [OF xs] lock_buf_free upd_buf_def take_lock_def del: scan.simps)
  qed
qed

text \<open>A buffer the thread \<open>me\<close> has locked, with the data of block \<open>b\<close>.\<close>

definition mine :: "i32 \<Rightarrow> u32 \<Rightarrow> nat \<Rightarrow> 'a bio_scheme \<Rightarrow> bool" where
  "mine me b i s \<longleftrightarrow> i < NBUF \<and> holdingsleep me (blk (bufs s i)) \<and> refcnt (bufs s i) = 1 \<and>
     holds b (bufs s i) \<and> valid (bufs s i)"

text \<open>\<open>y\<close> is what \<^verbatim>\<open>bread\<close> makes of buffer \<open>i\<close>: locked, with the contents of block \<open>b\<close>; the
  buffer held the block before, or was free and no buffer held it.\<close>

definition taken :: "i32 \<Rightarrow> u32 \<Rightarrow> 'a bio_scheme \<Rightarrow> nat \<Rightarrow> buf \<Rightarrow> bool" where
  "taken me b s i y \<longleftrightarrow> i < NBUF \<and> refcnt (bufs s i) = 0 \<and>
     bprev y = bprev (bufs s i) \<and> bnext y = bnext (bufs s i) \<and>
     refcnt y = 1 \<and> slocked (blk y) = 1 \<and> spid (blk y) = me \<and> holds b y \<and> valid y \<and> bdata y = content s b \<and>
     (if holds b (bufs s i) then dirty y = dirty (bufs s i)
      else \<not> dirty y \<and> \<not> dirty (bufs s i) \<and> (\<forall>j<NBUF. \<not> holds b (bufs s j)))"

lemma bread_taken:
  assumes "bio_inv s" "b < disksize s" "unlocked b s" "room b s"
  obtains i y where "taken me b s i y" "bread me 1 b s = Ok i (s\<lparr>bufs := (bufs s)(i := y)\<rparr>)"
proof (cases rule: bget_spec [OF assms(1,3,4), of me, case_names hit recycle])
  case (hit i)
  note ok = bio_invD(2) [OF assms(1) hit(1)]
  show thesis
  proof (cases "valid (bufs s i)")
    case True
    then have "content s b = bdata (bufs s i)"
      by (rule content_cached [OF bio_invD(3) [OF assms(1)] hit(1,2)])
    then show thesis
      using True hit ok by (intro that [of i "take_lock me (bufs s i)"])
        (auto simp: taken_def bread_def take_lock_def holds_def valid_def dirty_def)
  next
    case False
    define y where "y = (take_lock me (bufs s i))\<lparr>bdata := disk s b, flags := flags (bufs s i) OR B_VALID\<rparr>"
    have nd: "\<not> dirty (bufs s i)" using ok False by (simp add: buf_ok_def)
    have "content s b = disk s b"
      using False hit(1,2) bio_invD(3) [OF assms(1)] by (intro content_uncached) (metis one_buf_def)
    then have "taken me b s i y"
      using hit nd by (auto simp: taken_def y_def take_lock_def holds_def flag_fields bit_simps)
    moreover have "iderw me i (s\<lparr>bufs := (bufs s)(i := take_lock me (bufs s i))\<rparr>) = Ok () (s\<lparr>bufs := (bufs s)(i := y)\<rparr>)"
      using False nd hit(2) assms(2) nothing_to_do [of "take_lock me (bufs s i)"]
      by (simp add: iderw_def Let_def take_lock_def holdingsleep_def holds_def valid_def dirty_def upd_buf_def y_def not_le)
    ultimately show thesis
      using that hit(4) False by (simp add: bread_def take_lock_def valid_def)
  qed
next
  case (recycle i)
  define z where "z = take_lock me ((bufs s i)\<lparr>bdev := 1, blockno := b, flags := 0\<rparr>)"
  define y where "y = z\<lparr>bdata := disk s b, flags := B_VALID\<rparr>"
  have "content s b = disk s b" using recycle(2) by (intro content_uncached) blast
  then have "taken me b s i y"
    using recycle by (auto simp: taken_def y_def z_def take_lock_def holds_def flag_fields free_buf_def)
  moreover have "iderw me i (s\<lparr>bufs := (bufs s)(i := z)\<rparr>) = Ok () (s\<lparr>bufs := (bufs s)(i := y)\<rparr>)"
    using assms(2) by (simp add: iderw_def Let_def z_def take_lock_def holdingsleep_def upd_buf_def y_def not_le B_VALID_def)
  ultimately show thesis
    using that recycle(4) by (simp add: bread_def z_def take_lock_def)
qed

lemma content_length:
  assumes "bio_inv s"
  shows "length (content s b) = BSIZE"
proof (cases "find (\<lambda>i. holds b (bufs s i) \<and> valid (bufs s i)) [0..<NBUF]")
  case None
  then show ?thesis using bio_invD(4) [OF assms] by (simp add: content_def)
next
  case (Some i)
  then have "i < NBUF" using find_upt(2) by blast
  then show ?thesis using bio_invD(2) [OF assms] Some by (simp add: content_def buf_ok_def)
qed

lemma holds_unique: "holds b x \<Longrightarrow> holds c x \<Longrightarrow> b = c"
  by (simp add: holds_def)

lemma taken_inv:
  assumes "bio_inv s" "taken me b s i y"
  defines "t \<equiv> s\<lparr>bufs := (bufs s)(i := y)\<rparr>"
  shows "bio_inv t" "content t = content s" "mine me b i t"
proof -
  note tk = assms(2) [unfolded taken_def] and one = bio_invD(3) [OF assms(1)]
  have i: "i < NBUF" "holds b y" "valid y" using tk by auto
  have other: "\<not> holds b (bufs s j)" if "j < NBUF" "j \<noteq> i" for j
    using tk one that i(1) unfolding one_buf_def by (metis (full_types))
  show inv: "bio_inv t"
    unfolding t_def
  proof (rule bio_inv_upd [OF assms(1) i(1)])
    show "buf_ok (disk s) y" using tk content_length [OF assms(1)] by (auto simp: buf_ok_def holds_def)
    show "\<not> holds c (bufs s j)" if "j < NBUF" "j \<noteq> i" "holds c y" for c j
      using other [OF that(1,2)] holds_unique [OF i(2) that(3)] by simp
  qed (use tk in auto)
  show "mine me b i t" using tk by (simp add: mine_def t_def holdingsleep_def)
  show "content t = content s"
  proof
    fix c
    show "content t c = content s c"
    proof (cases "c = b")
      case True
      have "content t b = bdata (bufs t i)"
        by (rule content_cached [OF bio_invD(3) [OF inv] i(1)]) (use i in \<open>simp_all add: t_def\<close>)
      then show ?thesis using True tk by (simp add: t_def)
    next
      case False
      then have no: "\<not> holds c y" using holds_unique [OF i(2)] by auto
      show ?thesis
      proof (cases "holds c (bufs s i)")
        case True
        then have nb: "\<not> holds b (bufs s i)" using holds_unique False by blast
        have "content s c = disk s c"
        proof (cases "valid (bufs s i)")
          case v: True
          have "bdata (bufs s i) = disk s (blockno (bufs s i))"
            by (rule buf_ok_clean [OF bio_invD(2) [OF assms(1) i(1)]]) (use v tk nb True in \<open>auto simp: holds_def\<close>)
          then show ?thesis
            using content_cached [OF one i(1) True v] True by (simp add: holds_def)
        next
          case v: False
          then show ?thesis using one i(1) True unfolding one_buf_def by (intro content_uncached) metis
        qed
        moreover have "content t c = disk t c"
          using one i(1) True no unfolding one_buf_def by (intro content_uncached) (auto simp: t_def split: if_splits)
        ultimately show ?thesis by (simp add: t_def)
      next
        case no': False
        show ?thesis
          by (rule content_cong) (use no no' in \<open>auto simp: t_def split: if_splits\<close>)
      qed
    qed
  qed
qed

lemma mineD:
  assumes "mine me b i s"
  shows "i < NBUF" "holdingsleep me (blk (bufs s i))" "refcnt (bufs s i) = 1" "holds b (bufs s i)" "valid (bufs s i)"
  using assms by (simp_all add: mine_def)

section \<open>Using and releasing a block\<close>

lemma to_front_inv:
  assumes "bio_inv s" "i < NBUF"
  shows "bio_inv (to_front i s)" "content (to_front i s) = content s"
proof -
  have d: "disk (to_front i s) = disk s"
    by (simp add: to_front_def Let_def upd_buf_def)
  note b = body_fields [OF body_to_front [of i s]]
  show "content (to_front i s) = content s"
    by (rule ext, rule content_cong) (simp_all add: d b)
  obtain xs where "ring (bufs s) xs" using bio_invD(1) [OF assms(1)] by blast
  then have "\<exists>xs. ring (bufs (to_front i s)) xs" using ring_to_front [OF _ assms(2)] by blast
  moreover have "one_buf (bufs (to_front i s))"
    using bio_invD(3) [OF assms(1)] by (simp add: one_buf_def b)
  ultimately show "bio_inv (to_front i s)"
    using bio_invD(2,4) [OF assms(1)] by (simp add: bio_inv_def b d)
qed

lemma brelse_spec:
  assumes "bio_inv s" "mine me b i s" "\<not> dirty (bufs s i) \<Longrightarrow> bdata (bufs s i) = disk s b"
  obtains t where "brelse me i s = Ok () t" "t = s\<lparr>bufs := bufs t\<rparr>" "bio_inv t" "content t = content s"
    "\<forall>j. body (bufs t j) = body (if j = i then (bufs s i)\<lparr>blk := releasesleep (blk (bufs s i)), refcnt := 0\<rparr> else bufs s j)"
    "\<forall>xs. ring (bufs s) xs \<longrightarrow> ring (bufs t) (i # remove1 i xs)"
proof -
  note m = mineD [OF assms(2)]
  define y where "y = (bufs s i)\<lparr>blk := releasesleep (blk (bufs s i)), refcnt := 0\<rparr>"
  define s' where "s' = s\<lparr>bufs := (bufs s)(i := y)\<rparr>"
  have yf: "holds c y = holds c (bufs s i)" "valid y = valid (bufs s i)" "dirty y = dirty (bufs s i)" "bdata y = bdata (bufs s i)" for c
    by (simp_all add: y_def holds_def valid_def dirty_def)
  have "bio_inv s'"
    unfolding s'_def
  proof (rule bio_inv_upd [OF assms(1) m(1)])
    show "buf_ok (disk s) y"
      using bio_invD(2) [OF assms(1) m(1)] assms(3) m(4) yf by (auto simp: buf_ok_def y_def releasesleep_def holds_def)
    show "\<not> holds c (bufs s j)" if "j < NBUF" "j \<noteq> i" "holds c y" for c j
      using bio_invD(3) [OF assms(1)] that m(1) yf(1) unfolding one_buf_def by blast
  qed (simp_all add: y_def)
  moreover have "content s' = content s"
    by (rule ext, rule content_cong) (auto simp: s'_def yf split: if_splits)
  moreover have "brelse me i s = Ok () (to_front i s')"
    using m(2,3) by (simp add: brelse_def Let_def upd_buf_def y_def s'_def)
  moreover have "to_front i s' = s'\<lparr>bufs := bufs (to_front i s')\<rparr>"
    by (simp add: to_front_def Let_def upd_buf_def)
  moreover have "body (bufs (to_front i s') j) = body (if j = i then y else bufs s j)" for j
    by (simp add: body_to_front) (simp add: s'_def)
  moreover have "ring (bufs (to_front i s')) (i # remove1 i xs)" if "ring (bufs s) xs" for xs
  proof (rule ring_to_front [OF _ m(1)])
    show "ring (bufs s') xs" using that ring_cong [of "bufs s'" "bufs s" xs] by (simp add: s'_def y_def)
  qed
  ultimately show thesis
    using to_front_inv [of s' i] m(1) by (intro that [of "to_front i s'"]) (simp_all add: s'_def y_def)
qed

text \<open>Changing the data of a locked buffer changes the contents of its block; marking it dirty
  changes nothing; \<^verbatim>\<open>bwrite\<close> brings it to the disk.\<close>

lemma mine_upd:
  assumes "bio_inv s" "mine me b i s" "length (bdata y) = BSIZE"
    and "bprev y = bprev (bufs s i)" "bnext y = bnext (bufs s i)" "blk y = blk (bufs s i)" "refcnt y = 1"
    and "bdev y = bdev (bufs s i)" "blockno y = blockno (bufs s i)" "valid y"
  defines "t \<equiv> s\<lparr>bufs := (bufs s)(i := y)\<rparr>"
  shows "bio_inv t" "content t = (content s)(b := bdata y)" "mine me b i t"
proof -
  note m = mineD [OF assms(2)]
  have h: "holds c y = holds c (bufs s i)" for c using assms(8,9) by (simp add: holds_def)
  show inv: "bio_inv t"
    unfolding t_def
  proof (rule bio_inv_upd [OF assms(1) m(1) assms(4,5)])
    show "buf_ok (disk s) y"
      using bio_invD(2) [OF assms(1) m(1)] assms(3,6-8,10) m(2-4) by (auto simp: buf_ok_def holdingsleep_def holds_def)
    show "\<not> holds c (bufs s j)" if "j < NBUF" "j \<noteq> i" "holds c y" for c j
      using bio_invD(3) [OF assms(1)] that m(1) h unfolding one_buf_def by blast
  qed
  show "mine me b i t" using m assms(6,7,10) h by (simp add: mine_def t_def)
  show "content t = (content s)(b := bdata y)"
  proof
    fix c
    show "content t c = ((content s)(b := bdata y)) c"
    proof (cases "c = b")
      case True
      have "content t b = bdata (bufs t i)"
        by (rule content_cached [OF bio_invD(3) [OF inv] m(1)]) (use m h assms(10) in \<open>simp_all add: t_def\<close>)
      then show ?thesis using True by (simp add: t_def)
    next
      case False
      then have "\<not> holds c y" "\<not> holds c (bufs s i)" using holds_unique [OF m(4)] h by auto
      then have "content t c = content s c"
        by (intro content_cong) (auto simp: t_def split: if_splits)
      then show ?thesis using False by simp
    qed
  qed
qed

lemma mine_content: "bio_inv s \<Longrightarrow> mine me b i s \<Longrightarrow> content s b = bdata (bufs s i)"
  by (rule content_cached) (auto dest: bio_invD(3) mineD)

lemma modify_spec:
  assumes "bio_inv s" "mine me b i s" "length d = BSIZE"
  defines "t \<equiv> upd_buf i (\<lambda>x. x\<lparr>bdata := d\<rparr>) s"
  shows "bio_inv t" "content t = (content s)(b := d)" "mine me b i t"
  using mine_upd [OF assms(1,2), of "(bufs s i)\<lparr>bdata := d\<rparr>"] mineD [OF assms(2)] assms(3)
  by (simp_all add: t_def upd_buf_def valid_def)

lemma mark_dirty_spec:
  assumes "bio_inv s" "mine me b i s"
  defines "t \<equiv> upd_buf i (\<lambda>x. x\<lparr>flags := flags x OR B_DIRTY\<rparr>) s"
  shows "bio_inv t" "content t = content s" "mine me b i t" "dirty (bufs t i)"
proof -
  have l: "length (bdata (bufs s i)) = BSIZE"
    using bio_invD(2) [OF assms(1) mineD(1) [OF assms(2)]] by (simp add: buf_ok_def)
  have v: "valid ((bufs s i)\<lparr>flags := flags (bufs s i) OR B_DIRTY\<rparr>)"
    using mineD(5) [OF assms(2)] by (simp add: flag_fields bit_simps)
  show "bio_inv t" "content t = content s" "mine me b i t"
    using mine_upd [OF assms(1,2), of "(bufs s i)\<lparr>flags := flags (bufs s i) OR B_DIRTY\<rparr>"] mineD [OF assms(2)] l v
      mine_content [OF assms(1,2)]
    by (auto simp: t_def upd_buf_def)
  show "dirty (bufs t i)" by (simp add: t_def upd_buf_def flag_fields bit_simps)
qed

lemma bwrite_spec:
  assumes "bio_inv s" "mine me b i s" "b < disksize s"
  obtains t where "bwrite me i s = Ok () t" "bio_inv t" "content t = content s" "mine me b i t" "\<not> dirty (bufs t i)"
    "t = s\<lparr>bufs := (bufs s)(i := bufs t i), disk := (disk s)(b := bdata (bufs s i)), written := written s @ [(b, bdata (bufs s i))]\<rparr>"
    "bdata (bufs t i) = bdata (bufs s i)" "blk (bufs t i) = blk (bufs s i)"
proof -
  note m = mineD [OF assms(2)]
  define y where "y = (bufs s i)\<lparr>flags := ((flags (bufs s i) OR B_DIRTY) AND NOT B_DIRTY) OR B_VALID\<rparr>"
  define s' where "s' = s\<lparr>bufs := (bufs s)(i := y)\<rparr>"
  define t where "t = s'\<lparr>disk := (disk s)(b := bdata (bufs s i)), written := written s @ [(b, bdata (bufs s i))]\<rparr>"
  have yv: "valid y" "\<not> dirty y" by (simp_all add: y_def flag_fields bit_simps)
  have l: "length (bdata (bufs s i)) = BSIZE"
    using bio_invD(2) [OF assms(1) m(1)] by (simp add: buf_ok_def)
  have s': "bio_inv s'" "content s' = content s" "mine me b i s'"
    using mine_upd [OF assms(1,2), of y] m l yv mine_content [OF assms(1,2)] by (auto simp: s'_def y_def)
  have ok: "buf_ok (disk t) (bufs t j)" if "j < NBUF" for j
  proof (cases "j = i")
    case True
    then show ?thesis using bio_invD(2) [OF s'(1) that] mineD(3) [OF s'(3)] by (auto simp: t_def buf_ok_def)
  next
    case False
    then have "\<not> holds b (bufs s' j)"
      using bio_invD(3) [OF s'(1)] that m(1) mineD(4) [OF s'(3)] unfolding one_buf_def by blast
    then show ?thesis using bio_invD(2) [OF s'(1) that] by (auto simp: t_def s'_def buf_ok_def holds_def)
  qed
  have "bio_inv t"
    using s'(1) ok l by (auto simp: bio_inv_def t_def s'_def)
  moreover have "content t = content s"
  proof
    fix c
    show "content t c = content s c"
    proof (cases "c = b")
      case True
      have "content t b = bdata (bufs t i)"
        using s'(1,3) by (intro content_cached) (auto dest: bio_invD(3) mineD simp: t_def)
      then show ?thesis using True mine_content [OF s'(1,3)] s'(2) by (simp add: t_def)
    next
      case False
      then have "content t c = content s' c" by (intro content_cong) (simp_all add: t_def s'_def)
      then show ?thesis by (simp add: s'(2))
    qed
  qed
  moreover have "bwrite me i s = Ok () t"
  proof -
    have d: "bit (flags (bufs s i) OR B_DIRTY) 2" by (simp add: bit_simps)
    then have "(flags (bufs s i) OR B_DIRTY) AND (B_VALID OR B_DIRTY) \<noteq> B_VALID"
      using nothing_to_do [of "(bufs s i)\<lparr>flags := flags (bufs s i) OR B_DIRTY\<rparr>"] by (simp add: flag_fields)
    moreover have "(flags (bufs s i) OR B_DIRTY) AND B_DIRTY \<noteq> 0" using d flag_bits(2) by blast
    ultimately show ?thesis
      using m(2,4) assms(3)
      by (simp add: bwrite_def iderw_def Let_def upd_buf_def holds_def y_def s'_def t_def not_le)
  qed
  ultimately show thesis
    using that [of t] s'(3) yv by (simp add: t_def s'_def mine_def y_def)
qed

lemma disk_clean:
  assumes "bio_inv s" "taken me b s i y" "\<not> dirty y"
  shows "bdata y = disk s b"
proof (cases "holds b (bufs s i) \<and> valid (bufs s i)")
  case True
  then have "content s b = bdata (bufs s i)"
    using assms(2) bio_invD(3) [OF assms(1)] by (intro content_cached) (auto simp: taken_def)
  moreover have "bdata (bufs s i) = disk s b"
    using assms(2,3) True bio_invD(2) [OF assms(1), of i] by (auto simp: taken_def buf_ok_def holds_def)
  ultimately show ?thesis using assms(2) by (simp add: taken_def)
next
  case False
  have "content s b = disk s b"
  proof (rule content_uncached)
    fix j assume j: "j < NBUF" "holds b (bufs s j)"
    then have "holds b (bufs s i)" using assms(2) by (auto simp: taken_def split: if_splits)
    then have "j = i" using j bio_invD(3) [OF assms(1)] assms(2) unfolding one_buf_def taken_def by blast
    then show "\<not> valid (bufs s j)" using False j by simp
  qed
  then show ?thesis using assms(2) by (simp add: taken_def)
qed

text \<open>
  C19: With a consistent cache and a buffer to be had, \<^verbatim>\<open>bread\<close> returns a buffer locked by the
  caller with the contents of the block, \<^verbatim>\<open>brelse\<close> releases it, and neither changes the
  contents of any block or the disk, whichever buffer was recycled; the buffer moves to the
  front of the list.
\<close>

theorem bread_brelse_content:
  assumes "bio_inv s" "b < disksize s" "unlocked b s" "room b s"
  shows "\<exists>i t u. bread me 1 b s = Ok i t \<and> brelse me i t = Ok () u \<and>
    bdata (bufs t i) = content s b \<and> holdingsleep me (blk (bufs t i)) \<and>
    content t = content s \<and> content u = content s \<and> disk u = disk s \<and> bio_inv u \<and>
    (\<forall>xs. ring (bufs s) xs \<longrightarrow> ring (bufs u) (i # remove1 i xs))"
proof -
  obtain i y where y: "taken me b s i y" and r: "bread me 1 b s = Ok i (s\<lparr>bufs := (bufs s)(i := y)\<rparr>)"
    by (rule bread_taken [OF assms])
  define t where "t = s\<lparr>bufs := (bufs s)(i := y)\<rparr>"
  note t = taken_inv [OF assms(1) y, folded t_def]
  have "bdata (bufs t i) = disk t b" if "\<not> dirty (bufs t i)"
    using disk_clean [OF assms(1) y] that by (simp add: t_def)
  then obtain u where u: "brelse me i t = Ok () u" "u = t\<lparr>bufs := bufs u\<rparr>" "bio_inv u" "content u = content t"
      "\<forall>xs. ring (bufs t) xs \<longrightarrow> ring (bufs u) (i # remove1 i xs)"
    by (rule brelse_spec [OF t(1,3)])
  have "ring (bufs t) xs = ring (bufs s) xs" for xs
    by (rule ring_cong) (use y in \<open>auto simp: t_def taken_def\<close>)
  moreover have "disk u = disk s" by (subst u(2)) (simp add: t_def)
  ultimately show ?thesis
    using r u t mineD(2) [OF t(3)] y by (intro exI [of _ i] exI [of _ t] exI [of _ u]) (simp add: t_def taken_def)
qed

text \<open>When every buffer is in use or waiting for the log and none holds the block, \<^verbatim>\<open>bget\<close>
  panics. The log may pin up to \<^verbatim>\<open>LOGSIZE\<close> blocks, which is also the number of buffers.\<close>

lemma bget_no_buffers:
  assumes "bio_inv s" "\<not> room b s"
  shows "bget me 1 b s = Panic ''bget: no buffers''"
proof -
  obtain xs where xs: "ring (bufs s) xs" using bio_invD(1) [OF assms(1)] by blast
  then have set: "set xs = {..<NBUF}" by (simp add: ring_def)
  have "find (\<lambda>i. bdev (bufs s i) = 1 \<and> blockno (bufs s i) = b) xs = None"
    "find (\<lambda>i. refcnt (bufs s i) = 0 \<and> flags (bufs s i) AND B_DIRTY = 0) (rev xs) = None"
    using assms(2) set by (auto simp: find_None_iff room_def holds_def free_buf_def dirty_def)
  then show ?thesis by (simp add: bget_def ring_find [OF xs] del: scan.simps)
qed

section \<open>Initialisation\<close>

text \<open>\<^verbatim>\<open>binit\<close> on the zeroed cache of a kernel that has just been loaded.\<close>

definition loaded :: "'a bio_scheme \<Rightarrow> bool" where
  "loaded s \<longleftrightarrow> (\<forall>i<NBUF. flags (bufs s i) = 0 \<and> bdev (bufs s i) = 0 \<and> refcnt (bufs s i) = 0 \<and>
     length (bdata (bufs s i)) = BSIZE) \<and> (\<forall>b. length (disk s b) = BSIZE)"

lemma binit_link_links:
  assumes "links (\<lambda>x. bnext (bufs s x)) (\<lambda>x. bprev (bufs s x)) NBUF xs NBUF" "distinct (NBUF # xs)"
    and "b < NBUF" "b \<notin> set xs"
  shows "links (\<lambda>x. bnext (bufs (binit_link b s) x)) (\<lambda>x. bprev (bufs (binit_link b s) x)) NBUF (b # xs) NBUF"
proof -
  have "(\<lambda>x. bnext (bufs (binit_link b s) x)) = (\<lambda>x. bnext (bufs s x))(b := bnext (bufs s NBUF), NBUF := b)"
    "(\<lambda>x. bprev (bufs (binit_link b s) x)) = ((\<lambda>x. bprev (bufs s x))(b := NBUF))(bnext (bufs s NBUF) := b)"
    using assms(3) by (auto simp: binit_link_def Let_def upd_buf_links fun_eq_iff)
  then show ?thesis using links_front [OF assms(1,2), of b] assms(3,4) by simp
qed

lemma binit_link_body:
  "disk (binit_link b s) = disk s"
  "flags (bufs (binit_link b s) i) = flags (bufs s i)" "bdev (bufs (binit_link b s) i) = bdev (bufs s i)"
  "refcnt (bufs (binit_link b s) i) = refcnt (bufs s i)" "bdata (bufs (binit_link b s) i) = bdata (bufs s i)"
  "slocked (blk (bufs (binit_link b s) i)) = (if i = b then 0 else slocked (blk (bufs s i)))"
  by (simp_all add: binit_link_def Let_def upd_buf_def initsleeplock_def)

lemma binit_fold:
  fixes s :: "'a bio_scheme"
  assumes "n \<le> NBUF"
  defines "t \<equiv> fold binit_link [0..<n] (upd_buf NBUF (\<lambda>x. x\<lparr>bprev := NBUF, bnext := NBUF\<rparr>) s)"
  shows "links (\<lambda>x. bnext (bufs t x)) (\<lambda>x. bprev (bufs t x)) NBUF (rev [0..<n]) NBUF \<and> disk t = disk s \<and>
    (\<forall>i. i < n \<longrightarrow> slocked (blk (bufs t i)) = 0) \<and>
    (\<forall>i. flags (bufs t i) = flags (bufs s i) \<and> bdev (bufs t i) = bdev (bufs s i) \<and>
      refcnt (bufs t i) = refcnt (bufs s i) \<and> bdata (bufs t i) = bdata (bufs s i))"
  using assms(1) unfolding t_def
proof (induction n)
  case 0
  then show ?case by (simp add: upd_buf_def)
next
  case (Suc n)
  define u where "u = fold binit_link [0..<n] (upd_buf NBUF (\<lambda>x. x\<lparr>bprev := NBUF, bnext := NBUF\<rparr>) s)"
  have ih: "links (\<lambda>x. bnext (bufs u x)) (\<lambda>x. bprev (bufs u x)) NBUF (rev [0..<n]) NBUF"
    using Suc.IH Suc.prems by (simp add: u_def)
  have "links (\<lambda>x. bnext (bufs (binit_link n u) x)) (\<lambda>x. bprev (bufs (binit_link n u) x)) NBUF (n # rev [0..<n]) NBUF"
    by (rule binit_link_links [OF ih]) (use Suc.prems in auto)
  then show ?case
    using Suc.IH Suc.prems by (simp add: binit_link_body u_def [symmetric] less_Suc_eq)
qed

lemma binit_inv:
  assumes "loaded s"
  shows "bio_inv (binit s)" "content (binit s) = disk s" "ring (bufs (binit s)) (rev [0..<NBUF])"
    "unlocked b (binit s)" "room b (binit s)"
proof -
  note f = binit_fold [of NBUF s, folded binit_def, simplified]
  show ring: "ring (bufs (binit s)) (rev [0..<NBUF])"
    using f by (auto simp: ring_def)
  have zero: "\<not> valid (bufs (binit s) i)" "\<not> dirty (bufs (binit s) i)" "\<not> holds c (bufs (binit s) i)"
    "refcnt (bufs (binit s) i) = 0" if "i < NBUF" for i c
    using f assms that by (simp_all add: loaded_def valid_def dirty_def holds_def)
  have "content (binit s) c = disk s c" for c
    using f content_uncached [of c "binit s"] zero(3) by simp
  then show "content (binit s) = disk s" ..
  show "unlocked b (binit s)" "room b (binit s)"
    using zero(2,4) [of 0] zero(3)
    by (auto simp: unlocked_def room_def free_buf_def NBUF_def intro!: exI [of _ "0 :: nat"])
  have "buf_ok (disk s) (bufs (binit s) i)" if "i < NBUF" for i
    using f assms that zero [OF that] by (simp add: buf_ok_def loaded_def)
  then show "bio_inv (binit s)"
    using f assms zero(3) ring by (auto simp: bio_inv_def loaded_def one_buf_def)
qed

text \<open>
  C21: \<^verbatim>\<open>binit\<close> turns the zeroed cache into a consistent one in which every block has the contents
  of the disk and the buffers are listed with the highest number first.
\<close>

theorem binit_establishes_cache:
  assumes "loaded s"
  shows "bio_inv (binit s) \<and> content (binit s) = disk s \<and> ring (bufs (binit s)) (rev [0..<NBUF])"
  using binit_inv [OF assms] by simp

definition demo_buf :: buf where
  "demo_buf = \<lparr>flags = 0, bdev = 0, blockno = 0, blk = \<lparr>slocked = 0, slk = demo_lock, slname = ''demo'', spid = 0\<rparr>,
     refcnt = 0, bprev = 0, bnext = 0, bdata = replicate 512 0\<rparr>"

definition demo_bio :: bio where
  "demo_bio = \<lparr>bufs = \<lambda>_. demo_buf, disk = \<lambda>b. replicate 512 (ucast b), disksize = 1000, written = []\<rparr>"

lemma demo_bio_loaded: "loaded demo_bio"
  by (simp add: loaded_def demo_bio_def demo_buf_def BSIZE_def)

theorem binit_establishes_cache_witness: "bio_inv (binit demo_bio) \<and> content (binit demo_bio) 7 = replicate 512 7"
  using binit_establishes_cache [OF demo_bio_loaded] by (simp add: demo_bio_def)

theorem bread_brelse_content_witness:
  "\<exists>i t u. bread 5 1 3 (binit demo_bio) = Ok i t \<and> brelse 5 i t = Ok () u \<and> bdata (bufs t i) = replicate 512 3"
proof -
  have "disksize (fold binit_link xs s) = disksize s" for xs and s :: bio
    by (induction xs arbitrary: s) (simp_all add: binit_link_def Let_def upd_buf_def)
  then have "disksize (binit demo_bio) = 1000" by (simp add: binit_def upd_buf_def demo_bio_def)
  then have "3 < disksize (binit demo_bio)" by simp
  from bread_brelse_content [OF binit_inv(1) this binit_inv(4,5), OF demo_bio_loaded demo_bio_loaded demo_bio_loaded, of 5]
  show ?thesis unfolding binit_inv(2) [OF demo_bio_loaded] by (auto simp: demo_bio_def)
qed

end
