(* ===== verification/Cache.thy ===== *)
theory Cache
  imports Bio
begin

text \<open>
  What the clients of the buffer cache rely on. The locale \<open>block_cache\<close> states the contract of
  \<^verbatim>\<open>bread\<close>, \<^verbatim>\<open>brelse\<close>, \<^verbatim>\<open>bwrite\<close> and the two changes a client makes to a buffer it has locked
  (its data, the mark that keeps it in the cache), in terms of the contents of the blocks, the
  disk, the set of pinned blocks and the set of locked blocks. Inside it the common idioms are
  proved once: reading a block, changing a block in place and copying one block to another.
  The model of \<^verbatim>\<open>bio.c\<close> is shown to meet the contract.
\<close>

section \<open>Pinned and locked blocks\<close>

definition dirtyset :: "'a bio_scheme \<Rightarrow> u32 set" where
  "dirtyset s = {b. \<exists>i<NBUF. holds b (bufs s i) \<and> dirty (bufs s i)}"

definition lockset :: "'a bio_scheme \<Rightarrow> u32 set" where
  "lockset s = {b. \<exists>i<NBUF. holds b (bufs s i) \<and> slocked (blk (bufs s i)) \<noteq> 0}"

lemma room_card:
  assumes "bio_inv s" "b \<in> dirtyset s \<or> card (dirtyset s \<union> lockset s) < NBUF"
  shows "room b s"
proof (rule ccontr)
  assume no: "\<not> room b s"
  then have "b \<notin> dirtyset s" by (auto simp: room_def dirtyset_def)
  have used: "holds (blockno (bufs s i)) (bufs s i)" "blockno (bufs s i) \<in> dirtyset s \<union> lockset s" if "i < NBUF" for i
  proof -
    have "dirty (bufs s i) \<or> slocked (blk (bufs s i)) \<noteq> 0"
      using no that bio_invD(2) [OF assms(1) that] by (auto simp: room_def free_buf_def buf_ok_def split: if_splits)
    then show "holds (blockno (bufs s i)) (bufs s i)" "blockno (bufs s i) \<in> dirtyset s \<union> lockset s"
      using bio_invD(2) [OF assms(1) that] that by (auto simp: buf_ok_def holds_def dirtyset_def lockset_def)
  qed
  then have "inj_on (\<lambda>i. blockno (bufs s i)) {..<NBUF}"
    using bio_invD(3) [OF assms(1)] unfolding one_buf_def inj_on_def by (metis lessThan_iff)
  then have "NBUF = card ((\<lambda>i. blockno (bufs s i)) ` {..<NBUF})" by (simp add: card_image)
  also have "\<dots> \<le> card (dirtyset s \<union> lockset s)"
  proof (rule card_mono)
    have "dirtyset s \<union> lockset s \<subseteq> (\<lambda>i. blockno (bufs s i)) ` {..<NBUF}"
      by (auto simp: dirtyset_def lockset_def holds_def)
    then show "finite (dirtyset s \<union> lockset s)" by (rule finite_subset) simp
  qed (use used(2) in auto)
  finally show False using assms(2) \<open>b \<notin> dirtyset s\<close> by simp
qed

lemma finite_dirtyset: "finite (dirtyset s)" "finite (lockset s)"
proof -
  have "dirtyset s \<subseteq> (\<lambda>i. blockno (bufs s i)) ` {..<NBUF}" "lockset s \<subseteq> (\<lambda>i. blockno (bufs s i)) ` {..<NBUF}"
    by (auto simp: dirtyset_def lockset_def holds_def)
  then show "finite (dirtyset s)" "finite (lockset s)" by (auto intro: finite_subset)
qed

lemma mine_lockset: "mine me b i s \<Longrightarrow> b \<in> lockset s"
  by (auto simp: mine_def lockset_def holdingsleep_def)

lemma mine_dirty:
  assumes "bio_inv s" "mine me b i s"
  shows "b \<in> dirtyset s \<longleftrightarrow> dirty (bufs s i)"
  using assms bio_invD(3) [OF assms(1)] unfolding one_buf_def mine_def dirtyset_def by blast

lemma mine_index: "bio_inv s \<Longrightarrow> mine me b i s \<Longrightarrow> mine me b j s \<Longrightarrow> i = j"
  using bio_invD(3) unfolding one_buf_def mine_def by blast

section \<open>The contract, on the model\<close>

lemma bread_contract:
  assumes "bio_inv s" "b < disksize s" "b \<notin> lockset s" "b \<in> dirtyset s \<or> card (dirtyset s \<union> lockset s) < NBUF"
  shows "\<exists>i t. bread me 1 b s = Ok i t \<and> t = s\<lparr>bufs := bufs t\<rparr> \<and> bio_inv t \<and> content t = content s \<and>
    dirtyset t = dirtyset s \<and> lockset t = insert b (lockset s) \<and> mine me b i t \<and>
    (\<forall>c j. mine me c j s \<longrightarrow> mine me c j t)"
proof -
  have "unlocked b s" using assms(3) by (auto simp: unlocked_def lockset_def)
  then obtain i y where y: "taken me b s i y" and r: "bread me 1 b s = Ok i (s\<lparr>bufs := (bufs s)(i := y)\<rparr>)"
    by (rule bread_taken [OF assms(1,2) _ room_card [OF assms(1,4)]])
  define t where "t = s\<lparr>bufs := (bufs s)(i := y)\<rparr>"
  note t = taken_inv [OF assms(1) y, folded t_def] and tk = y [unfolded taken_def]
  have ul: "slocked (blk (bufs s i)) = 0"
    using bio_invD(2) [OF assms(1), of i] tk by (auto simp: buf_ok_def split: if_splits)
  have "c \<in> dirtyset t \<longleftrightarrow> c \<in> dirtyset s" for c
  proof -
    have "holds c y \<and> dirty y \<longleftrightarrow> holds c (bufs s i) \<and> dirty (bufs s i)"
      using tk holds_unique by (metis (full_types))
    then show ?thesis using tk by (auto simp: dirtyset_def t_def split: if_splits)
  qed
  moreover have "c \<in> lockset t \<longleftrightarrow> c = b \<or> c \<in> lockset s" for c
  proof -
    have at: "holds c (bufs t j) \<and> slocked (blk (bufs t j)) \<noteq> 0 \<longleftrightarrow>
        j = i \<and> c = b \<or> holds c (bufs s j) \<and> slocked (blk (bufs s j)) \<noteq> 0" for j
      using tk ul holds_unique [of b y c] by (cases "j = i") (auto simp: t_def)
    have "i < NBUF" using tk by simp
    then show ?thesis unfolding lockset_def mem_Collect_eq at by blast
  qed
  moreover have "mine me c j t" if "mine me c j s" for c j
    using that tk by (auto simp: mine_def t_def)
  ultimately show ?thesis
    using r t by (intro exI [of _ i] exI [of _ t]) (auto simp: t_def)
qed

lemma brelse_contract:
  assumes "bio_inv s" "mine me b i s" "b \<in> dirtyset s \<or> content s b = disk s b"
  shows "\<exists>t. brelse me i s = Ok () t \<and> t = s\<lparr>bufs := bufs t\<rparr> \<and> bio_inv t \<and> content t = content s \<and>
    dirtyset t = dirtyset s \<and> lockset t = lockset s - {b} \<and> (\<forall>c j. c \<noteq> b \<longrightarrow> mine me c j s \<longrightarrow> mine me c j t)"
proof -
  note m = mineD [OF assms(2)]
  have "\<not> dirty (bufs s i) \<Longrightarrow> bdata (bufs s i) = disk s b"
    using assms(3) mine_dirty [OF assms(1,2)] mine_content [OF assms(1,2)] by simp
  then obtain t where t: "brelse me i s = Ok () t" "t = s\<lparr>bufs := bufs t\<rparr>" "bio_inv t" "content t = content s"
    "\<forall>j. body (bufs t j) = body (if j = i then (bufs s i)\<lparr>blk := releasesleep (blk (bufs s i)), refcnt := 0\<rparr> else bufs s j)"
    by (rule brelse_spec [OF assms(1,2)])
  have fi: "holds c (bufs t i) = holds c (bufs s i)" "dirty (bufs t i) = dirty (bufs s i)" "slocked (blk (bufs t i)) = 0" for c
    using body_fields [OF t(5) [rule_format, of i]] by (simp_all add: releasesleep_def holds_def dirty_def)
  have fj: "holds c (bufs t j) = holds c (bufs s j)" "dirty (bufs t j) = dirty (bufs s j)" "blk (bufs t j) = blk (bufs s j)"
    "refcnt (bufs t j) = refcnt (bufs s j)" "valid (bufs t j) = valid (bufs s j)"
    if "j \<noteq> i" for c j
    using body_fields [OF t(5) [rule_format, of j]] that by simp_all
  have "c \<in> dirtyset t \<longleftrightarrow> c \<in> dirtyset s" for c
  proof -
    have "holds c (bufs t j) \<and> dirty (bufs t j) \<longleftrightarrow> holds c (bufs s j) \<and> dirty (bufs s j)" for j
      using fi(1,2) fj(1,2) by (cases "j = i") auto
    then show ?thesis by (simp add: dirtyset_def)
  qed
  moreover have "c \<in> lockset t \<longleftrightarrow> c \<in> lockset s \<and> c \<noteq> b" for c
  proof -
    have "c \<in> lockset t \<longleftrightarrow> (\<exists>j<NBUF. j \<noteq> i \<and> holds c (bufs s j) \<and> slocked (blk (bufs s j)) \<noteq> 0)"
    proof -
      have "holds c (bufs t j) \<and> slocked (blk (bufs t j)) \<noteq> 0 \<longleftrightarrow>
          j \<noteq> i \<and> holds c (bufs s j) \<and> slocked (blk (bufs s j)) \<noteq> 0" for j
        using fi(3) fj(1,3) by (cases "j = i") auto
      then show ?thesis by (simp add: lockset_def)
    qed
    also have "\<dots> \<longleftrightarrow> c \<in> lockset s \<and> c \<noteq> b"
      using bio_invD(3) [OF assms(1)] m(1,4) holds_unique unfolding lockset_def one_buf_def by blast
    finally show ?thesis .
  qed
  moreover have "mine me c j t" if "c \<noteq> b" "mine me c j s" for c j
    using that m(4) holds_unique fj [of j] by (cases "j = i") (auto simp: mine_def)
  ultimately show ?thesis using t(1-4) by (intro exI [of _ t]) auto
qed

text \<open>Changes to a locked buffer that keep its block and its lock.\<close>

lemma sets_upd:
  assumes "bio_inv s" "mine me b i s" "\<And>c. holds c y = holds c (bufs s i)" "blk y = blk (bufs s i)" "refcnt y = refcnt (bufs s i)" "valid y"
    and "bufs t = (bufs s)(i := y)"
  shows "lockset t = lockset s" "dirtyset t = (if dirty y then insert b (dirtyset s) else dirtyset s - {b})"
    "mine me c j s \<Longrightarrow> mine me c j t"
proof -
  note m = mineD [OF assms(2)]
  have "holds c (bufs t j) \<and> slocked (blk (bufs t j)) \<noteq> 0 \<longleftrightarrow> holds c (bufs s j) \<and> slocked (blk (bufs s j)) \<noteq> 0" for j c
    using assms(3,4,7) by (cases "j = i") auto
  then show "lockset t = lockset s" by (simp add: lockset_def)
  have other: "c \<in> dirtyset t \<longleftrightarrow> c \<in> dirtyset s" if "c \<noteq> b" for c
  proof -
    have "holds c (bufs t j) \<and> dirty (bufs t j) \<longleftrightarrow> holds c (bufs s j) \<and> dirty (bufs s j)" for j
      using assms(3,7) m(4) holds_unique [of b _ c] that by (cases "j = i") auto
    then show ?thesis by (simp add: dirtyset_def)
  qed
  have "b \<in> dirtyset t \<longleftrightarrow> dirty y"
    using bio_invD(3) [OF assms(1)] m(1,4) assms(3,7) unfolding dirtyset_def one_buf_def by (auto split: if_splits)
  then have "c \<in> dirtyset t \<longleftrightarrow> c \<in> (if dirty y then insert b (dirtyset s) else dirtyset s - {b})" for c
    using other [of c] by (cases "c = b") auto
  then show "dirtyset t = (if dirty y then insert b (dirtyset s) else dirtyset s - {b})" by blast
  show "mine me c j t" if "mine me c j s"
    using that assms(3-7) by (cases "j = i") (auto simp: mine_def)
qed

lemma modify_contract:
  assumes "bio_inv s" "mine me b i s" "length d = BSIZE"
  defines "t \<equiv> upd_buf i (\<lambda>x. x\<lparr>bdata := d\<rparr>) s"
  shows "t = s\<lparr>bufs := bufs t\<rparr> \<and> bio_inv t \<and> content t = (content s)(b := d) \<and> dirtyset t = dirtyset s \<and>
    lockset t = lockset s \<and> (\<forall>c j. mine me c j s \<longrightarrow> mine me c j t)"
proof -
  have f: "holds c ((bufs s i)\<lparr>bdata := d\<rparr>) = holds c (bufs s i)" "valid ((bufs s i)\<lparr>bdata := d\<rparr>)"
    "dirty ((bufs s i)\<lparr>bdata := d\<rparr>) = dirty (bufs s i)" for c
    using mineD [OF assms(2)] by (simp_all add: holds_def valid_def dirty_def)
  show ?thesis
    using modify_spec [OF assms(1-3)] sets_upd [OF assms(1,2), of "(bufs s i)\<lparr>bdata := d\<rparr>" t] f mine_dirty [OF assms(1,2)]
    by (auto simp: t_def upd_buf_def)
qed

lemma mark_contract:
  assumes "bio_inv s" "mine me b i s"
  defines "t \<equiv> upd_buf i (\<lambda>x. x\<lparr>flags := flags x OR B_DIRTY\<rparr>) s"
  shows "t = s\<lparr>bufs := bufs t\<rparr> \<and> bio_inv t \<and> content t = content s \<and> dirtyset t = insert b (dirtyset s) \<and>
    lockset t = lockset s \<and> (\<forall>c j. mine me c j s \<longrightarrow> mine me c j t)"
proof -
  let ?y = "(bufs s i)\<lparr>flags := flags (bufs s i) OR B_DIRTY\<rparr>"
  have f: "holds c ?y = holds c (bufs s i)" "valid ?y" "dirty ?y" for c
    using mineD [OF assms(2)] by (simp_all add: holds_def flag_fields bit_simps)
  show ?thesis
    using mark_dirty_spec [OF assms(1,2)] sets_upd [OF assms(1,2), of ?y t] f
    by (auto simp: t_def upd_buf_def)
qed

lemma bwrite_contract:
  assumes "bio_inv s" "mine me b i s" "b < disksize s"
  shows "\<exists>t. bwrite me i s = Ok () t \<and> bio_inv t \<and> content t = content s \<and>
    t = s\<lparr>bufs := bufs t, disk := (disk s)(b := content s b), written := written s @ [(b, content s b)]\<rparr> \<and>
    dirtyset t = dirtyset s - {b} \<and> lockset t = lockset s \<and> (\<forall>c j. mine me c j s \<longrightarrow> mine me c j t)"
proof -
  obtain t where t: "bwrite me i s = Ok () t" "bio_inv t" "content t = content s" "mine me b i t" "\<not> dirty (bufs t i)"
    "t = s\<lparr>bufs := (bufs s)(i := bufs t i), disk := (disk s)(b := bdata (bufs s i)), written := written s @ [(b, bdata (bufs s i))]\<rparr>"
    "bdata (bufs t i) = bdata (bufs s i)" "blk (bufs t i) = blk (bufs s i)"
    by (rule bwrite_spec [OF assms])
  have "holds c (bufs t i) = holds c (bufs s i)" for c
    using mineD(4) [OF assms(2)] mineD(4) [OF t(4)] holds_unique by blast
  moreover have e: "bufs t = (bufs s)(i := bufs t i)" by (subst t(6)) simp
  ultimately have "lockset t = lockset s" "dirtyset t = dirtyset s - {b}" "\<forall>c j. mine me c j s \<longrightarrow> mine me c j t"
    using sets_upd [OF assms(1,2), of "bufs t i" t] t(5,8) mineD [OF t(4)] mineD [OF assms(2)] by auto
  moreover have "t = s\<lparr>bufs := bufs t, disk := (disk s)(b := content s b), written := written s @ [(b, content s b)]\<rparr>"
    unfolding mine_content [OF assms(1,2)] using t(6) by (simp only: e [symmetric])
  ultimately show ?thesis using t(1-3) by blast
qed

section \<open>The contract as a locale\<close>

text \<open>What a client can observe: the contents of the blocks, the disk, the pinned and the locked
  blocks and the writes that have reached the disk.\<close>

record view =
  vcont :: "u32 \<Rightarrow> u8 list"
  vdisk :: "u32 \<Rightarrow> u8 list"
  vpin :: "u32 set"
  vlock :: "u32 set"
  vwritten :: "(u32 \<times> u8 list) list"

definition bview :: "'a bio_scheme \<Rightarrow> view" where
  "bview s = \<lparr>vcont = content s, vdisk = disk s, vpin = dirtyset s, vlock = lockset s, vwritten = written s\<rparr>"

text \<open>Only the cache and the disk matter.\<close>

lemma cache_cong:
  assumes "bufs t = bufs s" "disk t = disk s" "written t = written s"
  shows "bview t = bview s" "bio_inv t = bio_inv s" "mine me b i t = mine me b i s" "content t = content s"
    "dirtyset t = dirtyset s" "lockset t = lockset s"
proof -
  show c: "content t = content s" by (rule ext) (simp only: content_def assms)
  show d: "dirtyset t = dirtyset s" "lockset t = lockset s" by (simp_all add: dirtyset_def lockset_def assms(1))
  show "bview t = bview s" by (simp add: bview_def c d assms)
  show "bio_inv t = bio_inv s" "mine me b i t = mine me b i s" by (simp_all add: bio_inv_def mine_def assms)
qed

text \<open>\<open>rest\<close> is the state outside the cache, \<open>lim\<close> the number of blocks, \<open>hnd b i s\<close> says that
  handle \<open>i\<close> stands for the locked block \<open>b\<close>.\<close>

locale block_cache =
  fixes inv :: "'s \<Rightarrow> bool"
    and view :: "'s \<Rightarrow> view"
    and rest :: "'s \<Rightarrow> 'r"
    and lim :: "'r \<Rightarrow> u32"
    and cap :: nat
    and hnd :: "u32 \<Rightarrow> nat \<Rightarrow> 's \<Rightarrow> bool"
    and dat :: "nat \<Rightarrow> 's \<Rightarrow> u8 list"
    and rd :: "u32 \<Rightarrow> 's \<Rightarrow> (nat, 's) outcome"
    and rel :: "nat \<Rightarrow> 's \<Rightarrow> (unit, 's) outcome"
    and wrt :: "nat \<Rightarrow> 's \<Rightarrow> (unit, 's) outcome"
    and upd :: "nat \<Rightarrow> u8 list \<Rightarrow> 's \<Rightarrow> 's"
    and pin :: "nat \<Rightarrow> 's \<Rightarrow> 's"
  assumes rd_ok: "inv s \<Longrightarrow> b < lim (rest s) \<Longrightarrow> b \<notin> vlock (view s) \<Longrightarrow>
      b \<in> vpin (view s) \<or> card (vpin (view s) \<union> vlock (view s)) < cap \<Longrightarrow>
      \<exists>i t. rd b s = Ok i t \<and> inv t \<and> view t = (view s)\<lparr>vlock := insert b (vlock (view s))\<rparr> \<and> rest t = rest s \<and>
        hnd b i t \<and> (\<forall>c j. hnd c j s \<longrightarrow> hnd c j t)"
    and rel_ok: "inv s \<Longrightarrow> hnd b i s \<Longrightarrow> b \<in> vpin (view s) \<or> vcont (view s) b = vdisk (view s) b \<Longrightarrow>
      \<exists>t. rel i s = Ok () t \<and> inv t \<and> view t = (view s)\<lparr>vlock := vlock (view s) - {b}\<rparr> \<and> rest t = rest s \<and>
        (\<forall>c j. c \<noteq> b \<longrightarrow> hnd c j s \<longrightarrow> hnd c j t)"
    and upd_ok: "inv s \<Longrightarrow> hnd b i s \<Longrightarrow> length d = BSIZE \<Longrightarrow>
      inv (upd i d s) \<and> view (upd i d s) = (view s)\<lparr>vcont := (vcont (view s))(b := d)\<rparr> \<and> rest (upd i d s) = rest s \<and>
        (\<forall>c j. hnd c j s \<longrightarrow> hnd c j (upd i d s))"
    and pin_ok: "inv s \<Longrightarrow> hnd b i s \<Longrightarrow>
      inv (pin i s) \<and> view (pin i s) = (view s)\<lparr>vpin := insert b (vpin (view s))\<rparr> \<and> rest (pin i s) = rest s \<and>
        (\<forall>c j. hnd c j s \<longrightarrow> hnd c j (pin i s))"
    and wrt_ok: "inv s \<Longrightarrow> hnd b i s \<Longrightarrow> b < lim (rest s) \<Longrightarrow>
      \<exists>t. wrt i s = Ok () t \<and> inv t \<and> view t = (view s)\<lparr>vdisk := (vdisk (view s))(b := vcont (view s) b),
          vpin := vpin (view s) - {b}, vwritten := vwritten (view s) @ [(b, vcont (view s) b)]\<rparr> \<and> rest t = rest s \<and>
        (\<forall>c j. hnd c j s \<longrightarrow> hnd c j t)"
    and dat_ok: "inv s \<Longrightarrow> hnd b i s \<Longrightarrow> dat i s = vcont (view s) b"
    and hnd_locked: "hnd b i s \<Longrightarrow> b \<in> vlock (view s)"
    and cont_length: "inv s \<Longrightarrow> length (vcont (view s) b) = BSIZE"
    and finite_sets: "finite (vpin (view s))" "finite (vlock (view s))"
begin

text \<open>A block nobody has locked can be read, and the read leaves no trace.\<close>

lemma read_block:
  assumes "inv s" "b < lim (rest s)" "b \<notin> vlock (view s)"
    and "b \<in> vpin (view s) \<or> card (vpin (view s) \<union> vlock (view s)) < cap"
    and "b \<in> vpin (view s) \<or> vcont (view s) b = vdisk (view s) b"
  obtains i t u where "rd b s = Ok i t" "dat i t = vcont (view s) b" "rel i t = Ok () u"
    "inv t" "inv u" "view u = view s" "rest u = rest s" "rest t = rest s" "hnd b i t"
    "\<forall>c j. hnd c j s \<longrightarrow> hnd c j u"
proof -
  obtain i t where t: "rd b s = Ok i t" "inv t" "view t = (view s)\<lparr>vlock := insert b (vlock (view s))\<rparr>" "rest t = rest s"
      "hnd b i t" "\<forall>c j. hnd c j s \<longrightarrow> hnd c j t"
    using rd_ok [OF assms(1-4)] by blast
  obtain u where u: "rel i t = Ok () u" "inv u" "view u = (view t)\<lparr>vlock := vlock (view t) - {b}\<rparr>" "rest u = rest t"
      "\<forall>c j. c \<noteq> b \<longrightarrow> hnd c j t \<longrightarrow> hnd c j u"
    using rel_ok [OF t(2,5)] t(3) assms(5) by auto
  have "view u = view s" using assms(3) by (simp add: u(3) t(3))
  moreover have "c \<noteq> b" if "hnd c j s" for c j using hnd_locked [OF that] assms(3) by auto
  ultimately show thesis
    using that [OF t(1) _ u(1) t(2) u(2)] dat_ok [OF t(2,5)] t u by (auto simp: t(3))
qed

text \<open>Writing a block through to the disk.\<close>

lemma write_block:
  assumes "inv s" "b < lim (rest s)" "b \<notin> vlock (view s)" "length d = BSIZE"
    and "b \<in> vpin (view s) \<or> card (vpin (view s) \<union> vlock (view s)) < cap"
  obtains i t u v where "rd b s = Ok i t" "dat i t = vcont (view s) b" "wrt i (upd i d t) = Ok () u" "rel i u = Ok () v"
    "inv v" "view v = (view s)\<lparr>vcont := (vcont (view s))(b := d), vdisk := (vdisk (view s))(b := d),
       vpin := vpin (view s) - {b}, vwritten := vwritten (view s) @ [(b, d)]\<rparr>"
    "rest v = rest s" "rest t = rest s"
proof -
  obtain i t where t: "rd b s = Ok i t" "inv t" "view t = (view s)\<lparr>vlock := insert b (vlock (view s))\<rparr>" "rest t = rest s" "hnd b i t"
    using rd_ok [OF assms(1-3,5)] by blast
  note u = upd_ok [OF t(2,5) assms(4)]
  obtain v where v: "wrt i (upd i d t) = Ok () v" "inv v" "rest v = rest t" "hnd b i v"
      "view v = (view t)\<lparr>vcont := (vcont (view t))(b := d), vdisk := (vdisk (view t))(b := d),
       vpin := vpin (view t) - {b}, vwritten := vwritten (view t) @ [(b, d)]\<rparr>"
    using wrt_ok [of "upd i d t" b i] u assms(2) t(4,5) by fastforce
  obtain w where w: "rel i v = Ok () w" "inv w" "view w = (view v)\<lparr>vlock := vlock (view v) - {b}\<rparr>" "rest w = rest v"
    using rel_ok [OF v(2,4)] v(5) by auto
  show thesis
    using that [OF t(1) _ v(1) w(1,2)] dat_ok [OF t(2,5)] w v t assms(3) by (simp add: insert_absorb)
qed

text \<open>Locking two blocks, and copying one locked block to another with a write to the disk.\<close>

lemma read_two:
  assumes "inv s" "a < lim (rest s)" "b < lim (rest s)" "a \<noteq> b" "a \<notin> vlock (view s)" "b \<notin> vlock (view s)"
    and "a \<in> vpin (view s) \<or> card (vpin (view s) \<union> vlock (view s)) < cap"
    and "b \<in> vpin (view s) \<or> Suc (card (vpin (view s) \<union> vlock (view s))) < cap"
  obtains i t j u where "rd a s = Ok i t" "rd b t = Ok j u" "inv u" "hnd a i u" "hnd b j u"
    "view u = (view s)\<lparr>vlock := insert b (insert a (vlock (view s)))\<rparr>" "rest u = rest s" "rest t = rest s"
proof -
  obtain i t where t: "rd a s = Ok i t" "inv t" "view t = (view s)\<lparr>vlock := insert a (vlock (view s))\<rparr>" "rest t = rest s" "hnd a i t"
    using rd_ok [OF assms(1,2,5,7)] by blast
  have "card (insert a (vpin (view s) \<union> vlock (view s))) \<le> Suc (card (vpin (view s) \<union> vlock (view s)))"
    by (rule card_insert_le_m1) simp_all
  then have room: "b \<in> vpin (view t) \<or> card (vpin (view t) \<union> vlock (view t)) < cap"
    using assms(8) by (auto simp: t(3))
  have b: "b < lim (rest t)" "b \<notin> vlock (view t)" using assms(3,4,6) t(3,4) by auto
  obtain j u where "rd b t = Ok j u" "inv u" "view u = (view t)\<lparr>vlock := insert b (vlock (view t))\<rparr>" "rest u = rest t"
      "hnd b j u" "\<forall>c j. hnd c j t \<longrightarrow> hnd c j u"
    using rd_ok [OF t(2) b room] by blast
  then show thesis using that t by simp
qed

lemma copy_locked:
  assumes "inv u" "hnd a i u" "hnd b j u" "a \<noteq> b" "b < lim (rest u)" "a \<in> vpin (view u) \<or> vcont (view u) a = vdisk (view u) a"
  obtains v w z where "wrt j (upd j (dat i u) u) = Ok () v" "rel i v = Ok () w" "rel j w = Ok () z" "inv z"
    "view z = (view u)\<lparr>vcont := (vcont (view u))(b := vcont (view u) a), vdisk := (vdisk (view u))(b := vcont (view u) a),
       vpin := vpin (view u) - {b}, vlock := vlock (view u) - {a, b}, vwritten := vwritten (view u) @ [(b, vcont (view u) a)]\<rparr>"
    "rest z = rest u"
proof -
  define d where "d = vcont (view u) a"
  have d: "dat i u = d" "length d = BSIZE" using dat_ok [OF assms(1,2)] cont_length [OF assms(1)] by (simp_all add: d_def)
  note up = upd_ok [OF assms(1,3) d(2)]
  obtain v where v: "wrt j (upd j d u) = Ok () v" "inv v" "rest v = rest u" "\<forall>c k. hnd c k u \<longrightarrow> hnd c k v"
      "view v = (view u)\<lparr>vcont := (vcont (view u))(b := d), vdisk := (vdisk (view u))(b := d),
       vpin := vpin (view u) - {b}, vwritten := vwritten (view u) @ [(b, d)]\<rparr>"
    using wrt_ok [of "upd j d u" b j] up assms(3,5) by fastforce
  have h: "hnd a i v" "hnd b j v" using v(4) assms(2,3) by blast+
  obtain w where w: "rel i v = Ok () w" "inv w" "view w = (view v)\<lparr>vlock := vlock (view v) - {a}\<rparr>" "rest w = rest v"
      "\<forall>c k. c \<noteq> a \<longrightarrow> hnd c k v \<longrightarrow> hnd c k w"
    using rel_ok [OF v(2) h(1)] v(5) assms(4,6) by auto
  obtain z where z: "rel j w = Ok () z" "inv z" "view z = (view w)\<lparr>vlock := vlock (view w) - {b}\<rparr>" "rest z = rest w"
    using rel_ok [OF w(2), of b j] w(5) h(2) assms(4) by (auto simp: w(3) v(5))
  have "vlock (view u) - {a} - {b} = vlock (view u) - {a, b}" by auto
  then show thesis
    using that [of v w z] v w z d by (simp add: d_def)
qed

end

text \<open>The cache of \<^verbatim>\<open>bio.c\<close> meets the contract, for every process.\<close>

lemma only_bufs:
  assumes "t = s\<lparr>bufs := bufs t\<rparr>"
  shows "disk t = disk s" "disksize t = disksize s" "written t = written s" "bio.more t = bio.more s"
  using arg_cong [OF assms, of disk] arg_cong [OF assms, of disksize] arg_cong [OF assms, of written]
    arg_cong [OF assms, of bio.more] by simp_all

interpretation bc: block_cache bio_inv bview "\<lambda>s. (disksize s, bio.more s)" fst NBUF "mine me"
  "\<lambda>i s. bdata (bufs s i)" "bread me 1" "brelse me" "bwrite me"
  "\<lambda>i d. upd_buf i (\<lambda>x. x\<lparr>bdata := d\<rparr>)" "\<lambda>i. upd_buf i (\<lambda>x. x\<lparr>flags := flags x OR B_DIRTY\<rparr>)" for me
proof
  fix s :: "'a bio_scheme" and b i
  show "finite (vpin (bview s))" "finite (vlock (bview s))"
    by (simp_all add: bview_def finite_dirtyset)
  show "mine me b i s \<Longrightarrow> b \<in> vlock (bview s)"
    by (simp add: bview_def mine_lockset)
next
  fix s :: "'a bio_scheme" and b i
  assume inv: "bio_inv s"
  show "length (vcont (bview s) b) = BSIZE"
    using content_length [OF inv] by (simp add: bview_def)
  show "\<exists>i t. bread me 1 b s = Ok i t \<and> bio_inv t \<and> bview t = (bview s)\<lparr>vlock := insert b (vlock (bview s))\<rparr> \<and>
      (disksize t, bio.more t) = (disksize s, bio.more s) \<and> mine me b i t \<and> (\<forall>c j. mine me c j s \<longrightarrow> mine me c j t)"
    if "b < fst (disksize s, bio.more s)" "b \<notin> vlock (bview s)"
      "b \<in> vpin (bview s) \<or> card (vpin (bview s) \<union> vlock (bview s)) < NBUF"
  proof -
    have "b < disksize s" "b \<notin> lockset s" "b \<in> dirtyset s \<or> card (dirtyset s \<union> lockset s) < NBUF"
      using that by (simp_all add: bview_def)
    from bread_contract [OF inv this, of me] obtain j t where
      t: "bread me 1 b s = Ok j t" "t = s\<lparr>bufs := bufs t\<rparr>" "bio_inv t" "content t = content s"
      "dirtyset t = dirtyset s" "lockset t = insert b (lockset s)" "mine me b j t" "\<forall>c j. mine me c j s \<longrightarrow> mine me c j t"
      by blast
    then show ?thesis
      by (intro exI [of _ j] exI [of _ t]) (simp add: bview_def only_bufs [OF t(2)])
  qed
  show "\<exists>t. brelse me i s = Ok () t \<and> bio_inv t \<and> bview t = (bview s)\<lparr>vlock := vlock (bview s) - {b}\<rparr> \<and>
      (disksize t, bio.more t) = (disksize s, bio.more s) \<and> (\<forall>c j. c \<noteq> b \<longrightarrow> mine me c j s \<longrightarrow> mine me c j t)"
    if "mine me b i s" "b \<in> vpin (bview s) \<or> vcont (bview s) b = vdisk (bview s) b"
  proof -
    have "b \<in> dirtyset s \<or> content s b = disk s b" using that(2) by (simp add: bview_def)
    from brelse_contract [OF inv that(1) this] obtain t where
      t: "brelse me i s = Ok () t" "t = s\<lparr>bufs := bufs t\<rparr>" "bio_inv t" "content t = content s"
      "dirtyset t = dirtyset s" "lockset t = lockset s - {b}" "\<forall>c j. c \<noteq> b \<longrightarrow> mine me c j s \<longrightarrow> mine me c j t"
      by blast
    then show ?thesis
      by (intro exI [of _ t]) (simp add: bview_def only_bufs [OF t(2)])
  qed
  assume m: "mine me b i s"
  show "bdata (bufs s i) = vcont (bview s) b"
    using mine_content [OF inv m] by (simp add: bview_def)
  show "bio_inv (upd_buf i (\<lambda>x. x\<lparr>bdata := d\<rparr>) s) \<and>
      bview (upd_buf i (\<lambda>x. x\<lparr>bdata := d\<rparr>) s) = (bview s)\<lparr>vcont := (vcont (bview s))(b := d)\<rparr> \<and>
      (disksize (upd_buf i (\<lambda>x. x\<lparr>bdata := d\<rparr>) s), bio.more (upd_buf i (\<lambda>x. x\<lparr>bdata := d\<rparr>) s)) = (disksize s, bio.more s) \<and>
      (\<forall>c j. mine me c j s \<longrightarrow> mine me c j (upd_buf i (\<lambda>x. x\<lparr>bdata := d\<rparr>) s))" if "length d = BSIZE" for d
    using modify_contract [OF inv m that] by (simp add: bview_def) (simp add: upd_buf_def)
  show "bio_inv (upd_buf i (\<lambda>x. x\<lparr>flags := flags x OR B_DIRTY\<rparr>) s) \<and>
      bview (upd_buf i (\<lambda>x. x\<lparr>flags := flags x OR B_DIRTY\<rparr>) s) = (bview s)\<lparr>vpin := insert b (vpin (bview s))\<rparr> \<and>
      (disksize (upd_buf i (\<lambda>x. x\<lparr>flags := flags x OR B_DIRTY\<rparr>) s),
       bio.more (upd_buf i (\<lambda>x. x\<lparr>flags := flags x OR B_DIRTY\<rparr>) s)) = (disksize s, bio.more s) \<and>
      (\<forall>c j. mine me c j s \<longrightarrow> mine me c j (upd_buf i (\<lambda>x. x\<lparr>flags := flags x OR B_DIRTY\<rparr>) s))"
    using mark_contract [OF inv m] by (simp add: bview_def) (simp add: upd_buf_def)
  show "\<exists>t. bwrite me i s = Ok () t \<and> bio_inv t \<and>
      bview t = (bview s)\<lparr>vdisk := (vdisk (bview s))(b := vcont (bview s) b), vpin := vpin (bview s) - {b},
        vwritten := vwritten (bview s) @ [(b, vcont (bview s) b)]\<rparr> \<and>
      (disksize t, bio.more t) = (disksize s, bio.more s) \<and> (\<forall>c j. mine me c j s \<longrightarrow> mine me c j t)"
    if "b < fst (disksize s, bio.more s)"
  proof -
    have "b < disksize s" using that by simp
    from bwrite_contract [OF inv m this] obtain t where t: "bwrite me i s = Ok () t" "bio_inv t" "content t = content s"
      "t = s\<lparr>bufs := bufs t, disk := (disk s)(b := content s b), written := written s @ [(b, content s b)]\<rparr>"
      "dirtyset t = dirtyset s - {b}" "lockset t = lockset s" "\<forall>c j. mine me c j s \<longrightarrow> mine me c j t"
      by blast
    then show ?thesis
      using arg_cong [OF t(4), of disk] arg_cong [OF t(4), of disksize] arg_cong [OF t(4), of written]
        arg_cong [OF t(4), of bio.more] by (intro exI [of _ t]) (simp add: bview_def)
  qed
qed

end
