(* ===== verification/Bytes.thy ===== *)
theory Bytes
  imports Kstring
begin

text \<open>
  Integers inside byte arrays, little-endian, as the kernel reads and writes them through a
  structure laid over the data of a disk block or of a directory entry.
\<close>

definition get16 :: "u8 list \<Rightarrow> nat \<Rightarrow> u16" where
  "get16 d k = ucast (d ! k) OR push_bit 8 (ucast (d ! (k + 1)))"

definition put16 :: "u8 list \<Rightarrow> nat \<Rightarrow> u16 \<Rightarrow> u8 list" where
  "put16 d k v = d[k := ucast v, k + 1 := ucast (drop_bit 8 v)]"

definition get32 :: "u8 list \<Rightarrow> nat \<Rightarrow> u32" where
  "get32 d k = ucast (d ! k) OR push_bit 8 (ucast (d ! (k + 1)))
     OR push_bit 16 (ucast (d ! (k + 2))) OR push_bit 24 (ucast (d ! (k + 3)))"

definition put32 :: "u8 list \<Rightarrow> nat \<Rightarrow> u32 \<Rightarrow> u8 list" where
  "put32 d k v = d[k := ucast v, k + 1 := ucast (drop_bit 8 v),
     k + 2 := ucast (drop_bit 16 v), k + 3 := ucast (drop_bit 24 v)]"

lemma put_length [simp]: "length (put16 d k v) = length d" "length (put32 d k w) = length d"
  by (simp_all add: put16_def put32_def)

lemma get_put16_same [simp]: "k + 2 \<le> length d \<Longrightarrow> get16 (put16 d k v) k = v"
proof (rule bit_word_eqI)
  fix n assume k: "k + 2 \<le> length d" and n: "n < LENGTH(16)"
  then consider "n < 8" | "8 \<le> n" "n < 16" by fastforce
  then show "bit (get16 (put16 d k v) k) n = bit v n"
    using k by cases (auto simp: get16_def put16_def bit_simps nth_list_update)
qed

lemma get_put32_same [simp]: "k + 4 \<le> length d \<Longrightarrow> get32 (put32 d k v) k = v"
proof (rule bit_word_eqI)
  fix n assume k: "k + 4 \<le> length d" and n: "n < LENGTH(32)"
  then consider "n < 8" | "8 \<le> n" "n < 16" | "16 \<le> n" "n < 24" | "24 \<le> n" "n < 32" by fastforce
  then show "bit (get32 (put32 d k v) k) n = bit v n"
    using k by cases (auto simp: get32_def put32_def bit_simps nth_list_update)
qed

lemma nth_put:
  "i < k \<or> k + 2 \<le> i \<Longrightarrow> put16 d k v ! i = d ! i"
  "i < k \<or> k + 4 \<le> i \<Longrightarrow> put32 d k w ! i = d ! i"
  by (auto simp: put16_def put32_def nth_list_update)

lemma get_put_other [simp]:
  "j + 4 \<le> k \<or> k + 4 \<le> j \<Longrightarrow> get32 (put32 d k v) j = get32 d j"
  "j + 4 \<le> k \<or> k + 2 \<le> j \<Longrightarrow> get32 (put16 d k w) j = get32 d j"
  "j + 2 \<le> k \<or> k + 4 \<le> j \<Longrightarrow> get16 (put32 d k v) j = get16 d j"
  "j + 2 \<le> k \<or> k + 2 \<le> j \<Longrightarrow> get16 (put16 d k w) j = get16 d j"
  by (auto simp: get32_def get16_def nth_put)

text \<open>A copy of \<open>src\<close> into \<open>d\<close> from position \<open>k\<close> on (\<^verbatim>\<open>memmove\<close> into the data of a block).\<close>

definition splice :: "u8 list \<Rightarrow> nat \<Rightarrow> u8 list \<Rightarrow> u8 list" where
  "splice d k src = take k d @ src @ drop (k + length src) d"

lemma splice_length [simp]: "k + length src \<le> length d \<Longrightarrow> length (splice d k src) = length d"
  by (simp add: splice_def)

lemma nth_splice:
  assumes "k + length src \<le> length d" "i < length d"
  shows "splice d k src ! i = (if k \<le> i \<and> i < k + length src then src ! (i - k) else d ! i)"
  using assms by (auto simp: splice_def nth_append)

lemma take_drop_splice [simp]:
  "k + length src \<le> length d \<Longrightarrow> take (length src) (drop k (splice d k src)) = src"
  by (simp add: splice_def)

end
