(* ===== verification/Log.thy ===== *)
theory Log
  imports Cache Bytes
begin

text \<open>
  The redo log (\<^verbatim>\<open>log.c\<close>) on top of the buffer cache: the in-memory header, \<^verbatim>\<open>begin_op\<close>,
  \<^verbatim>\<open>log_write\<close>, \<^verbatim>\<open>end_op\<close>, \<^verbatim>\<open>commit\<close> with its three phases and the recovery at boot. The
  theorems are about crashes: the writes of a commit are recorded in the order in which they
  reach the disk, and recovery from the disk after any prefix of them restores all of the
  blocks as they were before the transaction or all of them as the transaction left them.
\<close>

section \<open>State\<close>

definition LOGSIZE :: nat where
  "LOGSIZE = 30"

record logst = bio +
  lstart :: i32
  lsize :: i32
  outstanding :: i32
  committing :: i32
  ldev :: i32
  lhn :: i32
  lhblock :: "u32 list"

record superblock =
  sb_size :: u32
  nblocks :: u32
  ninodes :: u32
  nlog :: u32
  logstart :: u32
  inodestart :: u32
  bmapstart :: u32

definition sb_of :: "u8 list \<Rightarrow> superblock" where
  "sb_of d = \<lparr>sb_size = get32 d 0, nblocks = get32 d 4, ninodes = get32 d 8, nlog = get32 d 12,
     logstart = get32 d 16, inodestart = get32 d 20, bmapstart = get32 d 24\<rparr>"

section \<open>The routines\<close>

text \<open>\<^verbatim>\<open>readsb\<close> of \<^verbatim>\<open>fs.c\<close>.\<close>

definition readsb :: "i32 \<Rightarrow> u32 \<Rightarrow> 'a bio_scheme \<Rightarrow> (superblock, 'a bio_scheme) outcome" where
  "readsb me dev s = bindO (bread me dev 1 s) (\<lambda>bp s.
     let sb = sb_of (bdata (bufs s bp)) in bindO (brelse me bp s) (\<lambda>_ s. Ok sb s))"

text \<open>The body of the loop shared by \<^verbatim>\<open>install_trans\<close> and, with the roles exchanged,
  \<^verbatim>\<open>write_log\<close>. An index past the end of \<^verbatim>\<open>log.lh.block\<close> reads outside the array.\<close>

primrec install_loop :: "i32 \<Rightarrow> nat \<Rightarrow> nat \<Rightarrow> 'a logst_scheme \<Rightarrow> (unit, 'a logst_scheme) outcome" where
  "install_loop me tail 0 s = Ok () s"
| "install_loop me tail (Suc k) s =
     (if LOGSIZE \<le> tail then Fault ''log.lh.block''
      else bindO (bread me (ldev s) (lstart s + of_nat tail + 1) s) (\<lambda>lbuf s.
        bindO (bread me (ldev s) (lhblock s ! tail) s) (\<lambda>dbuf s.
        bindO (bwrite me dbuf (upd_buf dbuf (\<lambda>x. x\<lparr>bdata := bdata (bufs s lbuf)\<rparr>) s)) (\<lambda>_ s.
        bindO (brelse me lbuf s) (\<lambda>_ s.
        bindO (brelse me dbuf s) (\<lambda>_ s. install_loop me (Suc tail) k s))))))"

definition install_trans :: "i32 \<Rightarrow> 'a logst_scheme \<Rightarrow> (unit, 'a logst_scheme) outcome" where
  "install_trans me s = install_loop me 0 (rounds (lhn s)) s"

primrec write_log_loop :: "i32 \<Rightarrow> nat \<Rightarrow> nat \<Rightarrow> 'a logst_scheme \<Rightarrow> (unit, 'a logst_scheme) outcome" where
  "write_log_loop me tail 0 s = Ok () s"
| "write_log_loop me tail (Suc k) s =
     (if LOGSIZE \<le> tail then Fault ''log.lh.block''
      else bindO (bread me (ldev s) (lstart s + of_nat tail + 1) s) (\<lambda>to s.
        bindO (bread me (ldev s) (lhblock s ! tail) s) (\<lambda>fr s.
        bindO (bwrite me to (upd_buf to (\<lambda>x. x\<lparr>bdata := bdata (bufs s fr)\<rparr>) s)) (\<lambda>_ s.
        bindO (brelse me fr s) (\<lambda>_ s.
        bindO (brelse me to s) (\<lambda>_ s. write_log_loop me (Suc tail) k s))))))"

definition write_log :: "i32 \<Rightarrow> 'a logst_scheme \<Rightarrow> (unit, 'a logst_scheme) outcome" where
  "write_log me s = write_log_loop me 0 (rounds (lhn s)) s"

text \<open>\<^verbatim>\<open>struct logheader\<close> over the data of a block: \<^verbatim>\<open>n\<close> at offset 0, \<^verbatim>\<open>block[i]\<close> at \<open>4 + 4 * i\<close>.\<close>

definition read_head :: "i32 \<Rightarrow> 'a logst_scheme \<Rightarrow> (unit, 'a logst_scheme) outcome" where
  "read_head me s = bindO (bread me (ldev s) (lstart s) s) (\<lambda>b s.
     let d = bdata (bufs s b); n = rounds (get32 d 0) in
     if LOGSIZE < n then Fault ''log.lh.block''
     else let s = s\<lparr>lhn := get32 d 0, lhblock := map (\<lambda>i. get32 d (4 + 4 * i)) [0..<n] @ drop n (lhblock s)\<rparr>
       in brelse me b s)"

primrec put_blocks :: "nat \<Rightarrow> u32 list \<Rightarrow> u8 list \<Rightarrow> u8 list" where
  "put_blocks i [] d = d"
| "put_blocks i (b # bs) d = put_blocks (Suc i) bs (put32 d (4 + 4 * i) b)"

lemma put_blocks_length [simp]: "length (put_blocks i bs d) = length d"
  by (induction bs arbitrary: i d) simp_all

definition head_bytes :: "i32 \<Rightarrow> u32 list \<Rightarrow> u8 list \<Rightarrow> u8 list" where
  "head_bytes n blocks d = put_blocks 0 (take (rounds n) blocks) (put32 d 0 n)"

definition write_head :: "i32 \<Rightarrow> 'a logst_scheme \<Rightarrow> (unit, 'a logst_scheme) outcome" where
  "write_head me s = bindO (bread me (ldev s) (lstart s) s) (\<lambda>b s.
     if LOGSIZE < rounds (lhn s) then Fault ''log.lh.block''
     else bindO (bwrite me b (upd_buf b (\<lambda>x. x\<lparr>bdata := head_bytes (lhn s) (lhblock s) (bdata x)\<rparr>) s)) (\<lambda>_ s.
       brelse me b s))"

definition recover_from_log :: "i32 \<Rightarrow> 'a logst_scheme \<Rightarrow> (unit, 'a logst_scheme) outcome" where
  "recover_from_log me s = bindO (read_head me s) (\<lambda>_ s. bindO (install_trans me s) (\<lambda>_ s.
     write_head me (s\<lparr>lhn := 0\<rparr>)))"

text \<open>\<^verbatim>\<open>sizeof(struct logheader)\<close> is 124, below \<^verbatim>\<open>BSIZE\<close>, so the check of \<^verbatim>\<open>initlog\<close> never fires.\<close>

definition initlog :: "i32 \<Rightarrow> i32 \<Rightarrow> 'a logst_scheme \<Rightarrow> (unit, 'a logst_scheme) outcome" where
  "initlog me dev s = bindO (readsb me dev s) (\<lambda>sb s.
     recover_from_log me (s\<lparr>lstart := logstart sb, lsize := nlog sb, ldev := dev\<rparr>))"

text \<open>\<^verbatim>\<open>begin_op\<close> waits while a commit runs or the log might overflow; with no other process to
  end it, it waits for ever.\<close>

definition begin_op :: "'a logst_scheme \<Rightarrow> (unit, 'a logst_scheme) outcome" where
  "begin_op s =
     (if committing s \<noteq> 0 then Diverge
      else if 30 <s lhn s + (outstanding s + 1) * 10 then Diverge
      else Ok () (s\<lparr>outstanding := outstanding s + 1\<rparr>))"

definition commit :: "i32 \<Rightarrow> 'a logst_scheme \<Rightarrow> (unit, 'a logst_scheme) outcome" where
  "commit me s =
     (if 0 <s lhn s then
        bindO (write_log me s) (\<lambda>_ s. bindO (write_head me s) (\<lambda>_ s. bindO (install_trans me s) (\<lambda>_ s.
          write_head me (s\<lparr>lhn := 0\<rparr>))))
      else Ok () s)"

definition end_op :: "i32 \<Rightarrow> 'a logst_scheme \<Rightarrow> (unit, 'a logst_scheme) outcome" where
  "end_op me s =
     (let s = s\<lparr>outstanding := outstanding s - 1\<rparr> in
      if committing s \<noteq> 0 then Panic ''log.committing''
      else if outstanding s = 0 then
        bindO (commit me (s\<lparr>committing := 1\<rparr>)) (\<lambda>_ s. Ok () (s\<lparr>committing := 0\<rparr>))
      else Ok () s)"

definition log_write :: "nat \<Rightarrow> 'a logst_scheme \<Rightarrow> (unit, 'a logst_scheme) outcome" where
  "log_write b s =
     (if 30 \<le>s lhn s \<or> lsize s - 1 \<le>s lhn s then Panic ''too big a transaction''
      else if outstanding s <s 1 then Panic ''log_write outside of trans''
      else
        let bno = blockno (bufs s b);
            i = length (takeWhile (\<lambda>c. c \<noteq> bno) (take (rounds (lhn s)) (lhblock s)));
            s = s\<lparr>lhblock := (lhblock s)[i := bno], lhn := if i = rounds (lhn s) then lhn s + 1 else lhn s\<rparr>
        in Ok () (upd_buf b (\<lambda>x. x\<lparr>flags := flags x OR B_DIRTY\<rparr>) s))"

section \<open>The log fields and the cache\<close>

lemma log_rest:
  fixes s t :: "'a logst_scheme"
  assumes "bio.more t = bio.more s"
  shows "lstart t = lstart s" "lsize t = lsize s" "outstanding t = outstanding s" "committing t = committing s"
    "ldev t = ldev s" "lhn t = lhn s" "lhblock t = lhblock s" "logst.more t = logst.more s"
  using assms by (cases s; cases t; simp)+

lemma log_fields:
  fixes s :: "'a logst_scheme"
  shows "bufs (s\<lparr>lhn := n\<rparr>) = bufs s" "disk (s\<lparr>lhn := n\<rparr>) = disk s" "written (s\<lparr>lhn := n\<rparr>) = written s"
    "bufs (s\<lparr>lhblock := bs\<rparr>) = bufs s" "disk (s\<lparr>lhblock := bs\<rparr>) = disk s" "written (s\<lparr>lhblock := bs\<rparr>) = written s"
  by simp_all

lemmas lhn_cache = cache_cong [OF log_fields(1-3)] and lhblock_cache = cache_cong [OF log_fields(4-6)]

declare lhn_cache [simp] lhblock_cache [simp]

section \<open>What the phases do\<close>

primrec apply_writes :: "(u32 \<times> u8 list) list \<Rightarrow> (u32 \<Rightarrow> u8 list) \<Rightarrow> u32 \<Rightarrow> u8 list" where
  "apply_writes [] d = d"
| "apply_writes (w # ws) d = apply_writes ws (d(fst w := snd w))"

lemma apply_writes_append: "apply_writes (xs @ ys) d = apply_writes ys (apply_writes xs d)"
  by (induction xs arbitrary: d) simp_all

lemma apply_writes_other: "b \<notin> fst ` set ws \<Longrightarrow> apply_writes ws d b = d b"
  by (induction ws arbitrary: d) auto

text \<open>A block that is neither pinned nor locked is clean.\<close>

lemma clean_content:
  assumes "bio_inv s" "b \<notin> dirtyset s" "b \<notin> lockset s"
  shows "content s b = disk s b"
proof (cases "\<exists>i<NBUF. holds b (bufs s i) \<and> valid (bufs s i)")
  case True
  then obtain i where i: "i < NBUF" "holds b (bufs s i)" "valid (bufs s i)" by blast
  have "\<not> dirty (bufs s i)" "slocked (blk (bufs s i)) = 0"
    using assms(2,3) i by (auto simp: dirtyset_def lockset_def)
  then have "bdata (bufs s i) = disk s (blockno (bufs s i))"
    using bio_invD(2) [OF assms(1) i(1)] i(2,3) by (intro buf_ok_clean) (auto simp: buf_ok_def holds_def)
  then show ?thesis
    using content_cached [OF bio_invD(3) [OF assms(1)] i] i(2) by (simp add: holds_def)
next
  case False
  then show ?thesis by (intro content_uncached) blast
qed

text \<open>The position of entry \<open>i\<close> in the log.\<close>

definition log_pos :: "'a logst_scheme \<Rightarrow> nat \<Rightarrow> u32" where
  "log_pos s i = lstart s + of_nat i + 1"

definition log_writes :: "'a logst_scheme \<Rightarrow> nat \<Rightarrow> nat \<Rightarrow> (u32 \<times> u8 list) list" where
  "log_writes s a b = map (\<lambda>i. (log_pos s i, content s (lhblock s ! i))) [a..<b]"

definition home_writes :: "'a logst_scheme \<Rightarrow> nat \<Rightarrow> nat \<Rightarrow> (u32 \<times> u8 list) list" where
  "home_writes s a b = map (\<lambda>i. (lhblock s ! i, content s (log_pos s i))) [a..<b]"

lemma log_pos_rest:
  assumes "bio.more t = bio.more s"
  shows "log_pos t i = log_pos s i"
  by (simp add: log_pos_def log_rest(1) [OF assms])

text \<open>The log and the blocks it names are blocks of the disk and do not overlap.\<close>

definition log_layout :: "'a logst_scheme \<Rightarrow> nat \<Rightarrow> bool" where
  "log_layout s n \<longleftrightarrow> ldev s = 1 \<and> n \<le> LOGSIZE \<and> lstart s < disksize s \<and>
     (\<forall>i<n. log_pos s i < disksize s \<and> log_pos s i \<noteq> lstart s \<and> lhblock s ! i < disksize s \<and> lhblock s ! i \<noteq> lstart s \<and>
        (\<forall>j<n. lhblock s ! i \<noteq> log_pos s j))"

lemma log_layout_rest:
  assumes "disksize t = disksize s" "bio.more t = bio.more s"
  shows "log_layout t n = log_layout s n"
  unfolding log_layout_def assms(1) log_rest [OF assms(2)] log_pos_rest [OF assms(2)] ..

lemma log_layoutD:
  assumes "log_layout s n"
  shows "ldev s = 1" "n \<le> LOGSIZE" "lstart s < disksize s"
    "i < n \<Longrightarrow> log_pos s i < disksize s" "i < n \<Longrightarrow> log_pos s i \<noteq> lstart s"
    "i < n \<Longrightarrow> lhblock s ! i < disksize s" "i < n \<Longrightarrow> lhblock s ! i \<noteq> lstart s"
    "i < n \<Longrightarrow> j < n \<Longrightarrow> log_pos s j \<noteq> lhblock s ! i"
  using assms unfolding log_layout_def by metis+

lemma write_log_loop_spec:
  fixes s :: "'a logst_scheme"
  assumes "bio_inv s" "lockset s = {}" "log_layout s n" "tail + k \<le> n" "card (dirtyset s) < NBUF"
    and "\<forall>i<n. lhblock s ! i \<in> dirtyset s" "\<forall>i<n. log_pos s i \<notin> dirtyset s"
  shows "\<exists>t. write_log_loop me tail k s = Ok () t \<and> bio_inv t \<and> disksize t = disksize s \<and> bio.more t = bio.more s \<and>
    bview t = (bview s)\<lparr>vcont := apply_writes (log_writes s tail (tail + k)) (content s),
      vdisk := apply_writes (log_writes s tail (tail + k)) (disk s), vwritten := written s @ log_writes s tail (tail + k)\<rparr>"
  using assms
proof (induction k arbitrary: s tail)
  case 0
  then show ?case by (simp add: log_writes_def bview_def)
next
  case (Suc k)
  have tn: "tail < n" using Suc.prems(4) by simp
  define a where "a = log_pos s tail"
  define b where "b = lhblock s ! tail"
  have ab: "a \<noteq> b" "a < disksize s" "b < disksize s" "ldev s = 1" "\<not> LOGSIZE \<le> tail" "a \<notin> dirtyset s" "b \<in> dirtyset s"
    using Suc.prems(3,6,7) tn by (auto simp: log_layout_def a_def b_def)
  obtain i t j u where t: "bread me 1 a s = Ok i t" "bread me 1 b t = Ok j u" "bio_inv u" "mine me a i u" "mine me b j u"
      "bview u = (bview s)\<lparr>vlock := insert b (insert a (vlock (bview s)))\<rparr>" "(disksize u, bio.more u) = (disksize s, bio.more s)"
      "(disksize t, bio.more t) = (disksize s, bio.more s)"
    by (rule bc.read_two [OF Suc.prems(1), of a b me]) (use ab Suc.prems(2,5) in \<open>simp_all add: bview_def\<close>)
  obtain v w z where z: "bwrite me i (upd_buf i (\<lambda>x. x\<lparr>bdata := bdata (bufs u j)\<rparr>) u) = Ok () v" "brelse me j v = Ok () w"
      "brelse me i w = Ok () z" "bio_inv z"
      "bview z = (bview u)\<lparr>vcont := (vcont (bview u))(a := vcont (bview u) b), vdisk := (vdisk (bview u))(a := vcont (bview u) b),
       vpin := vpin (bview u) - {a}, vlock := vlock (bview u) - {b, a}, vwritten := vwritten (bview u) @ [(a, vcont (bview u) b)]\<rparr>"
      "(disksize z, bio.more z) = (disksize u, bio.more u)"
    by (rule bc.copy_locked [OF t(3,5,4)]) (use ab t(6,7) in \<open>simp_all add: bview_def\<close>)
  have more: "bio.more t = bio.more s" "bio.more u = bio.more s" "bio.more z = bio.more s" "disksize z = disksize s"
    using t(7,8) z(6) by simp_all
  note zr = log_rest [OF more(3)] log_pos_rest [OF more(3)] log_layout_rest [OF more(4,3)]
  have zv: "content z = (content s)(a := content s b)" "disk z = (disk s)(a := content s b)" "dirtyset z = dirtyset s"
      "lockset z = {}" "written z = written s @ [(a, content s b)]"
    using z(5) t(6) ab(6) Suc.prems(2) by (simp_all add: bview_def)
  have "\<exists>t. write_log_loop me (Suc tail) k z = Ok () t \<and> bio_inv t \<and> disksize t = disksize z \<and> bio.more t = bio.more z \<and>
    bview t = (bview z)\<lparr>vcont := apply_writes (log_writes z (Suc tail) (Suc tail + k)) (content z),
      vdisk := apply_writes (log_writes z (Suc tail) (Suc tail + k)) (disk z), vwritten := written z @ log_writes z (Suc tail) (Suc tail + k)\<rparr>"
    by (rule Suc.IH) (use Suc.prems z(4) in \<open>simp_all add: zr zv\<close>)
  moreover have "log_writes z (Suc tail) (Suc tail + k) = log_writes s (Suc tail) (Suc tail + k)"
    using Suc.prems(3,4) tn by (auto simp: log_writes_def zr zv log_layout_def a_def)
  moreover have "log_writes s tail (tail + Suc k) = (a, content s b) # log_writes s (Suc tail) (Suc tail + k)"
    by (simp add: log_writes_def a_def b_def upt_conv_Cons del: upt_Suc)
  moreover have "bread me (ldev s) (lstart s + of_nat tail + 1) s = Ok i t" "bread me (ldev t) (lhblock t ! tail) t = Ok j u"
    using t(1,2) ab(4) by (simp_all add: a_def b_def log_pos_def log_rest [OF more(1)])
  ultimately show ?case
    using z(1-3) ab(5) more zv Suc.prems(2) by (auto simp: bview_def)
qed

lemma install_loop_spec:
  fixes s :: "'a logst_scheme"
  assumes "bio_inv s" "lockset s = {}" "log_layout s n" "tail + k \<le> n" "card (dirtyset s) < NBUF"
    and "\<forall>i<n. log_pos s i \<notin> dirtyset s"
    and "Suc (card (dirtyset s)) < NBUF \<or>
      (\<forall>i. tail \<le> i \<longrightarrow> i < tail + k \<longrightarrow> lhblock s ! i \<in> dirtyset s) \<and>
      (\<forall>i j. tail \<le> i \<longrightarrow> i < j \<longrightarrow> j < tail + k \<longrightarrow> lhblock s ! i \<noteq> lhblock s ! j)"
  shows "\<exists>t. install_loop me tail k s = Ok () t \<and> bio_inv t \<and> disksize t = disksize s \<and> bio.more t = bio.more s \<and>
    bview t = (bview s)\<lparr>vcont := apply_writes (home_writes s tail (tail + k)) (content s),
      vdisk := apply_writes (home_writes s tail (tail + k)) (disk s),
      vpin := dirtyset s - (!) (lhblock s) ` {tail..<tail + k},
      vwritten := written s @ home_writes s tail (tail + k)\<rparr>"
  using assms
proof (induction k arbitrary: s tail)
  case 0
  then show ?case by (simp add: home_writes_def bview_def)
next
  case (Suc k)
  have tn: "tail < n" using Suc.prems(4) by simp
  define a where "a = log_pos s tail"
  define b where "b = lhblock s ! tail"
  have ab: "a \<noteq> b" "a < disksize s" "b < disksize s" "ldev s = 1" "\<not> LOGSIZE \<le> tail" "a \<notin> dirtyset s"
    "b \<in> dirtyset s \<or> Suc (card (dirtyset s)) < NBUF"
    using log_layoutD [OF Suc.prems(3)] tn Suc.prems(6,7) by (auto simp: a_def b_def not_le intro: less_le_trans)
  obtain i t j u where t: "bread me 1 a s = Ok i t" "bread me 1 b t = Ok j u" "bio_inv u" "mine me a i u" "mine me b j u"
      "bview u = (bview s)\<lparr>vlock := insert b (insert a (vlock (bview s)))\<rparr>" "(disksize u, bio.more u) = (disksize s, bio.more s)"
      "(disksize t, bio.more t) = (disksize s, bio.more s)"
    by (rule bc.read_two [OF Suc.prems(1), of a b me]) (use ab Suc.prems(2,5) in \<open>simp_all add: bview_def\<close>)
  have clean: "content s a = disk s a"
    using clean_content [OF Suc.prems(1) ab(6)] Suc.prems(2) by simp
  obtain v w z where z: "bwrite me j (upd_buf j (\<lambda>x. x\<lparr>bdata := bdata (bufs u i)\<rparr>) u) = Ok () v" "brelse me i v = Ok () w"
      "brelse me j w = Ok () z" "bio_inv z"
      "bview z = (bview u)\<lparr>vcont := (vcont (bview u))(b := vcont (bview u) a), vdisk := (vdisk (bview u))(b := vcont (bview u) a),
       vpin := vpin (bview u) - {b}, vlock := vlock (bview u) - {a, b}, vwritten := vwritten (bview u) @ [(b, vcont (bview u) a)]\<rparr>"
      "(disksize z, bio.more z) = (disksize u, bio.more u)"
    by (rule bc.copy_locked [OF t(3,4,5)]) (use ab t(6,7) clean in \<open>simp_all add: bview_def\<close>)
  have more: "bio.more t = bio.more s" "bio.more u = bio.more s" "bio.more z = bio.more s" "disksize z = disksize s"
    using t(7,8) z(6) by simp_all
  note zr = log_rest [OF more(3)] log_pos_rest [OF more(3)] log_layout_rest [OF more(4,3)]
  have zv: "content z = (content s)(b := content s a)" "disk z = (disk s)(b := content s a)" "dirtyset z = dirtyset s - {b}"
      "lockset z = {}" "written z = written s @ [(b, content s a)]"
    using z(5) t(6) Suc.prems(2) by (auto simp: bview_def)
  have card: "card (dirtyset z) \<le> card (dirtyset s)"
    unfolding zv(3) by (rule card_mono) (auto simp: finite_dirtyset)
  have "\<exists>t. install_loop me (Suc tail) k z = Ok () t \<and> bio_inv t \<and> disksize t = disksize z \<and> bio.more t = bio.more z \<and>
    bview t = (bview z)\<lparr>vcont := apply_writes (home_writes z (Suc tail) (Suc tail + k)) (content z),
      vdisk := apply_writes (home_writes z (Suc tail) (Suc tail + k)) (disk z),
      vpin := dirtyset z - (!) (lhblock z) ` {Suc tail..<Suc tail + k},
      vwritten := written z @ home_writes z (Suc tail) (Suc tail + k)\<rparr>"
  proof (rule Suc.IH)
    show "card (dirtyset z) < NBUF" using card Suc.prems(5) by simp
    show "Suc (card (dirtyset z)) < NBUF \<or>
      (\<forall>i. Suc tail \<le> i \<longrightarrow> i < Suc tail + k \<longrightarrow> lhblock z ! i \<in> dirtyset z) \<and>
      (\<forall>i j. Suc tail \<le> i \<longrightarrow> i < j \<longrightarrow> j < Suc tail + k \<longrightarrow> lhblock z ! i \<noteq> lhblock z ! j)"
      using Suc.prems(7)
    proof
      assume "Suc (card (dirtyset s)) < NBUF"
      then show ?thesis using card by simp
    next
      assume d: "(\<forall>i. tail \<le> i \<longrightarrow> i < tail + Suc k \<longrightarrow> lhblock s ! i \<in> dirtyset s) \<and>
        (\<forall>i j. tail \<le> i \<longrightarrow> i < j \<longrightarrow> j < tail + Suc k \<longrightarrow> lhblock s ! i \<noteq> lhblock s ! j)"
      have "lhblock s ! i \<in> dirtyset s - {b}" if "Suc tail \<le> i" "i < Suc tail + k" for i
        using conjunct1 [OF d, rule_format, of i] conjunct2 [OF d, rule_format, of tail i] that by (auto simp: b_def)
      moreover have "lhblock s ! i \<noteq> lhblock s ! j" if "Suc tail \<le> i" "i < j" "j < Suc tail + k" for i j
        using conjunct2 [OF d, rule_format, of i j] that by simp
      ultimately show ?thesis unfolding zr zv(3) by blast
    qed
  qed (use Suc.prems z(4) in \<open>simp_all add: zr zv\<close>)
  moreover have "home_writes z (Suc tail) (Suc tail + k) = home_writes s (Suc tail) (Suc tail + k)"
    using log_layoutD(8) [OF Suc.prems(3) tn] Suc.prems(4) by (auto simp: home_writes_def zr zv b_def)
  moreover have "home_writes s tail (tail + Suc k) = (b, content s a) # home_writes s (Suc tail) (Suc tail + k)"
    by (simp add: home_writes_def a_def b_def upt_conv_Cons del: upt_Suc)
  moreover have "dirtyset s - (!) (lhblock s) ` {tail..<tail + Suc k} = dirtyset z - (!) (lhblock z) ` {Suc tail..<Suc tail + k}"
  proof -
    have "{tail..<tail + Suc k} = insert tail {Suc tail..<Suc tail + k}" by auto
    then show ?thesis by (auto simp: zr zv b_def)
  qed
  moreover have "bread me (ldev s) (lstart s + of_nat tail + 1) s = Ok i t" "bread me (ldev t) (lhblock t ! tail) t = Ok j u"
    using t(1,2) ab(4) by (simp_all add: a_def b_def log_pos_def log_rest [OF more(1)])
  ultimately show ?case
    using z(1-3) ab(5) more zv Suc.prems(2) by (auto simp: bview_def)
qed

lemma write_head_spec:
  assumes "bio_inv s" "lockset s = {}" "ldev s = 1" "lstart s < disksize s" "card (dirtyset s) < NBUF" "rounds (lhn s) \<le> LOGSIZE"
  defines "hb \<equiv> head_bytes (lhn s) (lhblock s) (content s (lstart s))"
  shows "\<exists>t. write_head me s = Ok () t \<and> bio_inv t \<and> disksize t = disksize s \<and> bio.more t = bio.more s \<and>
    bview t = (bview s)\<lparr>vcont := (content s)(lstart s := hb), vdisk := (disk s)(lstart s := hb),
      vpin := dirtyset s - {lstart s}, vwritten := written s @ [(lstart s, hb)]\<rparr>"
proof -
  have len: "length hb = BSIZE"
    unfolding hb_def head_bytes_def using content_length [OF assms(1)] by simp
  obtain i t u v where t: "bread me 1 (lstart s) s = Ok i t" "bdata (bufs t i) = vcont (bview s) (lstart s)"
      "bwrite me i (upd_buf i (\<lambda>x. x\<lparr>bdata := hb\<rparr>) t) = Ok () u" "brelse me i u = Ok () v" "bio_inv v"
      "bview v = (bview s)\<lparr>vcont := (vcont (bview s))(lstart s := hb), vdisk := (vdisk (bview s))(lstart s := hb),
         vpin := vpin (bview s) - {lstart s}, vwritten := vwritten (bview s) @ [(lstart s, hb)]\<rparr>"
      "(disksize v, bio.more v) = (disksize s, bio.more s)" "(disksize t, bio.more t) = (disksize s, bio.more s)"
    by (rule bc.write_block [OF assms(1) _ _ len, of "lstart s" me]) (use assms(2-5) in \<open>simp_all add: bview_def\<close>)
  have "upd_buf i (\<lambda>x. x\<lparr>bdata := head_bytes (lhn t) (lhblock t) (bdata x)\<rparr>) t = upd_buf i (\<lambda>x. x\<lparr>bdata := hb\<rparr>) t"
    using t(2,8) by (simp add: upd_buf_def hb_def bview_def log_rest [of t s])
  then show ?thesis
    using t assms(3,6) by (auto simp: write_head_def bview_def log_rest [of t s])
qed

section \<open>Commit\<close>

lemma apply_writes_fun:
  assumes "\<forall>w\<in>set ws. snd w = f (fst w)"
  shows "apply_writes ws d b = (if b \<in> fst ` set ws then f b else d b)"
  using assms by (induction ws arbitrary: d) auto

lemma apply_log_writes:
  assumes "b \<le> LOGSIZE"
  shows "i < b \<Longrightarrow> apply_writes (log_writes s 0 b) d (log_pos s i) = content s (lhblock s ! i)"
    and "\<forall>i<b. c \<noteq> log_pos s i \<Longrightarrow> apply_writes (log_writes s 0 b) d c = d c"
proof -
  define f where "f p = content s (lhblock s ! unat (p - lstart s - 1))" for p
  have pos: "unat (log_pos s i - lstart s - 1) = i" if "i < b" for i
    using that assms by (simp add: log_pos_def LOGSIZE_def take_bit_nat_eq_self_iff unat_of_nat)
  have "\<forall>w\<in>set (log_writes s 0 b). snd w = f (fst w)"
    by (auto simp: log_writes_def f_def pos)
  note fw = apply_writes_fun [OF this]
  show "i < b \<Longrightarrow> apply_writes (log_writes s 0 b) d (log_pos s i) = content s (lhblock s ! i)"
    unfolding fw by (auto simp: log_writes_def f_def pos image_image)
  show "\<forall>i<b. c \<noteq> log_pos s i \<Longrightarrow> apply_writes (log_writes s 0 b) d c = d c"
    unfolding fw by (auto simp: log_writes_def image_image)
qed

text \<open>The state in which a transaction may commit: the blocks listed in the header are exactly the
  pinned ones, there are fewer of them than buffers, and the header on the disk is empty.\<close>

definition log_ok :: "'a logst_scheme \<Rightarrow> bool" where
  "log_ok s \<longleftrightarrow> bio_inv s \<and> lockset s = {} \<and> 0 \<le>s lhn s \<and> log_layout s (rounds (lhn s)) \<and> length (lhblock s) = LOGSIZE \<and>
     distinct (take (rounds (lhn s)) (lhblock s)) \<and> set (take (rounds (lhn s)) (lhblock s)) = dirtyset s \<and>
     card (dirtyset s) < NBUF \<and> get32 (disk s (lstart s)) 0 = 0"

lemma log_okD:
  assumes "log_ok s"
  shows "bio_inv s" "lockset s = {}" "log_layout s (rounds (lhn s))" "card (dirtyset s) < NBUF"
    "i < rounds (lhn s) \<Longrightarrow> lhblock s ! i \<in> dirtyset s" "i < rounds (lhn s) \<Longrightarrow> log_pos s i \<notin> dirtyset s"
    "i < j \<Longrightarrow> j < rounds (lhn s) \<Longrightarrow> lhblock s ! i \<noteq> lhblock s ! j"
    "(!) (lhblock s) ` {0..<rounds (lhn s)} = dirtyset s" "lstart s \<notin> dirtyset s"
    "get32 (disk s (lstart s)) 0 = 0" "length (lhblock s) = LOGSIZE" "0 \<le>s lhn s"
proof -
  define n where "n = rounds (lhn s)"
  have n: "n \<le> length (lhblock s)" and nd: "distinct (take n (lhblock s))" and st: "set (take n (lhblock s)) = dirtyset s"
    and lay: "log_layout s n"
    using assms by (auto simp: log_ok_def n_def log_layout_def)
  have img: "(!) (lhblock s) ` {0..<n} = dirtyset s"
    unfolding st [symmetric] using n by (rule nth_image)
  then show "(!) (lhblock s) ` {0..<rounds (lhn s)} = dirtyset s" by (simp add: n_def)
  show "i < rounds (lhn s) \<Longrightarrow> lhblock s ! i \<in> dirtyset s"
    unfolding img [symmetric] by (simp add: n_def)
  show "i < rounds (lhn s) \<Longrightarrow> log_pos s i \<notin> dirtyset s"
    unfolding img [symmetric] using log_layoutD(8) [OF lay] by (auto simp: n_def)
  show "lstart s \<notin> dirtyset s"
    unfolding img [symmetric] using log_layoutD(7) [OF lay] by (metis atLeastLessThan_iff imageE)
  show "i < j \<Longrightarrow> j < rounds (lhn s) \<Longrightarrow> lhblock s ! i \<noteq> lhblock s ! j"
    using nd n by (auto simp: n_def distinct_conv_nth)
qed (use assms in \<open>simp_all add: log_ok_def\<close>)

definition commit_head :: "'a logst_scheme \<Rightarrow> u8 list" where
  "commit_head s = head_bytes (lhn s) (lhblock s) (disk s (lstart s))"

text \<open>The writes of a commit, in the order in which they reach the disk.\<close>

definition commit_writes :: "'a logst_scheme \<Rightarrow> (u32 \<times> u8 list) list" where
  "commit_writes s = (let n = rounds (lhn s) in
     if n = 0 then [] else log_writes s 0 n @ [(lstart s, commit_head s)] @
       map (\<lambda>i. (lhblock s ! i, content s (lhblock s ! i))) [0..<n] @ [(lstart s, head_bytes 0 (lhblock s) (commit_head s))])"

lemma rounds_pos: "0 <s n \<longleftrightarrow> 0 < rounds n"
  by (simp add: word_sless_alt rounds_def)

lemma commit_spec:
  fixes s :: "'a logst_scheme"
  assumes ok: "log_ok s"
  shows "\<exists>t. commit me s = Ok () t \<and> bio_inv t \<and> disksize t = disksize s \<and> bio.more t = bio.more (s\<lparr>lhn := 0\<rparr>) \<and>
    dirtyset t = {} \<and> lockset t = {} \<and> disk t = apply_writes (commit_writes s) (disk s) \<and> written t = written s @ commit_writes s"
proof (cases "rounds (lhn s) = 0")
  case True
  then have z: "lhn s = 0"
    using log_okD(12) [OF ok] by (simp add: rounds_def word_sle_eq) (metis signed_0 signed_eq_0_iff order_antisym)
  then have "bio.more (s\<lparr>lhn := 0\<rparr>) = bio.more s" by (cases s) simp
  moreover have "dirtyset s = {}" using log_okD(8) [OF ok] True by simp
  ultimately show ?thesis
    using log_okD(1,2) [OF ok] True z by (simp add: commit_def commit_writes_def)
next
  case False
  define n where "n = rounds (lhn s)"
  note ok' = log_okD [OF ok, folded n_def]
  note lay = log_layoutD [OF ok'(3)]
  obtain t1 where t1: "write_log_loop me 0 n s = Ok () t1" "bio_inv t1" "disksize t1 = disksize s" "bio.more t1 = bio.more s"
    "bview t1 = (bview s)\<lparr>vcont := apply_writes (log_writes s 0 n) (content s),
      vdisk := apply_writes (log_writes s 0 n) (disk s), vwritten := written s @ log_writes s 0 n\<rparr>"
    using write_log_loop_spec [OF ok'(1,2,3), of 0 n me] ok'(4-6) by auto
  note r1 = log_rest [OF t1(4)] log_pos_rest [OF t1(4)]
  have v1: "content t1 = apply_writes (log_writes s 0 n) (content s)" "disk t1 = apply_writes (log_writes s 0 n) (disk s)"
    "dirtyset t1 = dirtyset s" "lockset t1 = {}" "written t1 = written s @ log_writes s 0 n"
    using t1(5) ok'(2) by (simp_all add: bview_def)
  have h1: "head_bytes (lhn t1) (lhblock t1) (content t1 (lstart t1)) = commit_head s"
  proof -
    have "apply_writes (log_writes s 0 n) (content s) (lstart s) = content s (lstart s)"
      by (rule apply_log_writes(2) [OF lay(2)]) (metis lay(5))
    then show ?thesis
      using clean_content [OF ok'(1) ok'(9)] ok'(2) by (simp add: r1 v1 commit_head_def)
  qed
  obtain t2 where t2: "write_head me t1 = Ok () t2" "bio_inv t2" "disksize t2 = disksize t1" "bio.more t2 = bio.more t1"
    "bview t2 = (bview t1)\<lparr>vcont := (content t1)(lstart s := commit_head s), vdisk := (disk t1)(lstart s := commit_head s),
      vpin := dirtyset s, vwritten := written t1 @ [(lstart s, commit_head s)]\<rparr>"
    using write_head_spec [OF t1(2), of me] lay(1-3) ok'(4,9) h1 t1(3) by (auto simp: r1 v1 n_def)
  have r2: "bio.more t2 = bio.more s" using t2(4) t1(4) by simp
  note q2 = log_rest [OF r2] log_pos_rest [OF r2] log_layout_rest [OF _ r2]
  have v2: "content t2 = (content t1)(lstart s := commit_head s)" "disk t2 = (disk t1)(lstart s := commit_head s)"
    "dirtyset t2 = dirtyset s" "lockset t2 = {}" "written t2 = written t1 @ [(lstart s, commit_head s)]"
    using t2(5) v1(4) by (simp_all add: bview_def)
  define hw where "hw = map (\<lambda>i. (lhblock s ! i, content s (lhblock s ! i))) [0..<n]"
  have hw: "home_writes t2 0 n = hw"
    using apply_log_writes(1) [OF lay(2)] lay(5) by (auto simp: home_writes_def hw_def q2 v2 v1)
  obtain t3 where t3: "install_loop me 0 n t2 = Ok () t3" "bio_inv t3" "disksize t3 = disksize s" "bio.more t3 = bio.more s"
    "bview t3 = (bview t2)\<lparr>vcont := apply_writes hw (content t2), vdisk := apply_writes hw (disk t2), vpin := {},
      vwritten := written t2 @ hw\<rparr>"
    using install_loop_spec [OF t2(2) v2(4), of n 0 n me] ok'(3-8) t2(3) t1(3) r2
    by (auto simp: hw q2 v2)
  have v3: "content t3 = apply_writes hw (content t2)" "disk t3 = apply_writes hw (disk t2)" "dirtyset t3 = {}" "lockset t3 = {}"
    "written t3 = written t2 @ hw"
    using t3(5) v2(4) by (simp_all add: bview_def)
  define u where "u = t3\<lparr>lhn := 0\<rparr>"
  have mu: "bio.more u = bio.more (s\<lparr>lhn := 0\<rparr>)"
    using t3(4) by (cases s; cases t3) (simp add: u_def)
  note q3 = log_rest [OF mu]
  have "\<forall>x\<in>fst ` set hw. x \<noteq> lstart s"
    using lay(7) by (simp add: hw_def)
  then have "lstart s \<notin> fst ` set hw" by blast
  then have h3: "content t3 (lstart s) = commit_head s"
    by (simp add: v3 v2 apply_writes_other)
  have u: "bio_inv u" "lockset u = {}" "disksize u = disksize s" "dirtyset u = {}" "content u = content t3" "disk u = disk t3"
      "written u = written t3"
    using t3(2,3) v3 by (simp_all add: u_def)
  obtain t4 where t4: "write_head me u = Ok () t4" "bio_inv t4" "disksize t4 = disksize s" "bio.more t4 = bio.more u"
    "dirtyset t4 = {}" "lockset t4 = {}" "disk t4 = (disk t3)(lstart s := head_bytes 0 (lhblock s) (commit_head s))"
    "written t4 = written t3 @ [(lstart s, head_bytes 0 (lhblock s) (commit_head s))]"
    using write_head_spec [OF u(1,2), of me] lay(1-3) h3 by (auto simp: q3 u bview_def rounds_def NBUF_def)
  have "commit me s = Ok () t4"
    using t1(1) t2(1) t3(1) t4(1) False
    by (simp add: commit_def write_log_def install_trans_def rounds_pos n_def q2 u_def)
  then show ?thesis
    using t4 mu False by (auto simp: commit_writes_def n_def [symmetric] hw_def [symmetric] v1 v2 v3 apply_writes_append)
qed

section \<open>Recovery\<close>

lemma get_put_blocks_before: "k + 4 \<le> 4 + 4 * i \<Longrightarrow> get32 (put_blocks i bs d) k = get32 d k"
  by (induction bs arbitrary: i d) auto

lemma get_put_blocks:
  "j < length bs \<Longrightarrow> 4 + 4 * (i + length bs) \<le> length d \<Longrightarrow> get32 (put_blocks i bs d) (4 + 4 * (i + j)) = bs ! j"
proof (induction bs arbitrary: i d j)
  case (Cons b bs)
  show ?case
  proof (cases j)
    case 0
    then show ?thesis using Cons.prems by (simp add: get_put_blocks_before)
  next
    case (Suc m)
    then show ?thesis using Cons.IH [of m "Suc i" "put32 d (4 + 4 * i) b"] Cons.prems by simp
  qed
qed simp

lemma head_bytes_get:
  assumes "length d = BSIZE"
  shows "get32 (head_bytes n bs d) 0 = n"
    and "i < rounds n \<Longrightarrow> rounds n \<le> length bs \<Longrightarrow> length bs = LOGSIZE \<Longrightarrow> get32 (head_bytes n bs d) (4 + 4 * i) = bs ! i"
proof -
  show "get32 (head_bytes n bs d) 0 = n"
    using assms by (simp add: head_bytes_def get_put_blocks_before BSIZE_def)
  show "i < rounds n \<Longrightarrow> rounds n \<le> length bs \<Longrightarrow> length bs = LOGSIZE \<Longrightarrow> get32 (head_bytes n bs d) (4 + 4 * i) = bs ! i"
    using get_put_blocks [of i "take (rounds n) bs" 0 "put32 d 0 n"] assms
    by (simp add: head_bytes_def BSIZE_def LOGSIZE_def)
qed

lemma read_head_spec:
  fixes s :: "'a logst_scheme"
  assumes "bio_inv s" "lockset s = {}" "dirtyset s = {}" "ldev s = 1" "lstart s < disksize s"
  defines "d \<equiv> disk s (lstart s)"
  defines "n \<equiv> rounds (get32 d 0)"
  assumes "n \<le> LOGSIZE"
  shows "\<exists>t. read_head me s = Ok () t \<and> bio_inv t \<and> bview t = bview s \<and> disksize t = disksize s \<and>
    bio.more t = bio.more (s\<lparr>lhn := get32 d 0, lhblock := map (\<lambda>i. get32 d (4 + 4 * i)) [0..<n] @ drop n (lhblock s)\<rparr>)"
proof -
  have c: "content s (lstart s) = d"
    unfolding d_def using assms(1-3) by (intro clean_content) auto
  obtain i t where t: "bread me 1 (lstart s) s = Ok i t" "bio_inv t" "bview t = (bview s)\<lparr>vlock := {lstart s}\<rparr>"
      "(disksize t, bio.more t) = (disksize s, bio.more s)" "mine me (lstart s) i t"
    using bc.rd_ok [OF assms(1), of "lstart s" me] assms(2-5) by (auto simp: bview_def NBUF_def)
  have m: "bio.more t = bio.more s" using t(4) by simp
  define u where "u = t\<lparr>lhn := get32 d 0, lhblock := map (\<lambda>i. get32 d (4 + 4 * i)) [0..<n] @ drop n (lhblock t)\<rparr>"
  have u: "bio_inv u" "mine me (lstart s) i u" "bview u = bview t"
    using t(2,5) by (simp_all add: u_def)
  obtain v where v: "brelse me i u = Ok () v" "bio_inv v" "bview v = bview s" "(disksize v, bio.more v) = (disksize u, bio.more u)"
    using bc.rel_ok [OF u(1,2)] u(3) t(3) c assms(2) by (auto simp: bview_def d_def)
  have "bdata (bufs t i) = d"
    using bc.dat_ok [OF t(2,5)] t(3) c by (simp add: bview_def)
  then have "read_head me s = Ok () v"
    using t(1) v(1) assms(4,8) by (simp add: read_head_def n_def [symmetric] u_def)
  moreover have "bio.more u = bio.more (s\<lparr>lhn := get32 d 0, lhblock := map (\<lambda>i. get32 d (4 + 4 * i)) [0..<n] @ drop n (lhblock s)\<rparr>)"
    using m by (cases s; cases t) (simp add: u_def)
  ultimately show ?thesis
    using v t(4) by (auto simp: u_def)
qed

text \<open>Recovery installs the blocks that the header on the disk lists and empties the header.\<close>

lemma recover_spec:
  fixes s :: "'a logst_scheme"
  assumes "bio_inv s" "lockset s = {}" "dirtyset s = {}" "ldev s = 1" "lstart s < disksize s" "length (lhblock s) = LOGSIZE"
  defines "d \<equiv> disk s (lstart s)"
  defines "n \<equiv> rounds (get32 d 0)"
  defines "bs \<equiv> map (\<lambda>i. get32 d (4 + 4 * i)) [0..<n] @ drop n (lhblock s)"
  assumes lay: "log_layout (s\<lparr>lhblock := bs\<rparr>) n"
  shows "\<exists>t. recover_from_log me s = Ok () t \<and> bio_inv t \<and> lockset t = {} \<and> dirtyset t = {} \<and>
    bio.more t = bio.more (s\<lparr>lhn := 0, lhblock := bs\<rparr>) \<and> disksize t = disksize s \<and> get32 (disk t (lstart s)) 0 = 0 \<and>
    (\<forall>b. b \<noteq> lstart s \<longrightarrow> disk t b = apply_writes (map (\<lambda>i. (bs ! i, disk s (log_pos s i))) [0..<n]) (disk s) b)"
proof -
  have n: "n \<le> LOGSIZE" using log_layoutD(2) [OF lay] .
  obtain t where t: "read_head me s = Ok () t" "bio_inv t" "bview t = bview s" "disksize t = disksize s"
      "bio.more t = bio.more (s\<lparr>lhn := get32 d 0, lhblock := bs\<rparr>)"
    using read_head_spec [OF assms(1-5), of me] n by (auto simp: n_def d_def bs_def)
  have tv: "lockset t = {}" "dirtyset t = {}" "content t = content s" "disk t = disk s" "written t = written s"
    using t(3) assms(2,3) by (simp_all add: bview_def)
  note tr = log_rest [OF t(5)] log_pos_rest [OF t(5)]
  have pos: "log_pos (s\<lparr>lhn := x, lhblock := y\<rparr>) i = log_pos s i" "log_pos (s\<lparr>lhblock := y\<rparr>) i = log_pos s i" for x y i
    by (simp_all add: log_pos_def)
  have lt: "log_layout t n"
    using lay by (simp add: log_layout_def tr t(4) pos)
  define hw where "hw = map (\<lambda>i. (bs ! i, disk s (log_pos s i))) [0..<n]"
  have "content s b = disk s b" for b
    using assms(1-3) by (intro clean_content) auto
  then have hw: "home_writes t 0 n = hw"
    by (simp add: home_writes_def hw_def tr pos tv)
  obtain u where u: "install_loop me 0 n t = Ok () u" "bio_inv u" "disksize u = disksize s" "bio.more u = bio.more t"
      "bview u = (bview t)\<lparr>vcont := apply_writes hw (content t), vdisk := apply_writes hw (disk t), vwritten := written t @ hw\<rparr>"
    using install_loop_spec [OF t(2) tv(1) lt, of 0 n me] tv(2) t(4) by (auto simp: hw NBUF_def bview_def)
  define v where "v = u\<lparr>lhn := 0\<rparr>"
  have mv: "bio.more v = bio.more (s\<lparr>lhn := 0, lhblock := bs\<rparr>)"
    using t(5) u(4) by (cases s; cases t; cases u) (simp add: v_def)
  note vr = log_rest [OF mv]
  have v: "bio_inv v" "lockset v = {}" "dirtyset v = {}" "disk v = apply_writes hw (disk s)" "disksize v = disksize s"
    using u(2,3,5) tv by (simp_all add: v_def bview_def)
  have len: "length (content v (lstart s)) = BSIZE" by (rule content_length [OF v(1)])
  obtain w where w: "write_head me v = Ok () w" "bio_inv w" "disksize w = disksize s" "bio.more w = bio.more v"
      "lockset w = {}" "dirtyset w = {}" "disk w = (disk v)(lstart s := head_bytes 0 bs (content v (lstart s)))"
    using write_head_spec [OF v(1,2), of me] assms(4,5) v(2,3,5) by (auto simp: vr bview_def NBUF_def rounds_def)
  have "recover_from_log me s = Ok () w"
    using t(1) u(1) w(1) by (simp add: recover_from_log_def install_trans_def tr n_def v_def)
  then show ?thesis
    using w mv v(4) head_bytes_get(1) [OF len] by (auto simp: hw_def)
qed

section \<open>Crashes\<close>

text \<open>The disk after the first \<open>k\<close> writes of a commit. Up to the write of the header only the log
  has changed; from then on, until the header is cleared, the log holds every new block.\<close>

lemma crash_before:
  assumes ok: "log_ok s" and k: "k \<le> rounds (lhn s)" "0 < rounds (lhn s)"
  defines "d \<equiv> apply_writes (take k (commit_writes s)) (disk s)"
  shows "\<forall>i<rounds (lhn s). b \<noteq> log_pos s i \<Longrightarrow> d b = disk s b"
proof -
  have "take k (commit_writes s) = log_writes s 0 k"
    using k by (auto simp: commit_writes_def log_writes_def take_map Let_def)
  moreover have "k \<le> LOGSIZE" using log_layoutD(2) [OF log_okD(3) [OF ok]] k(1) by simp
  ultimately show "\<forall>i<rounds (lhn s). b \<noteq> log_pos s i \<Longrightarrow> d b = disk s b"
    using apply_log_writes(2) [where b = k and c = b and s = s and d = "disk s"] k(1) by (simp add: d_def)
qed

definition new_writes :: "'a logst_scheme \<Rightarrow> nat \<Rightarrow> (u32 \<times> u8 list) list" where
  "new_writes s m = map (\<lambda>i. (lhblock s ! i, content s (lhblock s ! i))) [0..<m]"

lemma apply_new_writes:
  "apply_writes (new_writes s m) d b = (if b \<in> (!) (lhblock s) ` {0..<m} then content s b else d b)"
  by (subst apply_writes_fun [of _ "content s"]) (auto simp: new_writes_def image_image)

lemma crash_after:
  assumes ok: "log_ok s" and k: "rounds (lhn s) < k" "k \<le> 2 * rounds (lhn s) + 1" "0 < rounds (lhn s)" and m: "m = k - rounds (lhn s) - 1"
  defines "d \<equiv> apply_writes (take k (commit_writes s)) (disk s)"
  shows "d (lstart s) = commit_head s" "i < rounds (lhn s) \<Longrightarrow> d (log_pos s i) = content s (lhblock s ! i)"
    "b \<noteq> lstart s \<Longrightarrow> \<forall>i<rounds (lhn s). b \<noteq> log_pos s i \<Longrightarrow> d b = apply_writes (new_writes s m) (disk s) b"
proof -
  define n where "n = rounds (lhn s)"
  note ok' = log_okD [OF ok, folded n_def]
  note lay = log_layoutD [OF ok'(3)]
  have n: "n \<noteq> 0" using k by (auto simp: n_def)
  have km: "k = n + Suc m" "m \<le> n" using k m by (simp_all add: n_def)
  then have "take k (commit_writes s) = log_writes s 0 n @ [(lstart s, commit_head s)] @ new_writes s m"
    using n by (simp add: commit_writes_def n_def [symmetric] log_writes_def new_writes_def take_map)
  then have d: "d b = apply_writes (new_writes s m) ((apply_writes (log_writes s 0 n) (disk s))(lstart s := commit_head s)) b" for b
    by (simp add: d_def apply_writes_append)
  have not: "x \<notin> (!) (lhblock s) ` {0..<m}" if "\<forall>i<n. lhblock s ! i \<noteq> x" for x
    using that km(2) by (metis atLeastLessThan_iff imageE less_le_trans)
  show "d (lstart s) = commit_head s"
    using not [of "lstart s"] lay(7) by (simp add: d apply_new_writes)
  show "d (log_pos s i) = content s (lhblock s ! i)" if "i < rounds (lhn s)"
    using not [of "log_pos s i"] lay(8) [THEN not_sym] lay(5) that apply_log_writes(1) [OF lay(2)]
    by (simp add: d apply_new_writes n_def)
  show "b \<noteq> lstart s \<Longrightarrow> \<forall>i<rounds (lhn s). b \<noteq> log_pos s i \<Longrightarrow> d b = apply_writes (new_writes s m) (disk s) b"
    using apply_log_writes(2) [OF lay(2), where c = b and d = "disk s" and s = s] by (simp add: d apply_new_writes n_def)
qed

lemma crash_done:
  assumes ok: "log_ok s" and k: "2 * rounds (lhn s) + 2 \<le> k" "0 < rounds (lhn s)"
  defines "d \<equiv> apply_writes (take k (commit_writes s)) (disk s)"
  shows "d (lstart s) = head_bytes 0 (lhblock s) (commit_head s)"
    "b \<noteq> lstart s \<Longrightarrow> \<forall>i<rounds (lhn s). b \<noteq> log_pos s i \<Longrightarrow> d b = content s b"
proof -
  define n where "n = rounds (lhn s)"
  have n: "0 < n" using k by (simp add: n_def)
  define e where "e = apply_writes (take (2 * n + 1) (commit_writes s)) (disk s)"
  have "take k (commit_writes s) = take (2 * n + 1) (commit_writes s) @ [(lstart s, head_bytes 0 (lhblock s) (commit_head s))]"
    using k n by (simp add: commit_writes_def n_def [symmetric] log_writes_def)
  then have d: "d = e(lstart s := head_bytes 0 (lhblock s) (commit_head s))"
    by (simp add: d_def e_def apply_writes_append)
  then show "d (lstart s) = head_bytes 0 (lhblock s) (commit_head s)" by simp
  show "d b = content s b" if b: "b \<noteq> lstart s" "\<forall>i<rounds (lhn s). b \<noteq> log_pos s i"
  proof -
    have "e b = apply_writes (new_writes s n) (disk s) b"
      unfolding e_def by (rule crash_after(3) [OF ok]) (use b n in \<open>simp_all add: n_def\<close>)
    also have "\<dots> = content s b"
      using log_okD(8) [OF ok] clean_content [OF log_okD(1) [OF ok], of b] log_okD(2) [OF ok]
      by (simp add: apply_new_writes n_def)
    finally show ?thesis using b d by simp
  qed
qed

lemma head_length:
  assumes "log_ok s"
  shows "length (disk s (lstart s)) = BSIZE" "length (commit_head s) = BSIZE"
proof -
  show "length (disk s (lstart s)) = BSIZE"
    using content_length [OF log_okD(1)] clean_content [OF log_okD(1,9)] log_okD(2) assms by (metis empty_iff)
  then show "length (commit_head s) = BSIZE" by (simp add: commit_head_def head_bytes_def)
qed

lemma recover_empty:
  fixes r :: "'b logst_scheme"
  assumes "bio_inv r" "lockset r = {}" "dirtyset r = {}" "ldev r = 1" "lstart r < disksize r" "length (lhblock r) = LOGSIZE"
    and "get32 (disk r (lstart r)) 0 = 0"
  shows "\<exists>t. recover_from_log me r = Ok () t \<and> bio_inv t \<and> dirtyset t = {} \<and> get32 (disk t (lstart r)) 0 = 0 \<and>
    (\<forall>b. b \<noteq> lstart r \<longrightarrow> disk t b = disk r b)"
  using recover_spec [OF assms(1-6), of me] assms(4,5,7) by (auto simp: rounds_def log_layout_def LOGSIZE_def)

lemma recover_new:
  fixes s :: "'a logst_scheme" and r :: "'b logst_scheme"
  assumes ok: "log_ok s" and n: "rounds (lhn s) < k" "k \<le> 2 * rounds (lhn s) + 1" "0 < rounds (lhn s)"
    and boot: "bio_inv r" "lockset r = {}" "dirtyset r = {}" "ldev r = 1" "lstart r = lstart s" "disksize r = disksize s"
      "length (lhblock r) = LOGSIZE" "disk r = apply_writes (take k (commit_writes s)) (disk s)"
  shows "\<exists>t. recover_from_log me r = Ok () t \<and> bio_inv t \<and> dirtyset t = {} \<and> get32 (disk t (lstart s)) 0 = 0 \<and>
    (\<forall>b. b \<noteq> lstart s \<longrightarrow> (\<forall>i<rounds (lhn s). b \<noteq> log_pos s i) \<longrightarrow> disk t b = content s b)"
proof -
  define n where "n = rounds (lhn s)"
  note ok' = log_okD [OF ok, folded n_def]
  note lay = log_layoutD [OF ok'(3)]
  note after = crash_after [OF ok n refl, folded boot(8)]
  have h: "get32 (disk r (lstart r)) 0 = lhn s" "i < n \<Longrightarrow> get32 (disk r (lstart r)) (4 + 4 * i) = lhblock s ! i" for i
    using head_bytes_get [OF head_length(1) [OF ok]] lay(2) ok'(11) by (simp_all add: boot(5) after(1) commit_head_def n_def)
  define bs where "bs = map (\<lambda>i. get32 (disk r (lstart r)) (4 + 4 * i)) [0..<n] @ drop n (lhblock r)"
  have bs: "bs ! i = lhblock s ! i" if "i < n" for i
    using that by (simp add: bs_def nth_append h(2))
  have pos: "log_pos r i = log_pos s i" "log_pos (r\<lparr>lhblock := x\<rparr>) i = log_pos s i" for x i
    by (simp_all add: log_pos_def boot(5))
  have "log_layout (r\<lparr>lhblock := bs\<rparr>) n"
    using ok'(3) boot(4-6) by (simp add: log_layout_def pos bs)
  moreover have "lstart r < disksize r" using lay(3) boot(5,6) by simp
  ultimately obtain t where t: "recover_from_log me r = Ok () t" "bio_inv t" "dirtyset t = {}" "get32 (disk t (lstart s)) 0 = 0"
    "\<forall>b. b \<noteq> lstart s \<longrightarrow> disk t b = apply_writes (map (\<lambda>i. (bs ! i, disk r (log_pos r i))) [0..<n]) (disk r) b"
    using recover_spec [OF boot(1-4) _ boot(7), of me, unfolded h(1) n_def [symmetric] bs_def [symmetric]] boot(5) by auto
  have "map (\<lambda>i. (bs ! i, disk r (log_pos r i))) [0..<n] = new_writes s n"
    using after(2) by (simp add: new_writes_def bs pos n_def)
  then have "disk t b = content s b" if "b \<noteq> lstart s" "\<forall>i<rounds (lhn s). b \<noteq> log_pos s i" for b
    using t(5) that after(3) [OF that] ok'(8) clean_content [OF ok'(1), of b] ok'(2)
    by (auto simp: apply_new_writes)
  then show ?thesis using t by blast
qed

text \<open>C15: a transaction is atomic with respect to crashes. The commit of a well-formed log writes
  \<open>commit_writes s\<close> to the disk, in that order. If the machine stops after any \<open>k\<close> of these
  writes, recovery at the next boot returns and leaves every block outside the log as it was
  before the transaction, if the header had not been written, and as the transaction left it
  otherwise; in both cases the log is empty again.\<close>

theorem commit_crash_atomic:
  fixes s :: "'a logst_scheme" and r :: "'b logst_scheme"
  assumes ok: "log_ok s"
    and boot: "bio_inv r" "lockset r = {}" "dirtyset r = {}" "ldev r = 1" "lstart r = lstart s" "disksize r = disksize s"
      "length (lhblock r) = LOGSIZE" "disk r = apply_writes (take k (commit_writes s)) (disk s)"
  shows "(\<exists>t. commit me s = Ok () t \<and> dirtyset t = {} \<and> written t = written s @ commit_writes s \<and>
      disk t = apply_writes (commit_writes s) (disk s)) \<and>
    (\<exists>t. recover_from_log p r = Ok () t \<and> bio_inv t \<and> dirtyset t = {} \<and> get32 (disk t (lstart s)) 0 = 0 \<and>
      (\<forall>b. b \<noteq> lstart s \<longrightarrow> (\<forall>i<rounds (lhn s). b \<noteq> log_pos s i) \<longrightarrow>
        disk t b = (if k \<le> rounds (lhn s) then disk s b else content s b)))"
proof
  show "\<exists>t. commit me s = Ok () t \<and> dirtyset t = {} \<and> written t = written s @ commit_writes s \<and>
      disk t = apply_writes (commit_writes s) (disk s)"
    using commit_spec [OF ok, of me] by blast
  define n where "n = rounds (lhn s)"
  have lt: "lstart r < disksize r"
    using log_layoutD(3) [OF log_okD(3) [OF ok]] boot(5,6) by simp
  note empty = recover_empty [OF boot(1-4) lt boot(7), of p]
  consider "n = 0" | "0 < n" "k \<le> n" | "0 < n" "n < k" "k \<le> 2 * n + 1" | "0 < n" "2 * n + 2 \<le> k"
    by linarith
  then show "\<exists>t. recover_from_log p r = Ok () t \<and> bio_inv t \<and> dirtyset t = {} \<and> get32 (disk t (lstart s)) 0 = 0 \<and>
      (\<forall>b. b \<noteq> lstart s \<longrightarrow> (\<forall>i<rounds (lhn s). b \<noteq> log_pos s i) \<longrightarrow>
        disk t b = (if k \<le> rounds (lhn s) then disk s b else content s b))"
  proof cases
    case 1
    then have "disk r = disk s" "dirtyset s = {}"
      using boot(8) log_okD(8) [OF ok] by (simp_all add: n_def commit_writes_def)
    moreover have "content s b = disk s b" for b
      using clean_content [OF log_okD(1) [OF ok]] log_okD(2) [OF ok] \<open>dirtyset s = {}\<close> by auto
    ultimately show ?thesis
      using empty log_okD(10) [OF ok] boot(5) by (metis (no_types, lifting))
  next
    case 2
    have before: "disk r b = disk s b" if "\<forall>i<n. b \<noteq> log_pos s i" for b
      unfolding boot(8) by (rule crash_before [OF ok]) (use 2 that in \<open>simp_all add: n_def\<close>)
    have "disk r (lstart s) = disk s (lstart s)"
      by (rule before) (metis n_def log_layoutD(5) [OF log_okD(3) [OF ok]])
    then obtain t where t: "recover_from_log p r = Ok () t" "bio_inv t" "dirtyset t = {}" "get32 (disk t (lstart s)) 0 = 0"
        "\<forall>b. b \<noteq> lstart s \<longrightarrow> disk t b = disk r b"
      using empty log_okD(10) [OF ok] boot(5) by auto
    with before 2 show ?thesis by (auto simp: n_def)
  next
    case 3
    then show ?thesis
      using recover_new [OF ok _ _ _ boot, of p] by (auto simp: n_def)
  next
    case 4
    have "get32 (disk r (lstart r)) 0 = 0"
      unfolding boot(5,8) using crash_done(1) [OF ok, of k] 4 head_bytes_get(1) [OF head_length(2) [OF ok]] by (simp add: n_def)
    then obtain t where t: "recover_from_log p r = Ok () t" "bio_inv t" "dirtyset t = {}" "get32 (disk t (lstart s)) 0 = 0"
        "\<forall>b. b \<noteq> lstart s \<longrightarrow> disk t b = disk r b"
      using empty boot(5) by auto
    moreover have "disk r b = content s b" if "b \<noteq> lstart s" "\<forall>i<n. b \<noteq> log_pos s i" for b
      unfolding boot(8) by (rule crash_done(2) [OF ok]) (use 4 that in \<open>simp_all add: n_def\<close>)
    ultimately show ?thesis using 4 by (auto simp: n_def)
  qed
qed

section \<open>Transactions\<close>

text \<open>Between \<^verbatim>\<open>begin_op\<close> and \<^verbatim>\<open>end_op\<close>: the header in memory lists the pinned blocks.\<close>

definition log_inv :: "'a logst_scheme \<Rightarrow> bool" where
  "log_inv s \<longleftrightarrow> bio_inv s \<and> 0 \<le>s lhn s \<and> rounds (lhn s) \<le> LOGSIZE \<and> length (lhblock s) = LOGSIZE \<and>
     distinct (take (rounds (lhn s)) (lhblock s)) \<and> set (take (rounds (lhn s)) (lhblock s)) = dirtyset s"

lemma rounds_Suc:
  assumes "0 \<le>s n" "\<not> 30 \<le>s (n :: i32)"
  shows "rounds n < 30" "rounds (n + 1) = Suc (rounds n)" "0 \<le>s n + 1"
proof -
  have "\<not> n <s 0" using assms(1) by (simp add: word_sless_alt word_sle_eq)
  then have "unat n < 30"
    using assms(2) i32_small(2) [of 30 n] by (simp add: i32_neg_iff)
  then have n: "unat n < 30" "unat (n + 1) = Suc (unat n)"
    by (auto simp: unat_word_ariths)
  define k where "k = unat n"
  have "sint n = int k" "sint (n + 1) = int (Suc k)" "k < 30"
    using n by (simp_all only: sint_i32 k_def) simp_all
  then show "rounds n < 30" "rounds (n + 1) = Suc (rounds n)" "0 \<le>s n + 1"
    by (simp_all only: rounds_def word_sle_eq nat_int) simp_all
qed

lemma takeWhile_found:
  "b \<in> set ys \<Longrightarrow> length (takeWhile (\<lambda>c. c \<noteq> b) ys) < length ys \<and> ys ! length (takeWhile (\<lambda>c. c \<noteq> b) ys) = b"
  by (induction ys) auto

lemma takeWhile_new:
  fixes b :: 'a
  assumes "length xs = N" "n < N" "distinct (take n xs)"
  defines "i \<equiv> length (takeWhile (\<lambda>c. c \<noteq> b) (take n xs))"
  shows "b \<in> set (take n xs) \<Longrightarrow> i < n \<and> xs[i := b] = xs"
    and "b \<notin> set (take n xs) \<Longrightarrow> i = n \<and> take (Suc n) (xs[i := b]) = take n xs @ [b]"
proof -
  have len: "length (take n xs) = n" using assms by simp
  show "b \<in> set (take n xs) \<Longrightarrow> i < n \<and> xs[i := b] = xs"
  proof -
    assume "b \<in> set (take n xs)"
    then have "i < length (take n xs) \<and> take n xs ! i = b" unfolding i_def by (rule takeWhile_found)
    then have "i < n" "take n xs ! i = b" unfolding len by simp_all
    then show ?thesis by (metis list_update_id nth_take)
  qed
  assume "b \<notin> set (take n xs)"
  then have "takeWhile (\<lambda>c. c \<noteq> b) (take n xs) = take n xs" by (auto simp: takeWhile_eq_all_conv)
  then have "i = n" unfolding i_def using len by (simp only:)
  then show "i = n \<and> take (Suc n) (xs[i := b]) = take n xs @ [b]"
    using assms(1,2) by (simp add: take_Suc_conv_app_nth)
qed

lemma log_write_spec:
  fixes s :: "'a logst_scheme"
  assumes inv: "log_inv s" and m: "mine me b i s"
    and g: "\<not> 30 \<le>s lhn s" "\<not> lsize s - 1 \<le>s lhn s" "\<not> outstanding s <s 1"
  shows "\<exists>t. log_write i s = Ok () t \<and> log_inv t \<and> bview t = (bview s)\<lparr>vpin := insert b (dirtyset s)\<rparr> \<and>
    disksize t = disksize s \<and> logst.more t = logst.more s \<and> (\<forall>c j. mine me c j s \<longrightarrow> mine me c j t) \<and>
    lhn t = (if b \<in> dirtyset s then lhn s else lhn s + 1) \<and>
    (lstart t, lsize t, outstanding t, committing t, ldev t) = (lstart s, lsize s, outstanding s, committing s, ldev s)"
proof -
  define n where "n = rounds (lhn s)"
  define k where "k = length (takeWhile (\<lambda>c. c \<noteq> b) (take n (lhblock s)))"
  define u where "u = s\<lparr>lhblock := (lhblock s)[k := b], lhn := if k = n then lhn s + 1 else lhn s\<rparr>"
  define t where "t = upd_buf i (\<lambda>x. x\<lparr>flags := flags x OR B_DIRTY\<rparr>) u"
  have b: "blockno (bufs s i) = b" using m by (simp add: mine_def holds_def)
  have lw: "log_write i s = Ok () t"
    using g by (simp add: log_write_def b Let_def n_def [symmetric] k_def [symmetric] u_def t_def)
  have si: "bio_inv s" "0 \<le>s lhn s" "length (lhblock s) = LOGSIZE" "distinct (take n (lhblock s))" "set (take n (lhblock s)) = dirtyset s"
    using inv by (simp_all add: log_inv_def n_def)
  have n: "n < LOGSIZE" "rounds (lhn s + 1) = Suc n" "0 \<le>s lhn s + 1"
    using rounds_Suc [OF si(2) g(1)] by (simp_all add: n_def LOGSIZE_def)
  note tw = takeWhile_new [OF si(3) n(1) si(4), of b, folded k_def, unfolded si(5)]
  have u: "bio_inv u" "mine me b i u" "bview u = bview s" "\<forall>c j. mine me c j s \<longrightarrow> mine me c j u"
    using si(1) m by (simp_all add: u_def)
  have t: "bio_inv t" "bview t = (bview s)\<lparr>vpin := insert b (dirtyset s)\<rparr>" "disksize t = disksize u" "bio.more t = bio.more u"
      "\<forall>c j. mine me c j s \<longrightarrow> mine me c j t"
    using bc.pin_ok [OF u(1,2), folded t_def] u(3,4) by (auto simp: bview_def)
  note tr = log_rest [OF t(4)]
  have td: "dirtyset t = insert b (dirtyset s)" using t(2) by (simp add: bview_def)
  have l: "lhn t = (if b \<in> dirtyset s then lhn s else lhn s + 1)" "lhblock t = (lhblock s)[k := b]"
    using tw by (auto simp: tr u_def)
  have "log_inv t"
  proof (cases "b \<in> dirtyset s")
    case True
    then have "lhn t = lhn s" "lhblock t = lhblock s" "dirtyset t = dirtyset s" using l tw(1) td by auto
    then show ?thesis using inv t(1) by (simp add: log_inv_def)
  next
    case False
    then have "lhn t = lhn s + 1" "take (Suc n) (lhblock t) = take n (lhblock s) @ [b]" using l tw(2) by auto
    then show ?thesis using si n t(1) td False by (simp add: log_inv_def n_def l(2))
  qed
  then show ?thesis
    using lw t l(1) by (auto simp: tr u_def)
qed

section \<open>A fresh log\<close>

lemma binit_rest:
  "disksize (binit s) = disksize s" "written (binit s) = written s" "bio.more (binit s) = bio.more s" "disk (binit s) = disk s"
proof -
  have "disksize (fold binit_link xs s) = disksize s \<and> written (fold binit_link xs s) = written s \<and>
      bio.more (fold binit_link xs s) = bio.more s \<and> disk (fold binit_link xs s) = disk s" for xs and s :: "'a bio_scheme"
    by (induction xs arbitrary: s) (simp_all add: binit_link_def Let_def upd_buf_def)
  then show "disksize (binit s) = disksize s" "written (binit s) = written s" "bio.more (binit s) = bio.more s" "disk (binit s) = disk s"
    by (simp_all add: binit_def upd_buf_def)
qed

lemma binit_view:
  assumes "loaded s"
  shows "dirtyset (binit s) = {}" "lockset (binit s) = {}"
proof -
  have "\<not> holds c (bufs (binit s) i)" if "i < NBUF" for i c
    using binit_fold [of NBUF s, folded binit_def, simplified] assms that by (simp add: loaded_def holds_def)
  then show "dirtyset (binit s) = {}" "lockset (binit s) = {}"
    by (auto simp: dirtyset_def lockset_def)
qed

definition demo_log :: "(u32 \<Rightarrow> u8 list) \<Rightarrow> logst" where
  "demo_log d = binit \<lparr>bufs = \<lambda>_. demo_buf, disk = d, disksize = 1000, written = [], lstart = 2, lsize = 30,
     outstanding = 1, committing = 0, ldev = 1, lhn = 0, lhblock = replicate 30 0\<rparr>"

lemma demo_log_boot:
  assumes "\<forall>b. length (d b) = BSIZE"
  shows "bio_inv (demo_log d)" "dirtyset (demo_log d) = {}" "lockset (demo_log d) = {}" "disk (demo_log d) = d"
    "content (demo_log d) = d" "disksize (demo_log d) = 1000" "lstart (demo_log d) = 2" "lsize (demo_log d) = 30"
    "outstanding (demo_log d) = 1" "ldev (demo_log d) = 1" "lhn (demo_log d) = 0" "lhblock (demo_log d) = replicate 30 0"
proof -
  define s where "s = \<lparr>bufs = \<lambda>_. demo_buf, disk = d, disksize = 1000, written = [], lstart = 2, lsize = 30,
     outstanding = 1, committing = 0, ldev = 1, lhn = 0, lhblock = replicate 30 0\<rparr>"
  have l: "loaded s" using assms by (simp add: loaded_def s_def demo_buf_def BSIZE_def)
  have d: "demo_log d = binit s" by (simp add: demo_log_def s_def)
  note rest = log_rest [OF binit_rest(3) [of s]] binit_rest [of s]
  show "bio_inv (demo_log d)" "content (demo_log d) = d" "dirtyset (demo_log d) = {}" "lockset (demo_log d) = {}"
    using binit_inv [OF l] binit_view [OF l] by (simp_all add: d) (simp add: s_def)
  show "disk (demo_log d) = d" "disksize (demo_log d) = 1000" "lstart (demo_log d) = 2" "lsize (demo_log d) = 30"
    "outstanding (demo_log d) = 1" "ldev (demo_log d) = 1" "lhn (demo_log d) = 0" "lhblock (demo_log d) = replicate 30 0"
    unfolding d rest by (simp_all add: s_def)
qed

text \<open>A transaction that changes block 40 and has not committed yet.\<close>

lemma demo_transaction:
  "\<exists>s :: logst. log_ok s \<and> rounds (lhn s) = 1 \<and> lhblock s ! 0 = 40 \<and> lstart s = 2 \<and> disksize s = 1000 \<and>
     disk s = (\<lambda>_. replicate BSIZE 0) \<and> content s 40 = replicate BSIZE 7"
proof -
  define z where "z = demo_log (\<lambda>_. replicate BSIZE 0)"
  note zf = demo_log_boot [of "\<lambda>_. replicate BSIZE 0", folded z_def, simplified]
  obtain i t where t: "bread 5 1 40 z = Ok i t" "bio_inv t" "bview t = (bview z)\<lparr>vlock := {40}\<rparr>"
      "disksize t = disksize z" "bio.more t = bio.more z" "mine 5 40 i t"
    using bc.rd_ok [OF zf(1), of 40 5] by (auto simp: bview_def zf NBUF_def)
  note tr = log_rest [OF t(5)]
  define u where "u = upd_buf i (\<lambda>x. x\<lparr>bdata := replicate BSIZE 7\<rparr>) t"
  have u: "bio_inv u" "bview u = (bview t)\<lparr>vcont := (vcont (bview t))(40 := replicate BSIZE 7)\<rparr>" "disksize u = disksize t"
      "bio.more u = bio.more t" "mine 5 40 i u"
    using bc.upd_ok [OF t(2,6), of "replicate BSIZE 7", folded u_def] t(6) by auto
  note ur = log_rest [OF u(4)] tr
  have ud: "dirtyset u = {}" using u(2) t(3) by (simp add: bview_def zf)
  have "log_inv u" using u(1) ud by (simp add: log_inv_def ur zf rounds_def LOGSIZE_def)
  then obtain v :: logst where v: "log_inv v" "bview v = (bview u)\<lparr>vpin := {40}\<rparr>" "disksize v = disksize u" "mine 5 40 i v" "lhn v = 1"
      "(lstart v, lsize v, outstanding v, ldev v) = (2, 30, 1, 1)"
    using log_write_spec [of u 5 40 i] u(5) by (auto simp: ud ur zf word_sle_eq word_sless_alt)
  obtain w :: logst where w: "bio_inv w" "bview w = (bview v)\<lparr>vlock := vlock (bview v) - {40}\<rparr>" "disksize w = disksize v" "bio.more w = bio.more v"
    using bc.rel_ok [of v 5 40 i] v by (auto simp: bview_def log_inv_def)
  have wd: "dirtyset w = {40}" "lockset w = {}" "disk w = (\<lambda>_. replicate BSIZE 0)" "content w 40 = replicate BSIZE 7"
    using w(2) v(2) u(2) t(3) by (simp_all add: bview_def zf)
  note wr = log_rest [OF w(4)]
  have n: "rounds (lhn w) = 1" by (simp add: wr v(5) rounds_def)
  have l: "length (lhblock w) = LOGSIZE" "set (take 1 (lhblock w)) = {40}"
    using v(1,2,5) by (simp_all add: wr log_inv_def bview_def rounds_def)
  then have b: "lhblock w ! 0 = 40" by (cases "lhblock w") (simp_all add: LOGSIZE_def)
  have f: "ldev w = 1" "lstart w = 2" "disksize w = 1000"
    using v(3,6) w(3) u(3) t(4) by (simp_all add: wr zf)
  have "log_layout w 1" by (simp add: log_layout_def f b log_pos_def LOGSIZE_def)
  moreover have "get32 (replicate BSIZE 0) 0 = 0" by (simp add: get32_def BSIZE_def)
  ultimately have "log_ok w"
    using w(1) wd l b n v(5) by (cases "lhblock w") (simp_all add: log_ok_def wr NBUF_def word_sle_eq LOGSIZE_def)
  then show ?thesis using n b f wd by blast
qed

theorem commit_crash_atomic_witness:
  "\<exists>(s :: logst) t r. rounds (lhn s) = 1 \<and> disk s 40 = replicate BSIZE 0 \<and> content s 40 = replicate BSIZE 7 \<and> commit 5 s = Ok () t \<and>
     recover_from_log 5 (demo_log (apply_writes (take 2 (commit_writes s)) (disk s))) = Ok () r \<and> disk r 40 = replicate BSIZE 7"
proof -
  obtain s :: logst where s: "log_ok s" "rounds (lhn s) = 1" "lhblock s ! 0 = 40" "lstart s = 2" "disksize s = 1000"
      "disk s = (\<lambda>_. replicate BSIZE 0)" "content s 40 = replicate BSIZE 7"
    using demo_transaction by blast
  define d where "d = apply_writes (take 2 (commit_writes s)) (disk s)"
  have "take 2 (commit_writes s) = [(log_pos s 0, content s 40), (2, commit_head s)]"
    by (simp add: commit_writes_def s log_writes_def numeral_2_eq_2)
  then have "\<forall>b. length (d b) = BSIZE"
    using head_length(2) [OF s(1)] by (simp add: d_def s)
  note b = demo_log_boot [OF this]
  have 1: "lstart (demo_log d) = lstart s" "disksize (demo_log d) = disksize s" "length (lhblock (demo_log d)) = LOGSIZE"
      "disk (demo_log d) = apply_writes (take 2 (commit_writes s)) (disk s)"
    unfolding b by (simp_all add: s LOGSIZE_def d_def)
  obtain t r where 2: "commit 5 s = Ok () t" "recover_from_log 5 (demo_log d) = Ok () r" "disk r 40 = content s 40"
    using commit_crash_atomic [OF s(1) b(1,3,2,10) 1, of 5 5] s(2,4) by (auto simp: log_pos_def)
  show ?thesis
    by (rule exI [of _ s], rule exI [of _ t], rule exI [of _ r]) (use 2 s in \<open>simp add: d_def\<close>)
qed

end
