(* ===== verification/Fs.thy ===== *)
theory Fs
  imports Log
begin

text \<open>
  The file system (\<^verbatim>\<open>fs.c\<close>) on top of the log: the bitmap allocator of disk blocks, inodes on
  disk and in the inode cache, the map from the blocks of a file to disk blocks, reading and
  writing the data of a file, directories and path names. The routines are the ones of the
  source, one kernel thread at a time. The boot message of \<^verbatim>\<open>iinit\<close> is left out, and the spin
  lock \<^verbatim>\<open>icache.lock\<close>, taken and released within one routine, makes its section one step.
\<close>

section \<open>Data\<close>

definition NINODE :: nat where
  "NINODE = 50"

definition NDIRECT :: nat where
  "NDIRECT = 12"

definition NINDIRECT :: nat where
  "NINDIRECT = 128"

definition MAXFILE :: nat where
  "MAXFILE = 140"

definition DIRSIZ :: nat where
  "DIRSIZ = 14"

definition T_DIR :: u16 where
  "T_DIR = 1"

definition T_FILE :: u16 where
  "T_FILE = 2"

definition T_DEV :: u16 where
  "T_DEV = 3"

text \<open>\<^verbatim>\<open>struct inode\<close>; a pointer to an entry of the inode cache is its index.\<close>

record inode =
  idev :: u32
  inum :: u32
  iref :: i32
  ilk :: sleeplock
  ivalid :: i32
  itype :: u16
  major :: u16
  minor :: u16
  nlink :: u16
  isize :: u32
  addrs :: "u32 list"

record fs = logst +
  sb :: superblock
  icache :: "nat \<Rightarrow> inode"

definition upd_ino :: "nat \<Rightarrow> (inode \<Rightarrow> inode) \<Rightarrow> 'a fs_scheme \<Rightarrow> 'a fs_scheme" where
  "upd_ino i f s = s\<lparr>icache := (icache s)(i := f (icache s i))\<rparr>"

text \<open>\<^verbatim>\<open>struct dinode\<close>, 64 bytes, eight to a block.\<close>

record dinode =
  dtype :: u16
  dmajor :: u16
  dminor :: u16
  dnlink :: u16
  dsize :: u32
  daddrs :: "u32 list"

definition get_dinode :: "u8 list \<Rightarrow> nat \<Rightarrow> dinode" where
  "get_dinode d k = \<lparr>dtype = get16 d (64 * k), dmajor = get16 d (64 * k + 2), dminor = get16 d (64 * k + 4),
     dnlink = get16 d (64 * k + 6), dsize = get32 d (64 * k + 8),
     daddrs = map (\<lambda>j. get32 d (64 * k + 12 + 4 * j)) [0..<NDIRECT + 1]\<rparr>"

primrec put_words :: "u8 list \<Rightarrow> nat \<Rightarrow> u32 list \<Rightarrow> u8 list" where
  "put_words d k [] = d"
| "put_words d k (w # ws) = put_words (put32 d k w) (k + 4) ws"

definition put_dinode :: "u8 list \<Rightarrow> nat \<Rightarrow> dinode \<Rightarrow> u8 list" where
  "put_dinode d k x = put_words (put32 (put16 (put16 (put16 (put16 d (64 * k) (dtype x)) (64 * k + 2) (dmajor x))
     (64 * k + 4) (dminor x)) (64 * k + 6) (dnlink x)) (64 * k + 8) (dsize x)) (64 * k + 12) (daddrs x)"

definition IBLOCK :: "u32 \<Rightarrow> superblock \<Rightarrow> u32" where
  "IBLOCK i b = i div 8 + inodestart b"

definition BBLOCK :: "u32 \<Rightarrow> superblock \<Rightarrow> u32" where
  "BBLOCK b q = b div 4096 + bmapstart q"

section \<open>Blocks\<close>

definition set_data :: "nat \<Rightarrow> (u8 list \<Rightarrow> u8 list) \<Rightarrow> 'a bio_scheme \<Rightarrow> 'a bio_scheme" where
  "set_data b f = upd_buf b (\<lambda>x. x\<lparr>bdata := f (bdata x)\<rparr>)"

definition bzero :: "i32 \<Rightarrow> u32 \<Rightarrow> u32 \<Rightarrow> 'a fs_scheme \<Rightarrow> (unit, 'a fs_scheme) outcome" where
  "bzero me dev bno s = bindO (bread me dev bno s) (\<lambda>bp s.
     bindO (log_write bp (set_data bp (\<lambda>_. replicate BSIZE 0) s)) (\<lambda>_ s. brelse me bp s))"

definition free_bit :: "u8 list \<Rightarrow> nat \<Rightarrow> bool" where
  "free_bit d bi \<longleftrightarrow> d ! (bi div 8) AND push_bit (bi mod 8) 1 = 0"

text \<open>The scan of one block of the bitmap, whose first bit stands for block \<open>b\<close>.\<close>

definition find_free :: "u8 list \<Rightarrow> u32 \<Rightarrow> u32 \<Rightarrow> nat option" where
  "find_free d b n = find (\<lambda>bi. b + of_nat bi < n \<and> free_bit d bi) [0..<4096]"

primrec balloc_loop :: "i32 \<Rightarrow> u32 \<Rightarrow> nat \<Rightarrow> u32 \<Rightarrow> 'a fs_scheme \<Rightarrow> (u32, 'a fs_scheme) outcome" where
  "balloc_loop me dev 0 b s = Panic ''balloc: out of blocks''"
| "balloc_loop me dev (Suc k) b s =
     (if 2147483648 \<le> b then Fault ''int overflow''
      else bindO (bread me dev (BBLOCK b (sb s)) s) (\<lambda>bp s.
        case find_free (bdata (bufs s bp)) b (sb_size (sb s)) of
          Some bi \<Rightarrow>
            bindO (log_write bp (set_data bp (\<lambda>d. d[bi div 8 := d ! (bi div 8) OR push_bit (bi mod 8) 1]) s)) (\<lambda>_ s.
            bindO (brelse me bp s) (\<lambda>_ s.
            bindO (bzero me dev (b + of_nat bi) s) (\<lambda>_ s. Ok (b + of_nat bi) s)))
        | None \<Rightarrow> bindO (brelse me bp s) (\<lambda>_ s. balloc_loop me dev k (b + 4096) s)))"

definition balloc :: "i32 \<Rightarrow> u32 \<Rightarrow> 'a fs_scheme \<Rightarrow> (u32, 'a fs_scheme) outcome" where
  "balloc me dev s = balloc_loop me dev ((unat (sb_size (sb s)) + 4095) div 4096) 0 s"

definition bfree :: "i32 \<Rightarrow> u32 \<Rightarrow> u32 \<Rightarrow> 'a fs_scheme \<Rightarrow> (unit, 'a fs_scheme) outcome" where
  "bfree me dev b s = bindO (bread me dev (BBLOCK b (sb s)) s) (\<lambda>bp s.
     let bi = unat b mod 4096 in
     if free_bit (bdata (bufs s bp)) bi then Panic ''freeing free block''
     else bindO (log_write bp (set_data bp (\<lambda>d. d[bi div 8 := d ! (bi div 8) AND NOT (push_bit (bi mod 8) 1)]) s)) (\<lambda>_ s.
       brelse me bp s))"

section \<open>Inodes\<close>

definition iinit :: "i32 \<Rightarrow> u32 \<Rightarrow> 'a fs_scheme \<Rightarrow> (unit, 'a fs_scheme) outcome" where
  "iinit me dev s =
     (let s = s\<lparr>icache := (\<lambda>i. if i < NINODE then (icache s i)\<lparr>ilk := initsleeplock (ilk (icache s i)) ''inode''\<rparr> else icache s i)\<rparr>
      in bindO (readsb me dev s) (\<lambda>q s. Ok () (s\<lparr>sb := q\<rparr>)))"

definition iget :: "u32 \<Rightarrow> u32 \<Rightarrow> 'a fs_scheme \<Rightarrow> (nat, 'a fs_scheme) outcome" where
  "iget dev ino s =
     (case find (\<lambda>i. 0 <s iref (icache s i) \<and> idev (icache s i) = dev \<and> inum (icache s i) = ino) [0..<NINODE] of
        Some i \<Rightarrow> Ok i (upd_ino i (\<lambda>x. x\<lparr>iref := iref x + 1\<rparr>) s)
      | None \<Rightarrow>
        (case find (\<lambda>i. iref (icache s i) = 0) [0..<NINODE] of
           Some i \<Rightarrow> Ok i (upd_ino i (\<lambda>x. x\<lparr>idev := dev, inum := ino, iref := 1, ivalid := 0\<rparr>) s)
         | None \<Rightarrow> Panic ''iget: no inodes''))"

primrec ialloc_loop :: "i32 \<Rightarrow> u32 \<Rightarrow> u16 \<Rightarrow> nat \<Rightarrow> u32 \<Rightarrow> 'a fs_scheme \<Rightarrow> (nat, 'a fs_scheme) outcome" where
  "ialloc_loop me dev ty 0 ino s = Panic ''ialloc: no inodes''"
| "ialloc_loop me dev ty (Suc k) ino s =
     (if 2147483648 \<le> ino then Fault ''int overflow''
      else bindO (bread me dev (IBLOCK ino (sb s)) s) (\<lambda>bp s.
        let k8 = unat ino mod 8 in
        if dtype (get_dinode (bdata (bufs s bp)) k8) = 0 then
          bindO (log_write bp (set_data bp (\<lambda>d. put16 (splice d (64 * k8) (replicate 64 0)) (64 * k8) ty) s)) (\<lambda>_ s.
          bindO (brelse me bp s) (\<lambda>_ s. iget dev ino s))
        else bindO (brelse me bp s) (\<lambda>_ s. ialloc_loop me dev ty k (ino + 1) s)))"

definition ialloc :: "i32 \<Rightarrow> u32 \<Rightarrow> u16 \<Rightarrow> 'a fs_scheme \<Rightarrow> (nat, 'a fs_scheme) outcome" where
  "ialloc me dev ty s = ialloc_loop me dev ty (unat (ninodes (sb s)) - 1) 1 s"

definition iupdate :: "i32 \<Rightarrow> nat \<Rightarrow> 'a fs_scheme \<Rightarrow> (unit, 'a fs_scheme) outcome" where
  "iupdate me ip s =
     (let x = icache s ip in
      bindO (bread me (idev x) (IBLOCK (inum x) (sb s)) s) (\<lambda>bp s.
      bindO (log_write bp (set_data bp (\<lambda>d. put_dinode d (unat (inum x) mod 8)
        \<lparr>dtype = itype x, dmajor = major x, dminor = minor x, dnlink = nlink x, dsize = isize x, daddrs = addrs x\<rparr>) s)) (\<lambda>_ s.
      brelse me bp s)))"

definition idup :: "nat \<Rightarrow> 'a fs_scheme \<Rightarrow> 'a fs_scheme" where
  "idup ip s = upd_ino ip (\<lambda>x. x\<lparr>iref := iref x + 1\<rparr>) s"

definition lock_ino :: "i32 \<Rightarrow> nat \<Rightarrow> 'a fs_scheme \<Rightarrow> (unit, 'a fs_scheme) outcome" where
  "lock_ino me ip s = (case acquiresleep me (ilk (icache s ip)) of
     Ok _ lk \<Rightarrow> Ok () (upd_ino ip (\<lambda>x. x\<lparr>ilk := lk\<rparr>) s) | Panic m \<Rightarrow> Panic m | Fault m \<Rightarrow> Fault m | Diverge \<Rightarrow> Diverge)"

definition ilock :: "i32 \<Rightarrow> nat \<Rightarrow> 'a fs_scheme \<Rightarrow> (unit, 'a fs_scheme) outcome" where
  "ilock me ip s =
     (if iref (icache s ip) <s 1 then Panic ''ilock''
      else bindO (lock_ino me ip s) (\<lambda>_ s.
        if ivalid (icache s ip) = 0 then
          bindO (bread me (idev (icache s ip)) (IBLOCK (inum (icache s ip)) (sb s)) s) (\<lambda>bp s.
            let y = get_dinode (bdata (bufs s bp)) (unat (inum (icache s ip)) mod 8);
                s = upd_ino ip (\<lambda>x. x\<lparr>itype := dtype y, major := dmajor y, minor := dminor y, nlink := dnlink y,
                      isize := dsize y, addrs := daddrs y\<rparr>) s
            in bindO (brelse me bp s) (\<lambda>_ s.
              let s = upd_ino ip (\<lambda>x. x\<lparr>ivalid := 1\<rparr>) s in
              if itype (icache s ip) = 0 then Panic ''ilock: no type'' else Ok () s))
        else Ok () s))"

definition iunlock :: "i32 \<Rightarrow> nat \<Rightarrow> 'a fs_scheme \<Rightarrow> (unit, 'a fs_scheme) outcome" where
  "iunlock me ip s =
     (if \<not> holdingsleep me (ilk (icache s ip)) \<or> iref (icache s ip) <s 1 then Panic ''iunlock''
      else Ok () (upd_ino ip (\<lambda>x. x\<lparr>ilk := releasesleep (ilk x)\<rparr>) s))"

section \<open>The blocks of a file\<close>

definition set_addr :: "nat \<Rightarrow> nat \<Rightarrow> u32 \<Rightarrow> 'a fs_scheme \<Rightarrow> 'a fs_scheme" where
  "set_addr ip k v = upd_ino ip (\<lambda>x. x\<lparr>addrs := (addrs x)[k := v]\<rparr>)"

text \<open>The block number in slot \<open>k\<close> of \<^verbatim>\<open>ip->addrs\<close>, allocated when the slot is empty.\<close>

definition slot_block :: "i32 \<Rightarrow> nat \<Rightarrow> nat \<Rightarrow> 'a fs_scheme \<Rightarrow> (u32, 'a fs_scheme) outcome" where
  "slot_block me ip k s =
     (let addr = addrs (icache s ip) ! k in
      if addr = 0 then bindO (balloc me (idev (icache s ip)) s) (\<lambda>addr s. Ok addr (set_addr ip k addr s))
      else Ok addr s)"

definition bmap :: "i32 \<Rightarrow> nat \<Rightarrow> u32 \<Rightarrow> 'a fs_scheme \<Rightarrow> (u32, 'a fs_scheme) outcome" where
  "bmap me ip bn s =
     (if unat bn < NDIRECT then slot_block me ip (unat bn) s
      else let k = unat (bn - of_nat NDIRECT) in
        if k < NINDIRECT then
          bindO (slot_block me ip NDIRECT s) (\<lambda>addr s.
          bindO (bread me (idev (icache s ip)) addr s) (\<lambda>bp s.
            let addr = get32 (bdata (bufs s bp)) (4 * k) in
            bindO
              (if addr = 0 then
                 bindO (balloc me (idev (icache s ip)) s) (\<lambda>addr s.
                 bindO (log_write bp (set_data bp (\<lambda>d. put32 d (4 * k) addr) s)) (\<lambda>_ s. Ok addr s))
               else Ok addr s) (\<lambda>addr s.
            bindO (brelse me bp s) (\<lambda>_ s. Ok addr s))))
        else Panic ''bmap: out of range'')"

primrec itrunc_direct :: "i32 \<Rightarrow> nat \<Rightarrow> nat \<Rightarrow> nat \<Rightarrow> 'a fs_scheme \<Rightarrow> (unit, 'a fs_scheme) outcome" where
  "itrunc_direct me ip 0 i s = Ok () s"
| "itrunc_direct me ip (Suc k) i s =
     (if addrs (icache s ip) ! i \<noteq> 0 then
        bindO (bfree me (idev (icache s ip)) (addrs (icache s ip) ! i) s) (\<lambda>_ s.
          itrunc_direct me ip k (Suc i) (set_addr ip i 0 s))
      else itrunc_direct me ip k (Suc i) s)"

primrec itrunc_indirect :: "i32 \<Rightarrow> nat \<Rightarrow> nat \<Rightarrow> nat \<Rightarrow> nat \<Rightarrow> 'a fs_scheme \<Rightarrow> (unit, 'a fs_scheme) outcome" where
  "itrunc_indirect me ip bp 0 j s = Ok () s"
| "itrunc_indirect me ip bp (Suc k) j s =
     (let a = get32 (bdata (bufs s bp)) (4 * j) in
      if a \<noteq> 0 then bindO (bfree me (idev (icache s ip)) a s) (\<lambda>_ s. itrunc_indirect me ip bp k (Suc j) s)
      else itrunc_indirect me ip bp k (Suc j) s)"

definition itrunc :: "i32 \<Rightarrow> nat \<Rightarrow> 'a fs_scheme \<Rightarrow> (unit, 'a fs_scheme) outcome" where
  "itrunc me ip s = bindO (itrunc_direct me ip NDIRECT 0 s) (\<lambda>_ s.
     bindO
       (if addrs (icache s ip) ! NDIRECT \<noteq> 0 then
          bindO (bread me (idev (icache s ip)) (addrs (icache s ip) ! NDIRECT) s) (\<lambda>bp s.
          bindO (itrunc_indirect me ip bp NINDIRECT 0 s) (\<lambda>_ s.
          bindO (brelse me bp s) (\<lambda>_ s.
          bindO (bfree me (idev (icache s ip)) (addrs (icache s ip) ! NDIRECT) s) (\<lambda>_ s.
            Ok () (set_addr ip NDIRECT 0 s)))))
        else Ok () s) (\<lambda>_ s.
     iupdate me ip (upd_ino ip (\<lambda>x. x\<lparr>isize := 0\<rparr>) s)))"

definition iput :: "i32 \<Rightarrow> nat \<Rightarrow> 'a fs_scheme \<Rightarrow> (unit, 'a fs_scheme) outcome" where
  "iput me ip s = bindO (lock_ino me ip s) (\<lambda>_ s.
     bindO
       (if ivalid (icache s ip) \<noteq> 0 \<and> nlink (icache s ip) = 0 \<and> iref (icache s ip) = 1 then
          bindO (itrunc me ip s) (\<lambda>_ s.
          bindO (iupdate me ip (upd_ino ip (\<lambda>x. x\<lparr>itype := 0\<rparr>) s)) (\<lambda>_ s.
            Ok () (upd_ino ip (\<lambda>x. x\<lparr>ivalid := 0\<rparr>) s)))
        else Ok () s) (\<lambda>_ s.
     Ok () (upd_ino ip (\<lambda>x. x\<lparr>ilk := releasesleep (ilk x), iref := iref x - 1\<rparr>) s)))"

definition iunlockput :: "i32 \<Rightarrow> nat \<Rightarrow> 'a fs_scheme \<Rightarrow> (unit, 'a fs_scheme) outcome" where
  "iunlockput me ip s = bindO (iunlock me ip s) (\<lambda>_ s. iput me ip s)"

section \<open>Data of a file\<close>

text \<open>\<^verbatim>\<open>struct stat\<close> as filled by \<^verbatim>\<open>stati\<close>.\<close>

record stat =
  st_type :: u16
  st_dev :: i32
  st_ino :: u32
  st_nlink :: u16
  st_size :: u32

definition stati :: "inode \<Rightarrow> stat" where
  "stati x = \<lparr>st_type = itype x, st_dev = idev x, st_ino = inum x, st_nlink = nlink x, st_size = isize x\<rparr>"

text \<open>The tables \<^verbatim>\<open>devsw[].read\<close> and \<^verbatim>\<open>devsw[].write\<close>: the routine of a major number, if there is
  one. A routine gets the inode, the bytes to write or the number of bytes to read, and gives
  its result (and the bytes read).\<close>

type_synonym 's dev_read = "nat \<Rightarrow> (nat \<Rightarrow> u32 \<Rightarrow> 's \<Rightarrow> (i32 \<times> u8 list, 's) outcome) option"
type_synonym 's dev_write = "nat \<Rightarrow> (nat \<Rightarrow> u8 list \<Rightarrow> u32 \<Rightarrow> 's \<Rightarrow> (i32, 's) outcome) option"

definition dev_slot :: "(nat \<Rightarrow> 'f option) \<Rightarrow> u16 \<Rightarrow> 'f option" where
  "dev_slot tbl k = (if k <s 0 \<or> 10 \<le>s k then None else tbl (unat k))"

text \<open>The number of bytes one round copies: up to the end of the block or of the request.\<close>

definition chunk :: "u32 \<Rightarrow> nat \<Rightarrow> nat" where
  "chunk off n = min n (BSIZE - unat off mod BSIZE)"

lemma chunk_pos: "n \<noteq> 0 \<Longrightarrow> 0 < chunk off n"
  by (simp add: chunk_def BSIZE_def)

lemma chunk_le [simp]: "chunk off n \<le> n" "chunk off n \<le> BSIZE"
  by (simp_all add: chunk_def)

text \<open>The loops of \<^verbatim>\<open>readi\<close> and \<^verbatim>\<open>writei\<close>; \<open>n\<close> is the number of bytes left.\<close>

function readi_loop :: "i32 \<Rightarrow> nat \<Rightarrow> u32 \<Rightarrow> nat \<Rightarrow> 'a fs_scheme \<Rightarrow> (u8 list, 'a fs_scheme) outcome" where
  "readi_loop me ip off n s =
     (if n = 0 then Ok [] s
      else bindO (bmap me ip (off div of_nat BSIZE) s) (\<lambda>addr s.
        bindO (bread me (idev (icache s ip)) addr s) (\<lambda>bp s.
          let part = take (chunk off n) (drop (unat off mod BSIZE) (bdata (bufs s bp))) in
          bindO (brelse me bp s) (\<lambda>_ s.
          bindO (readi_loop me ip (off + of_nat (chunk off n)) (n - chunk off n) s) (\<lambda>rest s. Ok (part @ rest) s)))))"
  by pat_completeness auto
termination
  by (relation "measure (\<lambda>(_, _, _, n, _). n)") (auto simp: chunk_pos intro!: diff_less)

declare readi_loop.simps [simp del]

definition readi :: "'a fs_scheme dev_read \<Rightarrow> i32 \<Rightarrow> nat \<Rightarrow> u32 \<Rightarrow> u32 \<Rightarrow> 'a fs_scheme \<Rightarrow> (i32 \<times> u8 list, 'a fs_scheme) outcome" where
  "readi dr me ip off n s =
     (let x = icache s ip in
      if itype x = T_DEV then
        (case dev_slot dr (major x) of None \<Rightarrow> Ok (- 1, []) s | Some f \<Rightarrow> f ip n s)
      else if isize x < off \<or> off + n < off then Ok (- 1, []) s
      else let n = (if isize x < off + n then isize x - off else n)
        in bindO (readi_loop me ip off (unat n) s) (\<lambda>d s. Ok (n, d) s))"

function writei_loop :: "i32 \<Rightarrow> nat \<Rightarrow> u32 \<Rightarrow> u8 list \<Rightarrow> 'a fs_scheme \<Rightarrow> (u32, 'a fs_scheme) outcome" where
  "writei_loop me ip off src s =
     (if src = [] then Ok off s
      else bindO (bmap me ip (off div of_nat BSIZE) s) (\<lambda>addr s.
        bindO (bread me (idev (icache s ip)) addr s) (\<lambda>bp s.
          bindO (log_write bp (set_data bp (\<lambda>d. splice d (unat off mod BSIZE) (take (chunk off (length src)) src)) s)) (\<lambda>_ s.
          bindO (brelse me bp s) (\<lambda>_ s.
            writei_loop me ip (off + of_nat (chunk off (length src))) (drop (chunk off (length src)) src) s)))))"
  by pat_completeness auto
termination
  by (relation "measure (\<lambda>(_, _, _, src, _). length src)") (auto simp: chunk_pos intro!: diff_less)

declare writei_loop.simps [simp del]

definition writei :: "'a fs_scheme dev_write \<Rightarrow> i32 \<Rightarrow> nat \<Rightarrow> u8 list \<Rightarrow> u32 \<Rightarrow> u32 \<Rightarrow> 'a fs_scheme \<Rightarrow> (i32, 'a fs_scheme) outcome" where
  "writei dw me ip src off n s =
     (let x = icache s ip in
      if itype x = T_DEV then
        (case dev_slot dw (major x) of None \<Rightarrow> Ok (- 1) s | Some f \<Rightarrow> f ip src n s)
      else if isize x < off \<or> off + n < off then Ok (- 1) s
      else if of_nat (MAXFILE * BSIZE) < off + n then Ok (- 1) s
      else bindO (writei_loop me ip off (take (unat n) src) s) (\<lambda>off s.
        if 0 < n \<and> isize (icache s ip) < off
        then bindO (iupdate me ip (upd_ino ip (\<lambda>x. x\<lparr>isize := off\<rparr>) s)) (\<lambda>_ s. Ok n s)
        else Ok n s))"

section \<open>Directories\<close>

text \<open>Strings are lists of bytes; the byte after the last one is the NUL that ends the string.\<close>

definition cchar :: "u8 list \<Rightarrow> nat \<Rightarrow> u8" where
  "cchar p i = (if i < length p then p ! i else 0)"

primrec strncmp_bytes :: "nat \<Rightarrow> u8 list \<Rightarrow> u8 list \<Rightarrow> i32" where
  "strncmp_bytes 0 p q = 0"
| "strncmp_bytes (Suc n) p q =
     (if cchar p 0 \<noteq> 0 \<and> cchar p 0 = cchar q 0 then strncmp_bytes n (drop 1 p) (drop 1 q)
      else ucast (cchar p 0) - ucast (cchar q 0))"

definition namecmp :: "u8 list \<Rightarrow> u8 list \<Rightarrow> i32" where
  "namecmp p q = strncmp_bytes DIRSIZ p q"

text \<open>\<^verbatim>\<open>strncpy\<close> into an array of \<open>n\<close> bytes.\<close>

definition strncpy_bytes :: "nat \<Rightarrow> u8 list \<Rightarrow> u8 list" where
  "strncpy_bytes n p = (let q = take n (takeWhile (\<lambda>c. c \<noteq> 0) p) in q @ replicate (n - length q) 0)"

text \<open>\<^verbatim>\<open>struct dirent\<close>: a 16-bit inode number and a name of \<^const>\<open>DIRSIZ\<close> bytes.\<close>

definition de_inum :: "u8 list \<Rightarrow> u16" where
  "de_inum de = get16 de 0"

definition de_name :: "u8 list \<Rightarrow> u8 list" where
  "de_name de = drop 2 de"

definition dirent :: "u16 \<Rightarrow> u8 list \<Rightarrow> u8 list" where
  "dirent i name = put16 (replicate 2 0) 0 i @ strncpy_bytes DIRSIZ name"

text \<open>\<open>k\<close> bounds the number of entries; the loop ends before it runs out.\<close>

primrec dirlookup_loop :: "'a fs_scheme dev_read \<Rightarrow> i32 \<Rightarrow> nat \<Rightarrow> u8 list \<Rightarrow> nat \<Rightarrow> u32 \<Rightarrow> 'a fs_scheme \<Rightarrow>
    ((nat \<times> u32) option, 'a fs_scheme) outcome" where
  "dirlookup_loop dr me dp name 0 off s = Ok None s"
| "dirlookup_loop dr me dp name (Suc k) off s =
     (if off < isize (icache s dp) then
        bindO (readi dr me dp off 16 s) (\<lambda>(r, de) s.
          if r \<noteq> 16 then Panic ''dirlookup read''
          else if de_inum de = 0 then dirlookup_loop dr me dp name k (off + 16) s
          else if namecmp name (de_name de) = 0 then
            bindO (iget (idev (icache s dp)) (ucast (de_inum de)) s) (\<lambda>ip s. Ok (Some (ip, off)) s)
          else dirlookup_loop dr me dp name k (off + 16) s)
      else Ok None s)"

text \<open>The entry found, with its offset.\<close>

definition dirlookup :: "'a fs_scheme dev_read \<Rightarrow> i32 \<Rightarrow> nat \<Rightarrow> u8 list \<Rightarrow> 'a fs_scheme \<Rightarrow>
    ((nat \<times> u32) option, 'a fs_scheme) outcome" where
  "dirlookup dr me dp name s =
     (if itype (icache s dp) \<noteq> T_DIR then Panic ''dirlookup not DIR''
      else dirlookup_loop dr me dp name ((unat (isize (icache s dp)) + 15) div 16) 0 s)"

primrec dirlink_loop :: "'a fs_scheme dev_read \<Rightarrow> i32 \<Rightarrow> nat \<Rightarrow> nat \<Rightarrow> u32 \<Rightarrow> 'a fs_scheme \<Rightarrow> (u32, 'a fs_scheme) outcome" where
  "dirlink_loop dr me dp 0 off s = Ok off s"
| "dirlink_loop dr me dp (Suc k) off s =
     (if off < isize (icache s dp) then
        bindO (readi dr me dp off 16 s) (\<lambda>(r, de) s.
          if r \<noteq> 16 then Panic ''dirlink read''
          else if de_inum de = 0 then Ok off s
          else dirlink_loop dr me dp k (off + 16) s)
      else Ok off s)"

definition dirlink :: "'a fs_scheme dev_read \<Rightarrow> 'a fs_scheme dev_write \<Rightarrow> i32 \<Rightarrow> nat \<Rightarrow> u8 list \<Rightarrow> u32 \<Rightarrow> 'a fs_scheme \<Rightarrow>
    (i32, 'a fs_scheme) outcome" where
  "dirlink dr dw me dp name ino s = bindO (dirlookup dr me dp name s) (\<lambda>found s.
     case found of
       Some (ip, _) \<Rightarrow> bindO (iput me ip s) (\<lambda>_ s. Ok (- 1) s)
     | None \<Rightarrow>
         bindO (dirlink_loop dr me dp ((unat (isize (icache s dp)) + 15) div 16) 0 s) (\<lambda>off s.
         bindO (writei dw me dp (dirent (ucast ino) name) off 16 s) (\<lambda>r s.
           if r \<noteq> 16 then Panic ''dirlink'' else Ok 0 s)))"

section \<open>Paths\<close>

text \<open>\<^verbatim>\<open>skipelem\<close>: the rest of the path and the new contents of the array \<^verbatim>\<open>name\<close>. A path is a
  string, so a NUL byte never occurs in the list.\<close>

definition skipelem :: "u8 list \<Rightarrow> u8 list \<Rightarrow> (u8 list \<times> u8 list) option" where
  "skipelem path name =
     (let p = dropWhile (\<lambda>c. c = 47) path in
      if p = [] then None
      else
        let e = takeWhile (\<lambda>c. c \<noteq> 47) p; r = dropWhile (\<lambda>c. c \<noteq> 47) p;
            name = (if DIRSIZ \<le> length e then splice name 0 (take DIRSIZ e) else (splice name 0 e)[length e := 0])
        in Some (dropWhile (\<lambda>c. c = 47) r, name))"

lemma skipelem_shorter:
  assumes "skipelem path name = Some (path', name')"
  shows "length path' < length path"
proof -
  define p where "p = dropWhile (\<lambda>c. c = 47) path"
  have p: "p \<noteq> []" "path' = dropWhile (\<lambda>c. c = 47) (dropWhile (\<lambda>c. c \<noteq> 47) p)"
    using assms by (auto simp: skipelem_def Let_def p_def split: if_splits)
  then have "hd p \<noteq> 47" using hd_dropWhile [of "\<lambda>c. c = 47" path] by (simp add: p_def)
  then obtain c q where q: "p = c # q" "c \<noteq> 47" using p(1) by (cases p) auto
  have "length path' \<le> length q"
    using p(2) q by (auto intro!: order_trans [OF length_dropWhile_le])
  also have "\<dots> < length p" using q by simp
  also have "\<dots> \<le> length path" unfolding p_def by (rule length_dropWhile_le)
  finally show ?thesis .
qed

function namex_loop :: "'a fs_scheme dev_read \<Rightarrow> i32 \<Rightarrow> bool \<Rightarrow> nat \<Rightarrow> u8 list \<Rightarrow> u8 list \<Rightarrow> 'a fs_scheme \<Rightarrow>
    (nat option \<times> u8 list, 'a fs_scheme) outcome" where
  "namex_loop dr me parent_only ip path name s =
     (case skipelem path name of
        None \<Rightarrow> if parent_only then bindO (iput me ip s) (\<lambda>_ s. Ok (None, name) s) else Ok (Some ip, name) s
      | Some (path, name) \<Rightarrow>
          bindO (ilock me ip s) (\<lambda>_ s.
          if itype (icache s ip) \<noteq> T_DIR then bindO (iunlockput me ip s) (\<lambda>_ s. Ok (None, name) s)
          else if parent_only \<and> path = [] then bindO (iunlock me ip s) (\<lambda>_ s. Ok (Some ip, name) s)
          else bindO (dirlookup dr me ip name s) (\<lambda>found s.
            case found of
              None \<Rightarrow> bindO (iunlockput me ip s) (\<lambda>_ s. Ok (None, name) s)
            | Some (nxt, _) \<Rightarrow> bindO (iunlockput me ip s) (\<lambda>_ s. namex_loop dr me parent_only nxt path name s))))"
  by pat_completeness auto
termination
  by (relation "measure (\<lambda>(_, _, _, _, path, _, _). length path)") (auto dest: skipelem_shorter)

declare namex_loop.simps [simp del]

text \<open>\<open>wd\<close> is the current directory of the process.\<close>

definition namex :: "'a fs_scheme dev_read \<Rightarrow> i32 \<Rightarrow> nat \<Rightarrow> u8 list \<Rightarrow> bool \<Rightarrow> u8 list \<Rightarrow> 'a fs_scheme \<Rightarrow>
    (nat option \<times> u8 list, 'a fs_scheme) outcome" where
  "namex dr me wd path parent_only name s =
     (if cchar path 0 = 47 then bindO (iget 1 1 s) (\<lambda>ip s. namex_loop dr me parent_only ip path name s)
      else namex_loop dr me parent_only wd path name (idup wd s))"

definition namei :: "'a fs_scheme dev_read \<Rightarrow> i32 \<Rightarrow> nat \<Rightarrow> u8 list \<Rightarrow> 'a fs_scheme \<Rightarrow> (nat option, 'a fs_scheme) outcome" where
  "namei dr me wd path s = bindO (namex dr me wd path False (replicate DIRSIZ 0) s) (\<lambda>(ip, _) s. Ok ip s)"

definition nameiparent :: "'a fs_scheme dev_read \<Rightarrow> i32 \<Rightarrow> nat \<Rightarrow> u8 list \<Rightarrow> u8 list \<Rightarrow> 'a fs_scheme \<Rightarrow>
    (nat option \<times> u8 list, 'a fs_scheme) outcome" where
  "nameiparent dr me wd path name s = namex dr me wd path True name s"

end
