(* ===== verification/Ring.thy ===== *)
theory Ring
  imports Xv6_Base
begin

text \<open>
  Ring buffers indexed by free-running 32-bit counters, as the pipe (\<^verbatim>\<open>pipe.c\<close>) and the console
  input (\<^verbatim>\<open>console.c\<close>) use them: the element for counter value \<open>c\<close> is in slot \<open>c mod N\<close>, and the
  counters wrap around at \<open>2\<^sup>3\<^sup>2\<close>. The buffer is read as the list of its elements between two
  counter values; this is sound for every size \<open>N\<close> that divides \<open>2\<^sup>3\<^sup>2\<close>.
\<close>

text \<open>The elements from counter \<open>a\<close> up to but not including counter \<open>b\<close>.\<close>

definition ring_list :: "nat \<Rightarrow> u8 list \<Rightarrow> u32 \<Rightarrow> u32 \<Rightarrow> u8 list" where
  "ring_list N d a b = map (\<lambda>k. d ! (unat (a + of_nat k) mod N)) [0..<unat (b - a)]"

lemma ring_list_length [simp]: "length (ring_list N d a b) = unat (b - a)"
  by (simp add: ring_list_def)

lemma ring_list_empty [simp]: "ring_list N d a a = []"
  by (simp add: ring_list_def)

lemma unat_sub_one:
  assumes "a \<noteq> (b :: u32)"
  shows "unat (b - a - 1) = unat (b - a) - 1"
proof -
  have "unat (b - a) \<noteq> 0" using assms by (simp add: unat_eq_zero)
  then have "1 \<le> b - a" by (simp add: word_le_nat_alt)
  from unat_sub [OF this] show ?thesis by (simp only: unsigned_1)
qed

locale ring =
  fixes N :: nat
  assumes pos: "0 < N" and dvd: "N dvd 4294967296" and small: "N < 4294967296"
begin

lemma slot_add: "unat (a + of_nat k :: u32) mod N = (unat a + k) mod N"
proof -
  have "unat (a + of_nat k :: u32) = (unat a + k) mod 4294967296"
    by (simp add: unat_word_ariths unat_of_nat mod_simps)
  then show ?thesis
    by (simp add: mod_mod_cancel [OF dvd])
qed

text \<open>Different counter values less than \<open>N\<close> apart have different slots.\<close>

lemma slot_inj:
  assumes "j < k" "k < N"
  shows "(unat (a :: u32) + j) mod N \<noteq> (unat a + k) mod N"
proof
  assume "(unat a + j) mod N = (unat a + k) mod N"
  then have "(unat a + k - (unat a + j)) mod N = 0"
    using assms by (intro mod_eq_dvd_iff_nat [THEN iffD1, THEN dvd_imp_mod_0]) simp_all
  then show False using assms by simp
qed

lemma put:
  assumes "unat (b - a) < N" "length d = N"
  shows "ring_list N (d[unat b mod N := x]) a (b + 1) = ring_list N d a b @ [x]"
proof -
  define n where "n = unat (b - a)"
  have "b = a + of_nat n" by (simp add: n_def)
  then have b: "unat b mod N = (unat a + n) mod N" by (simp only: slot_add)
  have "unat (b + 1 - a) = Suc n"
  proof -
    have "b + 1 - a = (b - a) + 1" by simp
    moreover have "unat ((b - a) + 1) = n + 1"
      using assms(1) small by (subst unat_add_lt) (simp_all add: n_def)
    ultimately show ?thesis by (simp only: Suc_eq_plus1)
  qed
  then have "ring_list N (d[unat b mod N := x]) a (b + 1) =
      map (\<lambda>k. d[unat b mod N := x] ! ((unat a + k) mod N)) [0..<n] @ [x]"
    using assms(2) pos by (simp add: ring_list_def slot_add b)
  also have "map (\<lambda>k. d[unat b mod N := x] ! ((unat a + k) mod N)) [0..<n] = map (\<lambda>k. d ! ((unat a + k) mod N)) [0..<n]"
  proof (rule map_cong)
    fix k assume "k \<in> set [0..<n]"
    then have "(unat a + k) mod N \<noteq> (unat a + n) mod N"
      using assms(1) by (intro slot_inj) (simp_all add: n_def)
    then show "d[unat b mod N := x] ! ((unat a + k) mod N) = d ! ((unat a + k) mod N)"
      by (simp add: b nth_list_update_neq)
  qed simp
  finally show ?thesis by (simp add: ring_list_def slot_add n_def)
qed

lemma get:
  assumes "a \<noteq> b"
  shows "ring_list N d a b = d ! (unat a mod N) # ring_list N d (a + 1) b"
proof -
  define n where "n = unat (b - a)"
  have n: "n \<noteq> 0" using assms by (simp add: n_def unat_eq_zero)
  then obtain m where m: "n = Suc m" by (cases n) auto
  have "b - (a + 1) = (b - a) - 1" by simp
  then have "unat (b - (a + 1)) = m"
    using m unat_sub_one [OF assms] by (simp only: n_def diff_Suc_1)
  moreover have "[0..<Suc m] = 0 # map Suc [0..<m]" by (simp add: upt_conv_Cons map_Suc_upt del: upt_Suc)
  ultimately show ?thesis
    using m by (simp add: ring_list_def n_def [symmetric] ac_simps del: upt_Suc)
qed

text \<open>Taking back the newest element.\<close>

lemma unput:
  assumes "a \<noteq> b"
  shows "ring_list N d a b = ring_list N d a (b - 1) @ [d ! (unat (b - 1) mod N)]"
proof -
  define n where "n = unat (b - a)"
  have n: "n \<noteq> 0" using assms by (simp add: n_def unat_eq_zero)
  then obtain m where m: "n = Suc m" by (cases n) auto
  have "b - 1 - a = (b - a) - 1" by simp
  then have u: "unat (b - 1 - a) = m"
    using m unat_sub_one [OF assms] by (simp only: n_def diff_Suc_1)
  have "of_nat (unat (b - 1 - a)) = b - 1 - a" by simp
  then have "of_nat m = b - 1 - a" by (simp only: u)
  then have "a + of_nat m = b - 1" by simp
  then show ?thesis
    using m u by (simp add: ring_list_def n_def [symmetric])
qed

text \<open>Two stretches that meet.\<close>

lemma append:
  assumes "unat (b - a) + unat (c - b) < 4294967296"
  shows "ring_list N d a c = ring_list N d a b @ ring_list N d b c"
proof -
  define m n where "m = unat (b - a)" and "n = unat (c - b)"
  have "c - a = (b - a) + (c - b)" by simp
  then have "unat (c - a) = m + n"
    using assms by (simp only: m_def n_def) (rule unat_add_lt, simp)
  moreover have "b = a + of_nat m" by (simp add: m_def)
  then have "b + of_nat k = a + of_nat (m + k)" for k by simp
  then have "unat (b + of_nat k) mod N = unat (a + of_nat (m + k)) mod N" for k by (simp only:)
  moreover have "[0..<m + n] = [0..<m] @ map (\<lambda>k. m + k) [0..<n]"
    by (rule nth_equalityI) (simp_all add: nth_append)
  ultimately show ?thesis
    by (simp add: ring_list_def m_def [symmetric] n_def [symmetric])
qed

end

end
