(* ===== verification/Pipe.thy ===== *)
theory Pipe
  imports Ring
begin

text \<open>
  Pipes (\<^verbatim>\<open>pipe.c\<close>): a ring of 512 bytes with free-running read and write counters. Each of
  \<^verbatim>\<open>pipewrite\<close>, \<^verbatim>\<open>piperead\<close> and \<^verbatim>\<open>pipeclose\<close> is given by the section it runs under \<^verbatim>\<open>p->lock\<close>
  between two sleeps. The second half runs any number of readers and writers against each
  other and shows that the pipe is a queue: no byte is lost, repeated or reordered, and readers
  and writers never wait for each other.
\<close>

section \<open>The routines\<close>

definition PIPESIZE :: nat where
  "PIPESIZE = 512"

record pipe =
  pdata :: "u8 list"
  nread :: u32
  nwrite :: u32
  readopen :: i32
  writeopen :: i32

definition pipe_full :: "pipe \<Rightarrow> bool" where
  "pipe_full p \<longleftrightarrow> nwrite p = nread p + of_nat PIPESIZE"

definition pipe_put :: "u8 \<Rightarrow> pipe \<Rightarrow> pipe" where
  "pipe_put b p = p\<lparr>pdata := (pdata p)[unat (nwrite p) mod PIPESIZE := b], nwrite := nwrite p + 1\<rparr>"

text \<open>The loop of \<^verbatim>\<open>pipewrite\<close> up to the point where the pipe is full; the bytes left over.\<close>

fun pipe_fill :: "u8 list \<Rightarrow> pipe \<Rightarrow> u8 list \<times> pipe" where
  "pipe_fill [] p = ([], p)"
| "pipe_fill (b # bs) p = (if pipe_full p then (b # bs, p) else pipe_fill bs (pipe_put b p))"

text \<open>One section of \<^verbatim>\<open>pipewrite\<close> of \<open>n\<close> bytes, of which \<open>bs\<close> are still to be written: it returns
  a value (\<open>Some\<close>), or wakes the readers and sleeps (\<open>None\<close>). \<open>kl\<close> is \<^verbatim>\<open>myproc()->killed\<close>.\<close>

definition pipewrite :: "bool \<Rightarrow> i32 \<Rightarrow> u8 list \<Rightarrow> pipe \<Rightarrow> i32 option \<times> u8 list \<times> pipe" where
  "pipewrite kl n bs p =
     (let (rest, p) = pipe_fill bs p in
      if rest = [] then (Some n, [], p)
      else if readopen p = 0 \<or> kl then (Some (- 1), rest, p)
      else (None, rest, p))"

fun pipe_drain :: "nat \<Rightarrow> pipe \<Rightarrow> u8 list \<times> pipe" where
  "pipe_drain 0 p = ([], p)"
| "pipe_drain (Suc n) p =
     (if nread p = nwrite p then ([], p)
      else let b = pdata p ! (unat (nread p) mod PIPESIZE); (bs, p) = pipe_drain n (p\<lparr>nread := nread p + 1\<rparr>)
        in (b # bs, p))"

text \<open>One section of \<^verbatim>\<open>piperead\<close> of at most \<open>n\<close> bytes.\<close>

definition piperead :: "bool \<Rightarrow> nat \<Rightarrow> pipe \<Rightarrow> i32 option \<times> u8 list \<times> pipe" where
  "piperead kl n p =
     (if nread p = nwrite p \<and> writeopen p \<noteq> 0 then (if kl then Some (- 1) else None, [], p)
      else let (bs, p) = pipe_drain n p in (Some (of_nat (length bs)), bs, p))"

text \<open>\<^verbatim>\<open>pipeclose\<close>: the pipe, and whether its page is freed.\<close>

definition pipe_close :: "bool \<Rightarrow> pipe \<Rightarrow> bool \<times> pipe" where
  "pipe_close wr p =
     (let p = (if wr then p\<lparr>writeopen := 0\<rparr> else p\<lparr>readopen := 0\<rparr>)
      in (readopen p = 0 \<and> writeopen p = 0, p))"

text \<open>The pipe that \<^verbatim>\<open>pipealloc\<close> sets up in a fresh page.\<close>

definition pipe_new :: "u8 list \<Rightarrow> pipe" where
  "pipe_new d = \<lparr>pdata = d, nread = 0, nwrite = 0, readopen = 1, writeopen = 1\<rparr>"

section \<open>The pipe as a queue\<close>

interpretation pr: ring PIPESIZE
  by unfold_locales (simp_all add: PIPESIZE_def)

definition contents :: "pipe \<Rightarrow> u8 list" where
  "contents p = ring_list PIPESIZE (pdata p) (nread p) (nwrite p)"

definition pipe_ok :: "pipe \<Rightarrow> bool" where
  "pipe_ok p \<longleftrightarrow> length (pdata p) = PIPESIZE \<and> unat (nwrite p - nread p) \<le> PIPESIZE"

lemma pipe_full_iff: "pipe_full p \<longleftrightarrow> length (contents p) = PIPESIZE"
proof -
  have "pipe_full p \<longleftrightarrow> nwrite p - nread p = 512"
    by (auto simp: pipe_full_def PIPESIZE_def algebra_simps)
  also have "\<dots> \<longleftrightarrow> unat (nwrite p - nread p) = 512"
    by (auto simp: word_unat_eq_iff)
  finally show ?thesis by (simp add: contents_def PIPESIZE_def)
qed

lemma pipe_empty_iff: "nread p = nwrite p \<longleftrightarrow> contents p = []"
  by (auto simp: contents_def unat_eq_zero simp flip: length_0_conv)

lemma pipe_put_contents:
  assumes "pipe_ok p" "\<not> pipe_full p"
  shows "contents (pipe_put b p) = contents p @ [b]" "pipe_ok (pipe_put b p)"
    "readopen (pipe_put b p) = readopen p" "writeopen (pipe_put b p) = writeopen p"
proof -
  have lt: "unat (nwrite p - nread p) < PIPESIZE"
    using assms pipe_full_iff [of p] by (simp add: pipe_ok_def contents_def)
  then show c: "contents (pipe_put b p) = contents p @ [b]"
    using assms(1) by (simp add: contents_def pipe_put_def pr.put pipe_ok_def)
  have "length (contents (pipe_put b p)) \<le> PIPESIZE"
    using lt unfolding c by (simp add: contents_def)
  then show "pipe_ok (pipe_put b p)"
    using assms(1) by (simp add: pipe_ok_def contents_def pipe_put_def)
qed (simp_all add: pipe_put_def)

lemma pipe_fill_contents:
  assumes "pipe_ok p" "pipe_fill bs p = (rest, q)"
  shows "\<exists>w. bs = w @ rest \<and> contents q = contents p @ w \<and> pipe_ok q \<and> readopen q = readopen p \<and>
    writeopen q = writeopen p \<and> (rest \<noteq> [] \<longrightarrow> pipe_full q)"
  using assms
proof (induction bs arbitrary: p)
  case (Cons b bs)
  show ?case
  proof (cases "pipe_full p")
    case False
    note put = pipe_put_contents [OF Cons.prems(1) False, of b]
    obtain w where "bs = w @ rest" "contents q = contents (pipe_put b p) @ w" "pipe_ok q" "readopen q = readopen p"
        "writeopen q = writeopen p" "rest \<noteq> [] \<longrightarrow> pipe_full q"
      using Cons.IH [OF put(2)] Cons.prems(2) False put(3,4) by auto
    then show ?thesis using put(1) by (intro exI [of _ "b # w"]) simp
  qed (use Cons.prems in auto)
qed auto

lemma pipe_drain_contents:
  assumes "pipe_ok p" "pipe_drain n p = (bs, q)"
  shows "contents p = bs @ contents q \<and> pipe_ok q \<and> readopen q = readopen p \<and> writeopen q = writeopen p \<and>
    length bs = min n (length (contents p))"
  using assms
proof (induction n arbitrary: p bs)
  case (Suc n)
  show ?case
  proof (cases "nread p = nwrite p")
    case True
    then show ?thesis using Suc.prems pipe_empty_iff [of p] by simp
  next
    case False
    define p' where "p' = p\<lparr>nread := nread p + 1\<rparr>"
    obtain cs where cs: "pipe_drain n p' = (cs, q)" "bs = pdata p ! (unat (nread p) mod PIPESIZE) # cs"
      using Suc.prems(2) False by (auto simp: p'_def Let_def split: prod.splits)
    have c: "contents p = pdata p ! (unat (nread p) mod PIPESIZE) # contents p'"
      using pr.get [OF False, of "pdata p"] by (simp add: contents_def p'_def)
    then have "length (contents p') < length (contents p)" by simp
    then have "pipe_ok p'" using Suc.prems(1) by (simp add: pipe_ok_def contents_def p'_def)
    note ih = Suc.IH [OF this cs(1)]
    have "readopen p' = readopen p" "writeopen p' = writeopen p" by (simp_all add: p'_def)
    then show ?thesis
      using ih c cs(2) by (elim conjE, intro conjI) (simp_all only: append_Cons list.size min_Suc_Suc)
  qed
qed simp

section \<open>Readers and writers\<close>

text \<open>
  Where a process stands: outside, about to run the next section of a call of \<^verbatim>\<open>pipewrite\<close> (with
  the bytes still to be written) or \<^verbatim>\<open>piperead\<close>, or asleep in one. \<open>sent\<close> and \<open>rcvd\<close> record the
  bytes put into and taken out of the pipe; \<open>gaveup\<close> says whether some writer was killed while it
  waited for readers.
\<close>

datatype pipe_pc = Outside | Writing i32 "u8 list" | WSleep i32 "u8 list" | Reading nat | RSleep nat

record psys =
  ppipe :: pipe
  ppc :: "nat \<Rightarrow> pipe_pc"
  sent :: "u8 list"
  rcvd :: "u8 list"
  gaveup :: bool

text \<open>\<^verbatim>\<open>wakeup(&p->nread)\<close> and \<^verbatim>\<open>wakeup(&p->nwrite)\<close>.\<close>

definition wake_readers :: "(nat \<Rightarrow> pipe_pc) \<Rightarrow> nat \<Rightarrow> pipe_pc" where
  "wake_readers f i = (case f i of RSleep n \<Rightarrow> Reading n | x \<Rightarrow> x)"

definition wake_writers :: "(nat \<Rightarrow> pipe_pc) \<Rightarrow> nat \<Rightarrow> pipe_pc" where
  "wake_writers f i = (case f i of WSleep n bs \<Rightarrow> Writing n bs | x \<Rightarrow> x)"

text \<open>
  The steps. Whether a process has been killed may change at any time, so each section sees an
  arbitrary \<open>kl\<close>; \<open>kill\<close> may also wake a sleeper. An end of the pipe is closed when the last
  descriptor for it goes, so no call on that end is in progress then.
\<close>

inductive pipe_step :: "psys \<Rightarrow> psys \<Rightarrow> bool" where
  call_write: "ppc s i = Outside \<Longrightarrow> writeopen (ppipe s) \<noteq> 0 \<Longrightarrow>
    pipe_step s (s\<lparr>ppc := (ppc s)(i := Writing (of_nat (length bs)) bs)\<rparr>)"
| write_return: "ppc s i = Writing n bs \<Longrightarrow> pipewrite kl n bs (ppipe s) = (Some n, [], p) \<Longrightarrow>
    pipe_step s \<lparr>ppipe = p, ppc = (wake_readers (ppc s))(i := Outside), sent = sent s @ bs, rcvd = rcvd s, gaveup = gaveup s\<rparr>"
| write_fail: "ppc s i = Writing n bs \<Longrightarrow> pipewrite kl n bs (ppipe s) = (Some (- 1), rest, p) \<Longrightarrow> rest \<noteq> [] \<Longrightarrow>
    pipe_step s \<lparr>ppipe = p, ppc = (ppc s)(i := Outside), sent = sent s @ take (length bs - length rest) bs, rcvd = rcvd s,
      gaveup = (gaveup s \<or> readopen p \<noteq> 0)\<rparr>"
| write_sleep: "ppc s i = Writing n bs \<Longrightarrow> pipewrite kl n bs (ppipe s) = (None, rest, p) \<Longrightarrow>
    pipe_step s \<lparr>ppipe = p, ppc = (wake_readers (ppc s))(i := WSleep n rest),
      sent = sent s @ take (length bs - length rest) bs, rcvd = rcvd s, gaveup = gaveup s\<rparr>"
| call_read: "ppc s i = Outside \<Longrightarrow> readopen (ppipe s) \<noteq> 0 \<Longrightarrow>
    pipe_step s (s\<lparr>ppc := (ppc s)(i := Reading n)\<rparr>)"
| read_return: "ppc s i = Reading n \<Longrightarrow> piperead kl n (ppipe s) = (Some r, bs, p) \<Longrightarrow>
    pipe_step s \<lparr>ppipe = p, ppc = (if r = - 1 then ppc s else wake_writers (ppc s))(i := Outside), sent = sent s, rcvd = rcvd s @ bs, gaveup = gaveup s\<rparr>"
| read_sleep: "ppc s i = Reading n \<Longrightarrow> piperead kl n (ppipe s) = (None, bs, p) \<Longrightarrow>
    pipe_step s (s\<lparr>ppc := (ppc s)(i := RSleep n)\<rparr>)"
| close_write: "(\<And>i n bs. ppc s i \<noteq> Writing n bs \<and> ppc s i \<noteq> WSleep n bs) \<Longrightarrow> pipe_close True (ppipe s) = (f, p) \<Longrightarrow>
    pipe_step s (s\<lparr>ppipe := p, ppc := wake_readers (ppc s)\<rparr>)"
| close_read: "(\<And>i n. ppc s i \<noteq> Reading n \<and> ppc s i \<noteq> RSleep n) \<Longrightarrow> pipe_close False (ppipe s) = (f, p) \<Longrightarrow>
    pipe_step s (s\<lparr>ppipe := p, ppc := wake_writers (ppc s)\<rparr>)"
| kill_writer: "ppc s i = WSleep n bs \<Longrightarrow> pipe_step s (s\<lparr>ppc := (ppc s)(i := Writing n bs)\<rparr>)"
| kill_reader: "ppc s i = RSleep n \<Longrightarrow> pipe_step s (s\<lparr>ppc := (ppc s)(i := Reading n)\<rparr>)"

inductive pipe_run :: "psys \<Rightarrow> bool" where
  alloc: "length d = PIPESIZE \<Longrightarrow> pipe_run \<lparr>ppipe = pipe_new d, ppc = \<lambda>_. Outside, sent = [], rcvd = [], gaveup = False\<rparr>"
| step: "pipe_run s \<Longrightarrow> pipe_step s t \<Longrightarrow> pipe_run t"

fun pc_ok :: "pipe \<Rightarrow> bool \<Rightarrow> pipe_pc \<Rightarrow> bool" where
  "pc_ok p g (RSleep n) \<longleftrightarrow> readopen p \<noteq> 0 \<and> writeopen p \<noteq> 0 \<and> (contents p = [] \<or> g)"
| "pc_ok p g (Reading n) \<longleftrightarrow> readopen p \<noteq> 0"
| "pc_ok p g (WSleep n bs) \<longleftrightarrow> readopen p \<noteq> 0 \<and> pipe_full p"
| "pc_ok p g x \<longleftrightarrow> True"

definition one_side :: "(nat \<Rightarrow> pipe_pc) \<Rightarrow> bool" where
  "one_side f \<longleftrightarrow> (\<forall>i n. f i \<noteq> RSleep n) \<or> (\<forall>i n bs. f i \<noteq> WSleep n bs)"

definition pipe_inv :: "psys \<Rightarrow> bool" where
  "pipe_inv s \<longleftrightarrow> pipe_ok (ppipe s) \<and> sent s = rcvd s @ contents (ppipe s) \<and>
     (\<forall>i. pc_ok (ppipe s) (gaveup s) (ppc s i)) \<and> one_side (ppc s)"

lemma wake_simps [simp]:
  "wake_readers f i \<noteq> RSleep n" "wake_writers f i \<noteq> WSleep m bs"
  by (auto simp: wake_readers_def wake_writers_def split: pipe_pc.split)

lemma one_side_wake [simp]: "one_side (wake_readers f)" "one_side (wake_writers f)"
  "one_side ((wake_readers f)(i := WSleep n bs))" "one_side ((wake_readers f)(i := Outside))" "one_side ((wake_writers f)(i := Outside))"
  by (simp_all add: one_side_def)

lemma one_side_upd: "one_side f \<Longrightarrow> (\<And>n. x \<noteq> RSleep n) \<Longrightarrow> (\<And>n bs. x \<noteq> WSleep n bs) \<Longrightarrow> one_side (f(i := x))"
  by (auto simp: one_side_def)

text \<open>What a section may do to the pipe without breaking the other processes' conditions.\<close>

lemma pc_ok_write:
  assumes "pc_ok p g x" "readopen q = readopen p" "writeopen q = writeopen p" "pipe_full p \<longrightarrow> contents q = contents p"
  shows "g' \<longrightarrow> g \<Longrightarrow> pc_ok q g (case x of RSleep n \<Rightarrow> Reading n | y \<Rightarrow> y)" "contents q = [] \<or> g' \<Longrightarrow> g \<longrightarrow> g' \<Longrightarrow> pc_ok q g' x"
  using assms by (cases x; auto simp: pipe_full_iff)+

lemma pc_ok_read:
  assumes "pc_ok p g x" "readopen q = readopen p" "writeopen q = writeopen p" "contents p = [] \<longrightarrow> contents q = []"
  shows "pc_ok q g (case x of WSleep n bs \<Rightarrow> Writing n bs | y \<Rightarrow> y)"
  using assms by (cases x) auto

lemma write_section:
  assumes "pipe_inv s" "pipewrite kl n bs (ppipe s) = (r, rest, p)"
  shows "pipe_ok p \<and> sent s @ take (length bs - length rest) bs = rcvd s @ contents p \<and>
    readopen p = readopen (ppipe s) \<and> writeopen p = writeopen (ppipe s) \<and> (rest \<noteq> [] \<longrightarrow> pipe_full p) \<and>
    (r = None \<longrightarrow> rest \<noteq> [] \<and> readopen p \<noteq> 0) \<and> (rest \<noteq> [] \<longrightarrow> contents p \<noteq> []) \<and> (pipe_full (ppipe s) \<longrightarrow> contents p = contents (ppipe s)) \<and>
    (contents p = [] \<longrightarrow> contents (ppipe s) = [])"
proof -
  have inv: "pipe_ok (ppipe s)" "sent s = rcvd s @ contents (ppipe s)"
    using assms(1) by (simp_all add: pipe_inv_def)
  obtain q where q: "pipe_fill bs (ppipe s) = (rest, q)" "p = q" "r = None \<longrightarrow> rest \<noteq> [] \<and> readopen q \<noteq> 0"
    using assms(2) by (auto simp: pipewrite_def split: prod.splits if_splits)
  obtain w where w: "bs = w @ rest" "contents q = contents (ppipe s) @ w" "pipe_ok q" "readopen q = readopen (ppipe s)"
      "writeopen q = writeopen (ppipe s)" "rest \<noteq> [] \<longrightarrow> pipe_full q"
    using pipe_fill_contents [OF inv(1) q(1)] by blast
  moreover have "contents q = contents (ppipe s)" if "pipe_full (ppipe s)"
  proof -
    have "length (contents q) \<le> length (contents (ppipe s))"
      using w(3) that by (simp add: pipe_full_iff) (simp add: pipe_ok_def contents_def)
    then show ?thesis using w(2) by simp
  qed
  moreover have "contents q \<noteq> []" if "rest \<noteq> []"
    using w(6) that by (auto simp: pipe_full_iff PIPESIZE_def)
  ultimately show ?thesis using inv q by auto
qed

lemma read_section:
  assumes "pipe_inv s" "piperead kl n (ppipe s) = (Some r, bs, p)"
  shows "pipe_ok p \<and> contents (ppipe s) = bs @ contents p \<and> readopen p = readopen (ppipe s) \<and>
    writeopen p = writeopen (ppipe s) \<and> (r = - 1 \<longrightarrow> p = ppipe s \<and> bs = [])"
proof -
  have ok: "pipe_ok (ppipe s)" using assms(1) by (simp add: pipe_inv_def)
  show ?thesis
  proof (cases "nread (ppipe s) = nwrite (ppipe s) \<and> writeopen (ppipe s) \<noteq> 0")
    case True
    then show ?thesis using assms(2) ok by (auto simp: piperead_def split: if_splits)
  next
    case False
    then have d: "pipe_drain n (ppipe s) = (bs, p)" "r = of_nat (length bs)"
      using assms(2) by (auto simp: piperead_def split: prod.splits if_splits)
    note c = pipe_drain_contents [OF ok d(1)]
    have "length bs \<le> 512"
      using c ok by (auto simp: pipe_ok_def contents_def PIPESIZE_def)
    then have "unat r = length bs" by (simp add: d(2) unat_of_nat)
    then have "r \<noteq> - 1" using \<open>length bs \<le> 512\<close> by auto
    then show ?thesis using c by simp
  qed
qed

lemma pipe_inv_step:
  assumes "pipe_step s t" "pipe_inv s"
  shows "pipe_inv t"
proof -
  have inv: "pipe_ok (ppipe s)" "sent s = rcvd s @ contents (ppipe s)" "pc_ok (ppipe s) (gaveup s) (ppc s j)" "one_side (ppc s)" for j
    using assms(2) by (simp_all add: pipe_inv_def)
  from assms(1) show ?thesis
  proof cases
    case (write_return i n bs kl p)
    note sec = write_section [OF assms(2) write_return(3)]
    have "pc_ok p (gaveup s) (wake_readers (ppc s) j)" for j
      unfolding wake_readers_def by (rule pc_ok_write(1) [OF inv(3)]) (use sec in auto)
    then show ?thesis using sec by (simp add: write_return(1) pipe_inv_def)
  next
    case (write_fail i n bs kl rest p)
    note sec = write_section [OF assms(2) write_fail(3)]
    have "pc_ok p (gaveup s \<or> readopen p \<noteq> 0) (ppc s j)" for j
      using inv(3) [of j] sec by (cases "ppc s j") (auto simp: pipe_full_iff)
    then show ?thesis using sec inv(4) by (simp add: write_fail(1) pipe_inv_def one_side_upd)
  next
    case (write_sleep i n bs kl rest p)
    note sec = write_section [OF assms(2) write_sleep(3)]
    have "pc_ok p (gaveup s) (wake_readers (ppc s) j)" for j
      unfolding wake_readers_def by (rule pc_ok_write(1) [OF inv(3)]) (use sec in auto)
    then show ?thesis using sec by (auto simp: write_sleep(1) pipe_inv_def)
  next
    case (read_return i n kl r bs p)
    note sec = read_section [OF assms(2) read_return(3)]
    have "pc_ok p (gaveup s) (wake_writers (ppc s) j)" for j
      unfolding wake_writers_def by (rule pc_ok_read [OF inv(3)]) (use sec in auto)
    then show ?thesis using sec inv by (simp add: read_return(1) pipe_inv_def one_side_upd)
  next
    case (read_sleep i n kl bs p)
    then have c: "contents (ppipe s) = []" "writeopen (ppipe s) \<noteq> 0"
      by (auto simp: piperead_def pipe_empty_iff split: if_splits prod.splits)
    have "ppc s j \<noteq> WSleep m cs" for j m cs
      using inv(3) [of j] c(1) by (auto simp: pipe_full_iff PIPESIZE_def)
    then show ?thesis using inv c inv(3) [of i] by (simp add: read_sleep pipe_inv_def one_side_def)
  next
    case (close_write f p)
    then have p: "pipe_ok p" "contents p = contents (ppipe s)" "readopen p = readopen (ppipe s)" "pipe_full p = pipe_full (ppipe s)"
      using inv(1) by (auto simp: pipe_close_def pipe_ok_def contents_def pipe_full_def Let_def)
    have "pc_ok p (gaveup s) (wake_readers (ppc s) j)" for j
      using inv(3) [of j] p close_write(2) by (cases "ppc s j") (auto simp: wake_readers_def)
    then show ?thesis using p inv(2) by (simp add: close_write(1) pipe_inv_def)
  next
    case (close_read f p)
    then have p: "pipe_ok p" "contents p = contents (ppipe s)"
      using inv(1) by (auto simp: pipe_close_def pipe_ok_def contents_def Let_def)
    have "pc_ok p (gaveup s) (wake_writers (ppc s) j)" for j
      using inv(3) [of j] close_read(2) [of j] by (cases "ppc s j") (auto simp: wake_writers_def)
    then show ?thesis using p inv(2) by (simp add: close_read(1) pipe_inv_def)
  next
    case (call_read i n)
    then show ?thesis using inv by (simp add: pipe_inv_def one_side_upd)
  next
    case (call_write i bs)
    then show ?thesis using inv by (simp add: pipe_inv_def one_side_upd)
  next
    case (kill_writer i n bs)
    then show ?thesis using inv by (simp add: pipe_inv_def one_side_upd)
  next
    case (kill_reader i n)
    then show ?thesis using inv inv(3) [of i] by (simp add: pipe_inv_def one_side_upd)
  qed
qed

lemma pipe_run_inv: "pipe_run s \<Longrightarrow> pipe_inv s"
proof (induction rule: pipe_run.induct)
  case (alloc d)
  then show ?case by (simp add: pipe_inv_def pipe_new_def pipe_ok_def contents_def one_side_def)
qed (rule pipe_inv_step)

text \<open>C9: a pipe is a queue of at most 512 bytes, however its readers and writers interleave and
  however far its counters have wrapped around: the bytes written are the bytes read followed by
  the bytes in the pipe. A writer sleeps only while the pipe is full and has a reader; a reader
  sleeps only while the pipe has a writer and is empty, unless a waiting writer was killed; and a
  reader and a writer are never asleep at the same time.\<close>

theorem pipe_fifo:
  assumes "pipe_run s"
  shows "sent s = rcvd s @ contents (ppipe s) \<and> length (contents (ppipe s)) \<le> PIPESIZE \<and>
    (\<forall>i n bs. ppc s i = WSleep n bs \<longrightarrow> pipe_full (ppipe s) \<and> readopen (ppipe s) \<noteq> 0) \<and>
    (\<forall>i n. ppc s i = RSleep n \<longrightarrow> writeopen (ppipe s) \<noteq> 0 \<and> (contents (ppipe s) = [] \<or> gaveup s)) \<and>
    \<not> ((\<exists>i n. ppc s i = RSleep n) \<and> (\<exists>j m bs. ppc s j = WSleep m bs))"
proof -
  have inv: "pipe_ok (ppipe s)" "sent s = rcvd s @ contents (ppipe s)" "pc_ok (ppipe s) (gaveup s) (ppc s i)" "one_side (ppc s)" for i
    using pipe_run_inv [OF assms] by (simp_all add: pipe_inv_def)
  have "ppc s i = WSleep n bs \<longrightarrow> pipe_full (ppipe s) \<and> readopen (ppipe s) \<noteq> 0" for i n bs
    using inv(3) [of i] by auto
  moreover have "ppc s i = RSleep n \<longrightarrow> writeopen (ppipe s) \<noteq> 0 \<and> (contents (ppipe s) = [] \<or> gaveup s)" for i n
    using inv(3) [of i] by auto
  ultimately show ?thesis
    using inv(1,2,4) by (auto simp: pipe_ok_def contents_def one_side_def)
qed

definition demo_pipe :: psys where
  "demo_pipe = \<lparr>ppipe = pipe_new (replicate 512 0), ppc = \<lambda>_. Outside, sent = [], rcvd = [], gaveup = False\<rparr>"

lemma demo_pipe_run: "pipe_run demo_pipe"
  unfolding demo_pipe_def by (rule pipe_run.alloc) (simp add: PIPESIZE_def)

text \<open>A reader that went to sleep on the empty pipe.\<close>

lemma demo_reader_asleep: "pipe_run (demo_pipe\<lparr>ppc := (\<lambda>_. Outside)(0 := RSleep 4)\<rparr>)"
proof -
  have "pipe_step demo_pipe (demo_pipe\<lparr>ppc := (\<lambda>_. Outside)(0 := Reading 4)\<rparr>)"
    using pipe_step.call_read [of demo_pipe 0 4] by (simp add: demo_pipe_def pipe_new_def)
  moreover have "pipe_step (demo_pipe\<lparr>ppc := (\<lambda>_. Outside)(0 := Reading 4)\<rparr>) (demo_pipe\<lparr>ppc := (\<lambda>_. Outside)(0 := RSleep 4)\<rparr>)"
    using pipe_step.read_sleep [of "demo_pipe\<lparr>ppc := (\<lambda>_. Outside)(0 := Reading 4)\<rparr>" 0 4 False "[]" "ppipe demo_pipe"]
    by (simp add: demo_pipe_def pipe_new_def piperead_def)
  ultimately show ?thesis using demo_pipe_run by (blast intro: pipe_run.step)
qed

theorem pipe_fifo_witness:
  "\<exists>s. pipe_run s \<and> ppc s 0 = RSleep 4 \<and> contents (ppipe s) = [] \<and> sent s = rcvd s \<and>
    \<not> (\<exists>j m bs. ppc s j = WSleep m bs)"
  using pipe_fifo [OF demo_reader_asleep] demo_reader_asleep
  by (intro exI [of _ "demo_pipe\<lparr>ppc := (\<lambda>_. Outside)(0 := RSleep 4)\<rparr>"]) (auto simp: demo_pipe_def)


end
