(* ===== verification/Console.thy ===== *)
theory Console
  imports Ring
begin

text \<open>
  The console (\<^verbatim>\<open>console.c\<close>): the screen, with its cursor and scrolling, the serial line, and the
  input buffer with line editing. Input bytes are edited between the counters \<^verbatim>\<open>w\<close> and \<^verbatim>\<open>e\<close>,
  committed by moving \<^verbatim>\<open>w\<close>, and read from \<^verbatim>\<open>r\<close> on. The buffer is shown to implement a pair of
  lists, the committed input and the line being edited.
\<close>

section \<open>Output\<close>

text \<open>\<open>cursor\<close> is the pair of cursor registers of the CRT controller, \<open>crt\<close> its text memory;
  \<open>serial\<close> is what has been sent on the serial line, when there is one.\<close>

record console =
  cbuf :: "u8 list"
  cr :: u32
  cw :: u32
  ce :: u32
  panicked :: i32
  uart :: i32
  serial :: "u8 list"
  cursor :: u16
  crt :: "nat \<Rightarrow> u16"

definition BACKSPACE :: i32 where
  "BACKSPACE = 0x100"

definition INPUT_BUF :: nat where
  "INPUT_BUF = 128"

definition scroll :: "nat \<Rightarrow> (nat \<Rightarrow> u16) \<Rightarrow> nat \<Rightarrow> u16" where
  "scroll pos t i = (if pos \<le> i \<and> i < 24 * 80 then 0 else if i < 23 * 80 then t (i + 80) else t i)"

definition cgaputc :: "i32 \<Rightarrow> 'a console_scheme \<Rightarrow> (unit, 'a console_scheme) outcome" where
  "cgaputc c s =
     (let pos = unat (cursor s);
          (pos, t) = (if c = 10 then (pos + (80 - pos mod 80), crt s)
            else if c = BACKSPACE then (if 0 < pos then pos - 1 else pos, crt s)
            else (pos + 1, (crt s)(pos := (ucast c AND 0xff) OR 0x0700)))
      in if 25 * 80 < pos then Panic ''pos under/overflow''
         else
           let (pos, t) = (if 24 \<le> pos div 80 then (pos - 80, scroll (pos - 80) t) else (pos, t))
           in Ok () (s\<lparr>cursor := of_nat pos, crt := t(pos := 0x0720)\<rparr>))"

text \<open>\<^verbatim>\<open>uartputc\<close> of \<^verbatim>\<open>uart.c\<close>; it waits a bounded time for the line and sends in any case.\<close>

definition uartputc :: "i32 \<Rightarrow> 'a console_scheme \<Rightarrow> 'a console_scheme" where
  "uartputc c s = (if uart s = 0 then s else s\<lparr>serial := serial s @ [ucast c]\<rparr>)"

definition consputc :: "i32 \<Rightarrow> 'a console_scheme \<Rightarrow> (unit, 'a console_scheme) outcome" where
  "consputc c s =
     (if panicked s \<noteq> 0 then Diverge
      else let s = (if c = BACKSPACE then uartputc 8 (uartputc 32 (uartputc 8 s)) else uartputc c s)
        in cgaputc c s)"

section \<open>Input\<close>

definition ctl :: "char \<Rightarrow> i32" where
  "ctl x = of_char x - 64"

definition in_slot :: "u32 \<Rightarrow> nat" where
  "in_slot c = unat c mod INPUT_BUF"

text \<open>The loop of \<^verbatim>\<open>C('U')\<close>; it goes back at most to \<^verbatim>\<open>w\<close>, that is \<open>n\<close> steps.\<close>

primrec kill_line :: "nat \<Rightarrow> 'a console_scheme \<Rightarrow> (unit, 'a console_scheme) outcome" where
  "kill_line 0 s = Ok () s"
| "kill_line (Suc n) s =
     (if ce s \<noteq> cw s \<and> cbuf s ! in_slot (ce s - 1) \<noteq> 10
      then bindO (consputc BACKSPACE (s\<lparr>ce := ce s - 1\<rparr>)) (\<lambda>_ s. kill_line n s)
      else Ok () s)"

text \<open>One character of \<^verbatim>\<open>consoleintr\<close>: whether to list the processes, and whether readers
  are woken.\<close>

definition console_key :: "i32 \<Rightarrow> 'a console_scheme \<Rightarrow> (bool \<times> bool, 'a console_scheme) outcome" where
  "console_key c s =
     (if c = ctl (CHR ''P'') then Ok (True, False) s
      else if c = ctl (CHR ''U'') then bindO (kill_line (unat (ce s - cw s)) s) (\<lambda>_ s. Ok (False, False) s)
      else if c = ctl (CHR ''H'') \<or> c = 0x7f then
        (if ce s \<noteq> cw s then bindO (consputc BACKSPACE (s\<lparr>ce := ce s - 1\<rparr>)) (\<lambda>_ s. Ok (False, False) s)
         else Ok (False, False) s)
      else if c \<noteq> 0 \<and> ce s - cr s < of_nat INPUT_BUF then
        let c = (if c = 13 then 10 else c);
            s = s\<lparr>cbuf := (cbuf s)[in_slot (ce s) := ucast c], ce := ce s + 1\<rparr>
        in bindO (consputc c s) (\<lambda>_ s.
          if c = 10 \<or> c = ctl (CHR ''D'') \<or> ce s = cr s + of_nat INPUT_BUF
          then Ok (False, True) (s\<lparr>cw := ce s\<rparr>) else Ok (False, False) s)
      else Ok (False, False) s)"

text \<open>\<^verbatim>\<open>consoleintr\<close> on the characters that \<^verbatim>\<open>getc\<close> delivers before it returns a negative
  number.\<close>

primrec consoleintr :: "i32 list \<Rightarrow> 'a console_scheme \<Rightarrow> (bool \<times> bool, 'a console_scheme) outcome" where
  "consoleintr [] s = Ok (False, False) s"
| "consoleintr (c # cs) s = bindO (console_key c s) (\<lambda>(d, w) s.
     bindO (consoleintr cs s) (\<lambda>(d', w') s. Ok (d \<or> d', w \<or> w') s))"

text \<open>The loop of \<^verbatim>\<open>consoleread\<close> with \<open>n\<close> bytes to go: the bytes copied, and whether the process
  was found killed. \<open>got\<close> says whether something has been copied already. A reader of an empty
  buffer that has not been killed sleeps.\<close>

primrec consread :: "bool \<Rightarrow> nat \<Rightarrow> bool \<Rightarrow> 'a console_scheme \<Rightarrow> (u8 list \<times> bool, 'a console_scheme) outcome" where
  "consread kl 0 got s = Ok ([], False) s"
| "consread kl (Suc n) got s =
     (if cr s = cw s then (if kl then Ok ([], True) s else Diverge)
      else
        let c = cbuf s ! in_slot (cr s) in
        if c = ucast (ctl (CHR ''D'')) then Ok ([], False) (if got then s else s\<lparr>cr := cr s + 1\<rparr>)
        else if c = 10 then Ok ([c], False) (s\<lparr>cr := cr s + 1\<rparr>)
        else bindO (consread kl n True (s\<lparr>cr := cr s + 1\<rparr>)) (\<lambda>(cs, k) s. Ok (c # cs, k) s))"

section \<open>The screen\<close>

text \<open>The fields that output leaves alone.\<close>

definition input_part :: "'a console_scheme \<Rightarrow> u8 list \<times> u32 \<times> u32 \<times> u32 \<times> i32 \<times> i32 \<times> 'a" where
  "input_part s = (cbuf s, cr s, cw s, ce s, panicked s, uart s, console.more s)"

text \<open>The cells from row 24 on are never written.\<close>

lemma cgaputc_ok:
  assumes "unat (cursor s) < 1920"
  shows "\<exists>t. cgaputc c s = Ok () t \<and> unat (cursor t) < 1920 \<and> (\<forall>i\<ge>1920. crt t i = crt s i) \<and> input_part t = input_part s \<and>
    serial t = serial s"
proof -
  define p where "p = unat (cursor s)"
  define q where "q = (if c = 10 then p + (80 - p mod 80) else if c = BACKSPACE then (if 0 < p then p - 1 else p) else p + 1)"
  define f where "f = (if c = 10 \<or> c = BACKSPACE then crt s else (crt s)(p := (ucast c AND 0xff) OR 0x0700))"
  have p: "p < 1920" using assms by (simp add: p_def)
  have "p + (80 - p mod 80) = 80 * (p div 80 + 1)"
  proof -
    have "p + (80 - m) = 80 * (d + 1)" if "80 * d + m = p" "m < 80" for d m using that by arith
    then show ?thesis by simp
  qed
  moreover have "p div 80 < 24" using p by (simp add: less_mult_imp_div_less)
  ultimately have q: "q \<le> 1920" using p by (auto simp: q_def)
  define r where "r = (if 24 \<le> q div 80 then q - 80 else q)"
  define g where "g = (if 24 \<le> q div 80 then scroll (q - 80) f else f)"
  have r: "r < 1920"
  proof (cases "24 \<le> q div 80")
    case False
    then have "q < 1920" using div_less_iff_less_mult [of 80 q 24] by simp
    then show ?thesis using False by (simp add: r_def)
  qed (use q in \<open>simp add: r_def\<close>)
  have "cgaputc c s = Ok () (s\<lparr>cursor := of_nat r, crt := g(r := 0x0720)\<rparr>)"
  proof -
    have e: "(if c = 10 then (p + (80 - p mod 80), crt s) else if c = BACKSPACE then (if 0 < p then p - 1 else p, crt s)
        else (p + 1, (crt s)(p := (ucast c AND 0xff) OR 0x0700))) = (q, f)"
      by (simp only: q_def f_def) (auto simp: BACKSPACE_def)
    have e': "(if 24 \<le> q div 80 then (q - 80, scroll (q - 80) f) else (q, f)) = (r, g)"
      by (simp only: r_def g_def) simp
    have nq: "\<not> 25 * 80 < q" using q by simp
    show ?thesis
      unfolding cgaputc_def Let_def p_def [symmetric] e prod.case if_not_P [OF nq] e' ..
  qed
  moreover have "unat (of_nat r :: u16) = r" using r by (simp add: unat_of_nat)
  moreover have "(g(r := 0x0720)) i = crt s i" if "1920 \<le> i" for i
    using that r p by (auto simp: g_def scroll_def f_def)
  ultimately show ?thesis using r by (simp add: input_part_def)
qed

lemma consputc_ok:
  assumes "unat (cursor s) < 1920" "panicked s = 0"
  shows "\<exists>t. consputc c s = Ok () t \<and> unat (cursor t) < 1920 \<and>
    input_part t = input_part s"
proof -
  define u where "u = (if c = BACKSPACE then uartputc 8 (uartputc 32 (uartputc 8 s)) else uartputc c s)"
  have u: "cursor u = cursor s" "input_part u = input_part s"
    by (simp_all add: u_def uartputc_def input_part_def)
  with assms(1) obtain t where "cgaputc c u = Ok () t" "unat (cursor t) < 1920" "input_part t = input_part u"
    using cgaputc_ok [of u c] by auto
  then show ?thesis using assms(2) u(2) by (simp add: consputc_def u_def [symmetric])
qed

section \<open>Line editing\<close>

interpretation ir: ring INPUT_BUF
  by unfold_locales (simp_all add: INPUT_BUF_def)

definition committed :: "'a console_scheme \<Rightarrow> u8 list" where
  "committed s = ring_list INPUT_BUF (cbuf s) (cr s) (cw s)"

definition editing :: "'a console_scheme \<Rightarrow> u8 list" where
  "editing s = ring_list INPUT_BUF (cbuf s) (cw s) (ce s)"

definition console_inv :: "'a console_scheme \<Rightarrow> bool" where
  "console_inv s \<longleftrightarrow> length (cbuf s) = INPUT_BUF \<and> length (committed s) + length (editing s) \<le> INPUT_BUF \<and>
     10 \<notin> set (editing s) \<and> panicked s = 0 \<and> unat (cursor s) < 1920"

text \<open>What a key does to the committed input and the line.\<close>

definition tty_key :: "i32 \<Rightarrow> u8 list \<times> u8 list \<Rightarrow> u8 list \<times> u8 list" where
  "tty_key c = (\<lambda>(com, line).
     if c = ctl (CHR ''P'') then (com, line)
     else if c = ctl (CHR ''U'') then (com, [])
     else if c = ctl (CHR ''H'') \<or> c = 0x7f then (com, butlast line)
     else if c = 0 \<or> INPUT_BUF \<le> length com + length line then (com, line)
     else
       let b = (if c = 13 then 10 else ucast c); line = line @ [b]
       in if b = 10 \<or> b = 4 \<or> length com + length line = INPUT_BUF then (com @ line, []) else (com, line))"

lemma console_inv_cong:
  assumes "input_part t = input_part s" "unat (cursor t) < 1920" "console_inv s"
  shows "console_inv t" "committed t = committed s" "editing t = editing s"
  using assms by (simp_all add: console_inv_def input_part_def committed_def editing_def)

lemma editing_back:
  assumes "console_inv s" "ce s \<noteq> cw s"
  defines "t \<equiv> s\<lparr>ce := ce s - 1\<rparr>"
  shows "console_inv t" "committed t = committed s" "editing s = editing t @ [cbuf s ! in_slot (ce s - 1)]"
proof -
  show e: "editing s = editing t @ [cbuf s ! in_slot (ce s - 1)]"
    using ir.unput [of "cw s" "ce s" "cbuf s"] assms(2) by (simp add: editing_def t_def in_slot_def)
  show c: "committed t = committed s" by (simp add: committed_def t_def)
  have "length (editing t) < length (editing s)" "set (editing t) \<subseteq> set (editing s)" by (auto simp: e)
  then show "console_inv t" using assms(1) c by (auto simp: console_inv_def t_def)
qed

lemma kill_line_spec:
  assumes "console_inv s" "n = length (editing s)"
  shows "\<exists>t. kill_line n s = Ok () t \<and> console_inv t \<and> committed t = committed s \<and> editing t = [] \<and> cr t = cr s"
  using assms
proof (induction n arbitrary: s)
  case (Suc n)
  have ne: "ce s \<noteq> cw s" using Suc.prems(2) by (auto simp: editing_def)
  define u where "u = s\<lparr>ce := ce s - 1\<rparr>"
  note bk = editing_back [OF Suc.prems(1) ne, folded u_def]
  have nl: "cbuf s ! in_slot (ce s - 1) \<noteq> 10"
    using Suc.prems(1) bk(3) by (auto simp: console_inv_def)
  obtain v where v: "consputc BACKSPACE u = Ok () v" "unat (cursor v) < 1920" "input_part v = input_part u"
    using consputc_ok [of u BACKSPACE] bk(1) by (auto simp: console_inv_def)
  note cong = console_inv_cong [OF v(3,2) bk(1)]
  have "n = length (editing v)" using Suc.prems(2) by (simp add: cong bk(3))
  with Suc.IH [OF cong(1)] obtain t where "kill_line n v = Ok () t" "console_inv t" "committed t = committed v" "editing t = []"
      "cr t = cr v"
    by blast
  moreover have "cr v = cr s" using v(3) by (simp add: input_part_def u_def)
  ultimately show ?case using ne nl v(1) cong(2) bk(2) by (simp add: u_def)
qed simp

lemma consputc_inv:
  assumes "console_inv s"
  obtains t where "consputc c s = Ok () t" "console_inv t" "committed t = committed s" "editing t = editing s"
    "cr t = cr s" "cw t = cw s" "ce t = ce s"
proof -
  obtain t where t: "consputc c s = Ok () t" "unat (cursor t) < 1920" "input_part t = input_part s"
    using consputc_ok [of s c] assms by (auto simp: console_inv_def)
  then show thesis using that console_inv_cong [OF t(3,2) assms] by (auto simp: input_part_def)
qed

lemma pending:
  assumes "length (committed s) + length (editing s) \<le> INPUT_BUF"
  shows "unat (ce s - cr s) = length (committed s) + length (editing s)"
proof -
  have "ring_list INPUT_BUF (cbuf s) (cr s) (ce s) = committed s @ editing s"
    unfolding committed_def editing_def by (rule ir.append) (use assms in \<open>simp add: committed_def editing_def INPUT_BUF_def\<close>)
  from arg_cong [OF this, of length] show ?thesis by simp
qed

text \<open>Putting a byte behind the line, and committing the line.\<close>

lemma editing_put:
  fixes b :: u8
  assumes "console_inv s" "length (committed s) + length (editing s) < INPUT_BUF"
  defines "t \<equiv> s\<lparr>cbuf := (cbuf s)[in_slot (ce s) := b], ce := ce s + 1\<rparr>"
  shows "committed t = committed s" "editing t = editing s @ [b]" "length (cbuf t) = INPUT_BUF"
proof -
  have len: "length (cbuf s) = INPUT_BUF" using assms(1) by (simp add: console_inv_def)
  have sum: "unat (cw s - cr s) + unat (ce s - cw s) < INPUT_BUF"
    using assms(2) by (simp add: committed_def editing_def)
  have all: "ring_list INPUT_BUF (cbuf s) (cr s) (ce s) = committed s @ editing s"
    unfolding committed_def editing_def by (rule ir.append) (use sum in \<open>simp add: INPUT_BUF_def\<close>)
  then have "length (ring_list INPUT_BUF (cbuf s) (cr s) (ce s)) < INPUT_BUF"
    using assms(2) by simp
  then have lt: "unat (ce s - cr s) < INPUT_BUF" by simp
  show "editing t = editing s @ [b]"
    using ir.put [of "ce s" "cw s" "cbuf s" b] sum len by (simp add: editing_def t_def in_slot_def)
  show "length (cbuf t) = INPUT_BUF" using len by (simp add: t_def)
  have "length (editing t) = Suc (length (editing s))" using \<open>editing t = editing s @ [b]\<close> by simp
  then have up: "unat (ce s + 1 - cw s) = Suc (unat (ce s - cw s))" by (simp add: editing_def t_def)
  have "ring_list INPUT_BUF (cbuf t) (cr s) (ce s + 1) = ring_list INPUT_BUF (cbuf s) (cr s) (ce s) @ [b]"
    using ir.put [of "ce s" "cr s" "cbuf s" b] lt len by (simp add: t_def in_slot_def)
  moreover have "ring_list INPUT_BUF (cbuf t) (cr s) (ce s + 1) = committed t @ editing t"
    using ir.append [of "cw s" "cr s" "ce s + 1" "cbuf t"] sum up
    by (simp add: committed_def editing_def t_def INPUT_BUF_def)
  ultimately show "committed t = committed s"
    using all \<open>editing t = editing s @ [b]\<close> by simp
qed

lemma ucast_small: "c < 256 \<Longrightarrow> (ucast (c :: i32) :: u8) = ucast d \<longleftrightarrow> c = d" if "d < 256" for d :: i32
proof -
  assume c: "c < 256"
  have "unat (ucast x :: u8) = unat x" if "x < 256" for x :: i32
    using that by (simp add: unsigned_ucast_eq word_less_nat_alt take_bit_nat_eq_self)
  then show ?thesis using c that by (auto simp: word_unat_eq_iff)
qed

lemma console_input:
  assumes inv: "console_inv s" and c: "c < 256" "c \<noteq> 0" and room: "length (committed s) + length (editing s) < INPUT_BUF"
    and plain: "c \<noteq> ctl (CHR ''P'')" "c \<noteq> ctl (CHR ''U'')" "c \<noteq> ctl (CHR ''H'')" "c \<noteq> 0x7f"
  shows "\<exists>w t. console_key c s = Ok (c = ctl (CHR ''P''), w) t \<and> console_inv t \<and> (committed t, editing t) = tty_key c (committed s, editing s) \<and>
    (w \<longleftrightarrow> committed t \<noteq> committed s) \<and> cr t = cr s"
proof -
  define c' where "c' = (if c = 13 then 10 else c)"
  define b where "b = (ucast c' :: u8)"
  have b: "b = (if c = 13 then 10 else ucast c)" "b = 10 \<longleftrightarrow> c' = 10" "b = 4 \<longleftrightarrow> c' = ctl (CHR ''D'')"
    using ucast_small [of 10 c'] ucast_small [of 4 c'] c(1) by (auto simp: b_def c'_def ctl_def)
  define u where "u = s\<lparr>cbuf := (cbuf s)[in_slot (ce s) := b], ce := ce s + 1\<rparr>"
  note put = editing_put [OF inv room, of b, folded u_def]
  have uc: "panicked u = 0" "unat (cursor u) < 1920" "cr u = cr s"
    using inv by (simp_all add: console_inv_def u_def)
  obtain v where v: "consputc c' u = Ok () v" "unat (cursor v) < 1920" "input_part v = input_part u"
    using consputc_ok [OF uc(2,1), of c'] by blast
  have vf: "committed v = committed s" "editing v = editing s @ [b]" "length (cbuf v) = INPUT_BUF" "panicked v = 0" "cr v = cr s"
    using v(3) put uc by (simp_all add: input_part_def committed_def editing_def)
  have sum: "unat (ce v - cr v) = length (committed s) + Suc (length (editing s))"
    using pending [of v] room by (simp add: vf)
  have full: "ce v = cr v + of_nat INPUT_BUF \<longleftrightarrow> length (committed s) + Suc (length (editing s)) = INPUT_BUF"
  proof -
    have "ce v = cr v + of_nat INPUT_BUF \<longleftrightarrow> ce v - cr v = 128" by (auto simp: INPUT_BUF_def algebra_simps)
    also have "\<dots> \<longleftrightarrow> unat (ce v - cr v) = INPUT_BUF" by (auto simp: INPUT_BUF_def word_unat_eq_iff simp del: right_minus_eq)
    finally show ?thesis by (simp only: sum)
  qed
  define w where "w \<longleftrightarrow> b = 10 \<or> b = 4 \<or> length (committed s) + Suc (length (editing s)) = INPUT_BUF"
  define t where "t = (if w then v\<lparr>cw := ce v\<rparr> else v)"
  have lt: "ce s - cr s < of_nat INPUT_BUF"
    using pending [of s] room by (simp add: word_less_nat_alt INPUT_BUF_def)
  have "console_key c s = Ok (c = ctl (CHR ''P''), w) t"
    using c(2) plain lt v(1) full b(2,3)
    by (simp add: console_key_def Let_def c'_def [symmetric] b_def [symmetric] u_def [symmetric] w_def t_def)
  moreover have "console_inv t \<and> (committed t, editing t) = tty_key c (committed s, editing s) \<and> (w \<longleftrightarrow> committed t \<noteq> committed s) \<and> cr t = cr s"
  proof (cases w)
    case True
    have "committed t = committed s @ editing s @ [b]"
    proof -
      have "length (committed v) + length (editing v) \<le> INPUT_BUF" using room by (simp add: vf)
      then have "unat (cw v - cr v) + unat (ce v - cw v) < 4294967296"
        by (simp add: committed_def editing_def INPUT_BUF_def)
      then have "ring_list INPUT_BUF (cbuf v) (cr v) (ce v) = committed v @ editing v"
        unfolding committed_def editing_def by (rule ir.append)
      then have "committed t = committed v @ editing v" using True by (simp add: t_def committed_def)
      then show ?thesis by (simp only: vf append_assoc)
    qed
    moreover have "editing t = []" using True by (simp add: t_def editing_def)
    ultimately show ?thesis
      using True True [unfolded w_def] room vf v(2) c(2) plain
      by (simp add: tty_key_def Let_def b(1) [symmetric] console_inv_def) (simp add: t_def vf)
  next
    case False
    then have "committed t = committed s" "editing t = editing s @ [b]" "b \<noteq> 10"
      by (simp_all add: t_def vf w_def)
    then show ?thesis
      using False False [unfolded w_def] room vf v(2) c(2) plain inv
      by (simp add: tty_key_def Let_def b(1) [symmetric] console_inv_def) (simp add: t_def vf)
  qed
  ultimately show ?thesis by blast
qed

lemma console_key_spec:
  assumes inv: "console_inv s" and c: "c < 256"
  shows "\<exists>w t. console_key c s = Ok (c = ctl (CHR ''P''), w) t \<and> console_inv t \<and> (committed t, editing t) = tty_key c (committed s, editing s) \<and>
    (w \<longleftrightarrow> committed t \<noteq> committed s) \<and> cr t = cr s"
proof -
  consider "c = ctl (CHR ''P'')" | "c = ctl (CHR ''U'')" | "c = ctl (CHR ''H'') \<or> c = 0x7f"
    | (input) "c \<noteq> ctl (CHR ''P'')" "c \<noteq> ctl (CHR ''U'')" "c \<noteq> ctl (CHR ''H'')" "c \<noteq> 0x7f"
    by blast
  then show ?thesis
  proof cases
    case 1
    then show ?thesis using inv by (auto simp: console_key_def tty_key_def)
  next
    case 2
    have n: "ctl (CHR ''U'') \<noteq> ctl (CHR ''P'')" by (simp add: ctl_def)
    have len: "unat (ce s - cw s) = length (editing s)" by (simp add: editing_def)
    obtain t where "kill_line (length (editing s)) s = Ok () t" "console_inv t" "committed t = committed s" "editing t = []"
        "cr t = cr s"
      using kill_line_spec [OF inv refl] by blast
    then show ?thesis using 2 n by (auto simp: console_key_def tty_key_def len)
  next
    case 3
    then have n: "c \<noteq> ctl (CHR ''P'')" "c \<noteq> ctl (CHR ''U'')" by (auto simp: ctl_def)
    show ?thesis
    proof (cases "ce s = cw s")
      case True
      then show ?thesis using 3 n inv by (auto simp: console_key_def tty_key_def editing_def)
    next
      case False
      note bk = editing_back [OF inv False]
      obtain t where "consputc BACKSPACE (s\<lparr>ce := ce s - 1\<rparr>) = Ok () t" "console_inv t" "committed t = committed s"
          "editing t = butlast (editing s)" "cr t = cr s"
        by (rule consputc_inv [OF bk(1), of BACKSPACE]) (use bk(2,3) in auto)
      then show ?thesis using 3 n False by (auto simp: console_key_def tty_key_def)
    qed
  next
    case input
    show ?thesis
    proof (cases "c = 0 \<or> INPUT_BUF \<le> length (committed s) + length (editing s)")
      case True
      moreover have "\<not> (c \<noteq> 0 \<and> ce s - cr s < of_nat INPUT_BUF)"
        using True pending [of s] inv by (auto simp: console_inv_def word_less_nat_alt INPUT_BUF_def)
      ultimately show ?thesis using input inv by (auto simp: console_key_def tty_key_def)
    next
      case False
      then show ?thesis using console_input [OF inv c _ _ input] by simp
    qed
  qed
qed

text \<open>C10: the console input is a pair of lists, the committed input and the line being edited. Every
  key acts on them as \<open>tty_key\<close> says: kill and erase work on the line only, at most 128 bytes
  are pending, and the line is committed by a newline, by control-D or when the buffer is full;
  exactly then sleeping readers are woken. No key makes the kernel panic or write outside the
  buffer or the screen.\<close>

theorem console_line_discipline:
  assumes "console_inv s" "c < 256"
  shows "\<exists>w t. console_key c s = Ok (c = ctl (CHR ''P''), w) t \<and> console_inv t \<and> (committed t, editing t) = tty_key c (committed s, editing s) \<and>
    (w \<longleftrightarrow> committed t \<noteq> committed s) \<and> cr t = cr s"
  using assms by (rule console_key_spec)

definition demo_console :: console where
  "demo_console = \<lparr>cbuf = replicate 128 0, cr = 4294967295, cw = 4294967295, ce = 4294967295, panicked = 0, uart = 1,
     serial = [], cursor = 1919, crt = \<lambda>_. 0\<rparr>"

lemma demo_console_inv: "console_inv demo_console" "committed demo_console = []" "editing demo_console = []"
  by (simp_all add: console_inv_def committed_def editing_def demo_console_def INPUT_BUF_def)

theorem console_line_discipline_witness:
  "\<exists>t. console_key 97 demo_console = Ok (False, False) t \<and> console_inv t \<and> committed t = [] \<and> editing t = [97]"
proof -
  obtain w t where "console_key 97 demo_console = Ok (False, w) t" "console_inv t"
      "(committed t, editing t) = tty_key 97 ([], [])" "w \<longleftrightarrow> committed t \<noteq> []"
    using console_line_discipline [OF demo_console_inv(1), of 97] by (auto simp: demo_console_inv ctl_def)
  then show ?thesis by (auto simp: tty_key_def ctl_def INPUT_BUF_def)
qed

section \<open>Reading\<close>

lemma committed_get:
  assumes "console_inv s" "committed s = b # bs"
  defines "t \<equiv> s\<lparr>cr := cr s + 1\<rparr>"
  shows "cr s \<noteq> cw s" "cbuf s ! in_slot (cr s) = b" "committed t = bs" "editing t = editing s" "console_inv t"
proof -
  show ne: "cr s \<noteq> cw s" using assms(2) by (auto simp: committed_def)
  note g = ir.get [OF ne, of "cbuf s", folded committed_def in_slot_def]
  show b: "cbuf s ! in_slot (cr s) = b" "committed t = bs" "editing t = editing s"
    using g assms(2) by (simp_all add: t_def committed_def editing_def)
  show "console_inv t"
    using assms(1,2) b(2,3) by (simp add: console_inv_def t_def)
qed

text \<open>A line without control-D, ended by a newline, is read in one piece.\<close>

lemma consread_line:
  assumes "console_inv s" "committed s = bs @ 10 # rest" "10 \<notin> set bs" "4 \<notin> set bs" "length bs < n"
  shows "\<exists>t. consread kl n got s = Ok (bs @ [10], False) t \<and> console_inv t \<and> committed t = rest \<and> editing t = editing s"
  using assms
proof (induction bs arbitrary: s n got)
  case Nil
  then obtain m where m: "n = Suc m" by (cases n) auto
  note g = committed_get [OF Nil.prems(1), of 10 rest] Nil.prems(2)
  then show ?case by (simp add: m ctl_def)
next
  case (Cons b bs)
  then obtain m where m: "n = Suc m" by (cases n) auto
  note g = committed_get [OF Cons.prems(1), of b "bs @ 10 # rest"]
  obtain t where "consread kl m True (s\<lparr>cr := cr s + 1\<rparr>) = Ok (bs @ [10], False) t" "console_inv t" "committed t = rest"
      "editing t = editing s"
    using Cons.IH [of "s\<lparr>cr := cr s + 1\<rparr>" m True] Cons.prems g m by auto
  then show ?case using g Cons.prems by (simp add: m ctl_def)
qed

lemma unat_ucast_u8: "unat (ucast (b :: u8) :: i32) = unat b"
  by (simp add: unsigned_ucast_eq take_bit_nat_eq_self unsigned_less [THEN order.strict_trans])

lemma ucast_ucast_u8: "(ucast (ucast (b :: u8) :: i32) :: u8) = b"
  by (rule bit_word_eqI) (simp add: bit_simps)

lemma type_line:
  assumes "console_inv s" "length (committed s) + length (editing s) + length bs < INPUT_BUF"
    and "\<forall>b\<in>set bs. b \<notin> {0, 4, 8, 10, 13, 16, 21, 0x7f}"
  shows "\<exists>t. consoleintr (map ucast bs) s = Ok (False, False) t \<and> console_inv t \<and> committed t = committed s \<and>
    editing t = editing s @ bs \<and> cr t = cr s"
  using assms
proof (induction bs arbitrary: s)
  case (Cons b bs)
  have small: "(ucast b :: i32) < 256" using unsigned_less [of b, where 'a = nat] by (simp add: word_less_nat_alt unat_ucast_u8)
  have uc: "(ucast b :: i32) = ucast k \<longleftrightarrow> b = k" for k :: u8 by (auto simp: word_unat_eq_iff unat_ucast_u8)
  have plain: "tty_key (ucast b) (committed s, editing s) = (committed s, editing s @ [b])"
    using Cons.prems(2,3) uc [of 0] uc [of 4] uc [of 8] uc [of 10] uc [of 13] uc [of 16] uc [of 21] uc [of "0x7f"]
    by (simp add: tty_key_def ctl_def ucast_ucast_u8 Let_def)
  obtain w t where t: "console_key (ucast b) s = Ok (False, w) t" "console_inv t"
      "(committed t, editing t) = tty_key (ucast b) (committed s, editing s)" "w \<longleftrightarrow> committed t \<noteq> committed s" "cr t = cr s"
    using console_key_spec [OF Cons.prems(1) small] uc [of 16] Cons.prems(3) by (auto simp: ctl_def)
  obtain u where "consoleintr (map ucast bs) t = Ok (False, False) u" "console_inv u" "committed u = committed t"
      "editing u = editing t @ bs" "cr u = cr t"
    using Cons.IH [OF t(2)] Cons.prems(2,3) t(3) by (auto simp: plain)
  then show ?case using t by (simp add: plain)
qed simp

text \<open>C11: what is typed is what is read: on an idle console, a line of ordinary characters followed
  by the enter key is delivered whole, with its newline, to a reader that asks for enough
  bytes, and nothing is left over.\<close>

theorem console_typed_line_is_read:
  assumes inv: "console_inv s" and idle: "committed s = []" "editing s = []"
    and bs: "length bs + 1 < INPUT_BUF" "\<forall>b\<in>set bs. b \<notin> {0, 4, 8, 10, 13, 16, 21, 0x7f}" and n: "length bs < n"
  shows "\<exists>t u. consoleintr (map ucast bs @ [13]) s = Ok (False, True) t \<and>
    consread kl n False t = Ok (bs @ [10], False) u \<and> committed u = [] \<and> editing u = []"
proof -
  obtain v where v: "consoleintr (map ucast bs) s = Ok (False, False) v" "console_inv v" "committed v = []" "editing v = bs"
    using type_line [OF inv _ bs(2)] idle bs(1) by auto
  have "tty_key 13 ([], bs) = (bs @ [10], [])" using bs(1) by (simp add: tty_key_def ctl_def)
  then obtain t where t: "console_key 13 v = Ok (False, True) t" "console_inv t" "committed t = bs @ [10]" "editing t = []"
    using console_key_spec [OF v(2), of 13] v(3,4) by (auto simp: ctl_def)
  have app: "consoleintr (xs @ ys) s = bindO (consoleintr xs s) (\<lambda>(d, w) s. bindO (consoleintr ys s) (\<lambda>(d', w') s. Ok (d \<or> d', w \<or> w') s))"
    for xs ys and s :: "'a console_scheme"
  proof (induction xs arbitrary: s)
    case Nil
    show ?case by (cases "consoleintr ys s") auto
  qed (auto simp: bindO_assoc split_def intro!: bindO_cong)
  have "consoleintr (map ucast bs @ [13]) s = Ok (False, True) t"
    using v(1) t(1) by (simp add: app)
  moreover have "10 \<notin> set bs" "4 \<notin> set bs" using bs(2) by auto
  then obtain u where "consread kl n False t = Ok (bs @ [10], False) u" "committed u = []" "editing u = []"
    using consread_line [OF t(2), of bs "[]" n kl False] t(3,4) n by auto
  ultimately show ?thesis by blast
qed

theorem console_typed_line_is_read_witness:
  "\<exists>t u. consoleintr [0x6c, 0x73, 13] demo_console = Ok (False, True) t \<and>
     consread False 100 False t = Ok ([0x6c, 0x73, 10], False) u \<and> committed u = []"
  using console_typed_line_is_read [OF demo_console_inv, of "[0x6c, 0x73]" 100 False] by (auto simp: INPUT_BUF_def)

text \<open>C12: printing a character never leaves the screen: with the cursor on the first 24 rows,
  \<^verbatim>\<open>cgaputc\<close> returns, keeps the cursor there (scrolling when needed) and writes no cell of the
  text memory from row 24 on.\<close>

theorem cgaputc_stays_on_screen:
  assumes "unat (cursor s) < 24 * 80"
  shows "\<exists>t. cgaputc c s = Ok () t \<and> unat (cursor t) < 24 * 80 \<and> (\<forall>i\<ge>24 * 80. crt t i = crt s i)"
  using cgaputc_ok [of s c] assms by auto

theorem cgaputc_stays_on_screen_witness:
  "\<exists>t. cgaputc 10 demo_console = Ok () t \<and> unat (cursor t) < 1920"
  using cgaputc_stays_on_screen [of demo_console 10] by (auto simp: demo_console_def)

end
