(* ===== verification/Kernel.thy ===== *)
theory Kernel
  imports Fs Pipe Console Uvm_Copy
begin

text \<open>
  The state of the whole kernel and the layer of open files (\<^verbatim>\<open>file.c\<close>, the parts of \<^verbatim>\<open>pipe.c\<close> and
  \<^verbatim>\<open>console.c\<close> that reach into other components). One record extends the file system with the
  physical memory, the process table, the file table, the pipes, the console and the clock.
  The routines run for one process at a time: a process that has to wait for another one
  never returns (\<^const>\<open>Diverge\<close>).
\<close>

section \<open>State\<close>

datatype filetype = FD_NONE | FD_PIPE | FD_INODE

text \<open>\<^verbatim>\<open>struct file\<close>; a pipe is named by the address of its page.\<close>

record kfile =
  ftype :: filetype
  fref :: i32
  readable :: u8
  writable :: u8
  fpipe :: u32
  fip :: nat
  foff :: u32

definition NFILE :: nat where
  "NFILE = 100"

text \<open>Addresses fixed by the linker: the tables of processes and files, the sleep channels
  \<^verbatim>\<open>&input.r\<close> and \<^verbatim>\<open>&ticks\<close>, the code addresses \<^verbatim>\<open>forkret\<close> and \<^verbatim>\<open>trapret\<close>; and the image of the
  first program.\<close>

record env =
  ksy :: ksyms
  ptable_addr :: u32
  ftable_addr :: u32
  input_r_addr :: u32
  ticks_addr :: u32
  forkret :: u32
  trapret :: u32
  initcode :: "u8 list"

record kernel = fs +
  ev :: env
  kst :: kstate
  ptb :: ptab
  files :: "nat \<Rightarrow> kfile"
  pipes :: "u32 \<Rightarrow> pipe"
  con :: console
  ticks :: u32

definition upd_file :: "nat \<Rightarrow> (kfile \<Rightarrow> kfile) \<Rightarrow> kernel \<Rightarrow> kernel" where
  "upd_file i f s = s\<lparr>files := (files s)(i := f (files s i))\<rparr>"

definition the_proc :: "nat \<Rightarrow> kernel \<Rightarrow> proc" where
  "the_proc me s = procs (ptb s) ! me"

definition set_proc :: "nat \<Rightarrow> (proc \<Rightarrow> proc) \<Rightarrow> kernel \<Rightarrow> kernel" where
  "set_proc me f s = s\<lparr>ptb := (ptb s)\<lparr>procs := (procs (ptb s))[me := f (procs (ptb s) ! me)]\<rparr>\<rparr>"

text \<open>The process number of the caller, which its sleeping locks record.\<close>

definition mypid :: "nat \<Rightarrow> kernel \<Rightarrow> i32" where
  "mypid me s = pid (the_proc me s)"

definition wakeup_k :: "u32 \<Rightarrow> kernel \<Rightarrow> kernel" where
  "wakeup_k ch s = s\<lparr>ptb := wakeup ch (ptb s)\<rparr>"

text \<open>Routines of the memory subsystem inside the kernel state.\<close>

definition with_mem :: "(kstate \<Rightarrow> ('a, kstate) outcome) \<Rightarrow> kernel \<Rightarrow> ('a, kernel) outcome" where
  "with_mem f s = (case f (kst s) of
     Ok x k \<Rightarrow> Ok x (s\<lparr>kst := k\<rparr>) | Panic m \<Rightarrow> Panic m | Fault m \<Rightarrow> Fault m | Diverge \<Rightarrow> Diverge)"

definition kalloc_k :: "kernel \<Rightarrow> u32 \<times> kernel" where
  "kalloc_k s = (let (a, k) = kalloc (kst s) in (a, s\<lparr>kst := k\<rparr>))"

definition kfree_k :: "u32 \<Rightarrow> kernel \<Rightarrow> (unit, kernel) outcome" where
  "kfree_k v s = with_mem (kfree (ksy (ev s)) v) s"

definition upd_mem :: "(memory \<Rightarrow> memory) \<Rightarrow> kernel \<Rightarrow> kernel" where
  "upd_mem f s = s\<lparr>kst := (kst s)\<lparr>mem := f (mem (kst s))\<rparr>\<rparr>"

section \<open>User memory\<close>

text \<open>
  The kernel reads and writes the memory of the running process through its page table, at
  addresses it has checked against \<^verbatim>\<open>p->sz\<close>. A page that is not present, or not writable for a
  store (the kernel runs with write protection on), gives a page fault in kernel mode. The
  fault handler of \<^verbatim>\<open>trap.c\<close> marks the process as killed or does nothing, and goes back to the
  faulting instruction, which faults again: the routine never returns.
\<close>

definition upresent :: "memory \<Rightarrow> u32 \<Rightarrow> u32 \<Rightarrow> bool" where
  "upresent m pd va \<longleftrightarrow> pte_at m pd va AND PTE_P \<noteq> 0"

definition uwritable :: "memory \<Rightarrow> u32 \<Rightarrow> u32 \<Rightarrow> bool" where
  "uwritable m pd va \<longleftrightarrow> upresent m pd va \<and> pte_at m pd va AND PTE_W \<noteq> 0"

definition user_load :: "nat \<Rightarrow> u32 \<Rightarrow> nat \<Rightarrow> kernel \<Rightarrow> (u8 list, kernel) outcome" where
  "user_load me va n s =
     (let m = mem (kst s); pd = pgdir (the_proc me s); as = map (\<lambda>i. va + of_nat i) [0..<n]
      in if list_all (upresent m pd) as then Ok (map (uread m pd) as) s else Diverge)"

primrec user_store :: "nat \<Rightarrow> u32 \<Rightarrow> u8 list \<Rightarrow> kernel \<Rightarrow> (unit, kernel) outcome" where
  "user_store me va [] s = Ok () s"
| "user_store me va (b # bs) s =
     (let m = mem (kst s); pd = pgdir (the_proc me s)
      in if uwritable m pd va then user_store me (va + 1) bs (upd_mem (\<lambda>m. m(uaddr m pd va := b)) s) else Diverge)"

section \<open>Console as a device\<close>

text \<open>\<^verbatim>\<open>consoleread\<close> and \<^verbatim>\<open>consolewrite\<close> give up the lock of the inode while they wait.\<close>

definition with_con :: "(console \<Rightarrow> ('a, console) outcome) \<Rightarrow> kernel \<Rightarrow> ('a, kernel) outcome" where
  "with_con f s = (case f (con s) of
     Ok x c \<Rightarrow> Ok x (s\<lparr>con := c\<rparr>) | Panic m \<Rightarrow> Panic m | Fault m \<Rightarrow> Fault m | Diverge \<Rightarrow> Diverge)"

definition consoleread :: "nat \<Rightarrow> nat \<Rightarrow> u32 \<Rightarrow> kernel \<Rightarrow> (i32 \<times> u8 list, kernel) outcome" where
  "consoleread me ip n s = bindO (iunlock (mypid me s) ip s) (\<lambda>_ s.
     bindO (with_con (consread (killed (the_proc me s) \<noteq> 0) (rounds n) False) s) (\<lambda>(bs, kl) s.
     bindO (ilock (mypid me s) ip s) (\<lambda>_ s. Ok (if kl then - 1 else of_nat (length bs), bs) s)))"

primrec consputs :: "u8 list \<Rightarrow> console \<Rightarrow> (unit, console) outcome" where
  "consputs [] s = Ok () s"
| "consputs (b # bs) s = bindO (consputc (ucast b) s) (\<lambda>_ s. consputs bs s)"

definition consolewrite :: "nat \<Rightarrow> nat \<Rightarrow> u8 list \<Rightarrow> u32 \<Rightarrow> kernel \<Rightarrow> (i32, kernel) outcome" where
  "consolewrite me ip src n s = bindO (iunlock (mypid me s) ip s) (\<lambda>_ s.
     bindO (with_con (consputs (take (rounds n) src)) s) (\<lambda>_ s.
     bindO (ilock (mypid me s) ip s) (\<lambda>_ s. Ok n s)))"

text \<open>The table \<^verbatim>\<open>devsw\<close> after \<^verbatim>\<open>consoleinit\<close>: the console is device 1.\<close>

definition devsw_read :: "nat \<Rightarrow> kernel dev_read" where
  "devsw_read me k = (if k = 1 then Some (consoleread me) else None)"

definition devsw_write :: "nat \<Rightarrow> kernel dev_write" where
  "devsw_write me k = (if k = 1 then Some (consolewrite me) else None)"

text \<open>The interrupt of the keyboard or the serial line: \<open>cs\<close> are the characters the device
  delivers. The process listing that control-P asks for is output only.\<close>

definition consoleintr_k :: "i32 list \<Rightarrow> kernel \<Rightarrow> (bool, kernel) outcome" where
  "consoleintr_k cs s = bindO (with_con (consoleintr cs) s) (\<lambda>(d, w) s.
     Ok d (if w then wakeup_k (input_r_addr (ev s)) s else s))"

section \<open>Open files\<close>

definition filealloc :: "kernel \<Rightarrow> nat option \<times> kernel" where
  "filealloc s = (case find (\<lambda>i. fref (files s i) = 0) [0..<NFILE] of
     Some i \<Rightarrow> (Some i, upd_file i (\<lambda>f. f\<lparr>fref := 1\<rparr>) s)
   | None \<Rightarrow> (None, s))"

definition filedup :: "nat \<Rightarrow> kernel \<Rightarrow> (nat, kernel) outcome" where
  "filedup f s = (if fref (files s f) <s 1 then Panic ''filedup''
     else Ok f (upd_file f (\<lambda>x. x\<lparr>fref := fref x + 1\<rparr>) s))"

text \<open>The channels \<^verbatim>\<open>&p->nread\<close> and \<^verbatim>\<open>&p->nwrite\<close> of the pipe at address \<open>p\<close>: behind a spin lock
  of 52 bytes and 512 bytes of data.\<close>

definition nread_chan :: "u32 \<Rightarrow> u32" where
  "nread_chan p = p + 564"

definition nwrite_chan :: "u32 \<Rightarrow> u32" where
  "nwrite_chan p = p + 568"

definition pipeclose :: "u32 \<Rightarrow> bool \<Rightarrow> kernel \<Rightarrow> (unit, kernel) outcome" where
  "pipeclose p wr s =
     (let (fr, q) = pipe_close wr (pipes s p);
          s = wakeup_k (if wr then nread_chan p else nwrite_chan p) (s\<lparr>pipes := (pipes s)(p := q)\<rparr>)
      in if fr then bindO (with_con (consputs (bytes ''72\<newline>'')) s) (\<lambda>_ s. kfree_k p s) else Ok () s)"

definition fileclose :: "nat \<Rightarrow> nat \<Rightarrow> kernel \<Rightarrow> (unit, kernel) outcome" where
  "fileclose me f s =
     (if fref (files s f) <s 1 then Panic ''fileclose''
      else
        let s = upd_file f (\<lambda>x. x\<lparr>fref := fref x - 1\<rparr>) s in
        if 0 <s fref (files s f) then Ok () s
        else
          let ff = files s f; s = upd_file f (\<lambda>x. x\<lparr>fref := 0, ftype := FD_NONE\<rparr>) s in
          (case ftype ff of
             FD_PIPE \<Rightarrow> pipeclose (fpipe ff) (writable ff \<noteq> 0) s
           | FD_INODE \<Rightarrow> bindO (begin_op s) (\<lambda>_ s. bindO (iput (mypid me s) (fip ff) s) (\<lambda>_ s. end_op (mypid me s) s))
           | FD_NONE \<Rightarrow> Ok () s))"

definition filestat :: "nat \<Rightarrow> nat \<Rightarrow> kernel \<Rightarrow> (i32 \<times> stat option, kernel) outcome" where
  "filestat me f s =
     (if ftype (files s f) = FD_INODE then
        let ip = fip (files s f) in
        bindO (ilock (mypid me s) ip s) (\<lambda>_ s.
          let st = stati (icache s ip) in
          bindO (iunlock (mypid me s) ip s) (\<lambda>_ s. Ok (0, Some st) s))
      else Ok (- 1, None) s)"

text \<open>\<^verbatim>\<open>pipewrite\<close> and \<^verbatim>\<open>piperead\<close>: a section that has to sleep waits for ever.\<close>

definition pipewrite_k :: "nat \<Rightarrow> u32 \<Rightarrow> u8 list \<Rightarrow> i32 \<Rightarrow> kernel \<Rightarrow> (i32, kernel) outcome" where
  "pipewrite_k me p src n s =
     (case pipewrite (killed (the_proc me s) \<noteq> 0) n (take (rounds n) src) (pipes s p) of
        (None, _, _) \<Rightarrow> Diverge
      | (Some r, rest, q) \<Rightarrow>
          let s = s\<lparr>pipes := (pipes s)(p := q)\<rparr>
          in Ok r (if rest = [] then wakeup_k (nread_chan p) s else s))"

definition piperead_k :: "nat \<Rightarrow> u32 \<Rightarrow> i32 \<Rightarrow> kernel \<Rightarrow> (i32 \<times> u8 list, kernel) outcome" where
  "piperead_k me p n s =
     (case piperead (killed (the_proc me s) \<noteq> 0) (rounds n) (pipes s p) of
        (None, _, _) \<Rightarrow> Diverge
      | (Some r, bs, q) \<Rightarrow>
          let s = s\<lparr>pipes := (pipes s)(p := q)\<rparr>
          in Ok (r, bs) (if r = - 1 then s else wakeup_k (nwrite_chan p) s))"

text \<open>The result of \<^verbatim>\<open>fileread\<close> and the bytes it stores at the address it is given.\<close>

definition fileread :: "nat \<Rightarrow> nat \<Rightarrow> i32 \<Rightarrow> kernel \<Rightarrow> (i32 \<times> u8 list, kernel) outcome" where
  "fileread me f n s =
     (if readable (files s f) = 0 then Ok (- 1, []) s
      else case ftype (files s f) of
        FD_PIPE \<Rightarrow> piperead_k me (fpipe (files s f)) n s
      | FD_INODE \<Rightarrow>
          let ip = fip (files s f) in
          bindO (ilock (mypid me s) ip s) (\<lambda>_ s.
          bindO (readi (devsw_read me) (mypid me s) ip (foff (files s f)) n s) (\<lambda>(r, bs) s.
            let s = (if 0 <s r then upd_file f (\<lambda>x. x\<lparr>foff := foff x + r\<rparr>) s else s) in
            bindO (iunlock (mypid me s) ip s) (\<lambda>_ s. Ok (r, bs) s)))
      | FD_NONE \<Rightarrow> Panic ''fileread'')"

text \<open>The largest piece \<^verbatim>\<open>filewrite\<close> puts into one transaction, \<^verbatim>\<open>((MAXOPBLOCKS-1-1-2) / 2) * 512\<close>.\<close>

definition write_max :: nat where
  "write_max = 1536"

text \<open>The loop of \<^verbatim>\<open>filewrite\<close> on the bytes still to be written: whether all were.\<close>

function filewrite_loop :: "nat \<Rightarrow> nat \<Rightarrow> u8 list \<Rightarrow> kernel \<Rightarrow> (bool, kernel) outcome" where
  "filewrite_loop me f bs s =
     (if bs = [] then Ok True s
      else
        let part = take write_max bs; ip = fip (files s f) in
        bindO (begin_op s) (\<lambda>_ s.
        bindO (ilock (mypid me s) ip s) (\<lambda>_ s.
        bindO (writei (devsw_write me) (mypid me s) ip part (foff (files s f)) (of_nat (length part)) s) (\<lambda>r s.
          let s = (if 0 <s r then upd_file f (\<lambda>x. x\<lparr>foff := foff x + r\<rparr>) s else s) in
          bindO (iunlock (mypid me s) ip s) (\<lambda>_ s.
          bindO (end_op (mypid me s) s) (\<lambda>_ s.
            if r <s 0 then Ok False s
            else if r \<noteq> of_nat (length part) then Panic ''short filewrite''
            else filewrite_loop me f (drop write_max bs) s))))))"
  by pat_completeness auto
termination
  by (relation "measure (\<lambda>(_, _, bs, _). length bs)") (auto simp: write_max_def)

declare filewrite_loop.simps [simp del]

definition filewrite :: "nat \<Rightarrow> nat \<Rightarrow> u8 list \<Rightarrow> i32 \<Rightarrow> kernel \<Rightarrow> (i32, kernel) outcome" where
  "filewrite me f src n s =
     (if writable (files s f) = 0 then Ok (- 1) s
      else case ftype (files s f) of
        FD_PIPE \<Rightarrow> pipewrite_k me (fpipe (files s f)) src n s
      | FD_INODE \<Rightarrow> bindO (filewrite_loop me f (take (rounds n) src) s) (\<lambda>all s.
          Ok (if all \<and> 0 \<le>s n then n else - 1) s)
      | FD_NONE \<Rightarrow> Panic ''filewrite'')"

text \<open>\<^verbatim>\<open>pipealloc\<close>: the read end and the write end, or nothing. The data of the new pipe is
  what the page holds.\<close>

definition close_opt :: "nat \<Rightarrow> nat option \<Rightarrow> kernel \<Rightarrow> (unit, kernel) outcome" where
  "close_opt me f s = (case f of None \<Rightarrow> Ok () s | Some i \<Rightarrow> fileclose me i s)"

definition pipealloc :: "nat \<Rightarrow> kernel \<Rightarrow> ((nat \<times> nat) option, kernel) outcome" where
  "pipealloc me s =
     (let (f0, s) = filealloc s; (f1, s) = (if f0 = None then (None, s) else filealloc s);
          bad = (\<lambda>s. bindO (close_opt me f0 s) (\<lambda>_ s. bindO (close_opt me f1 s) (\<lambda>_ s. Ok None s)))
      in case (f0, f1) of
        (Some i, Some j) \<Rightarrow>
          let (p, s) = kalloc_k s in
          if p = 0 then bad s
          else
            let s = s\<lparr>pipes := (pipes s)(p := pipe_new (peek (mem (kst s)) (p + 52) PIPESIZE))\<rparr>;
                s = upd_file i (\<lambda>x. x\<lparr>ftype := FD_PIPE, readable := 1, writable := 0, fpipe := p\<rparr>) s;
                s = upd_file j (\<lambda>x. x\<lparr>ftype := FD_PIPE, readable := 0, writable := 1, fpipe := p\<rparr>) s
            in Ok (Some (i, j)) s
      | _ \<Rightarrow> bad s)"

end
