(* ===== verification/Syscall.thy ===== *)
theory Syscall
  imports Kernel
begin

text \<open>
  How a system call gets its arguments (\<^verbatim>\<open>syscall.c\<close>): integers, pointers and strings are fetched
  from the memory of the calling process and checked against its size. \<open>None\<close> is the result
  \<open>-1\<close>.
\<close>

section \<open>Trap frame\<close>

text \<open>Offsets of the fields of \<^verbatim>\<open>struct trapframe\<close>, whose address is in \<^verbatim>\<open>p->tf\<close>.\<close>

datatype tfreg = TF_edi | TF_esi | TF_ebp | TF_oesp | TF_ebx | TF_edx | TF_ecx | TF_eax | TF_gs | TF_fs
  | TF_es | TF_ds | TF_trapno | TF_err | TF_eip | TF_cs | TF_eflags | TF_esp | TF_ss

primrec tfoff :: "tfreg \<Rightarrow> u32" where
  "tfoff TF_edi = 0" | "tfoff TF_esi = 4" | "tfoff TF_ebp = 8" | "tfoff TF_oesp = 12" | "tfoff TF_ebx = 16"
| "tfoff TF_edx = 20" | "tfoff TF_ecx = 24" | "tfoff TF_eax = 28" | "tfoff TF_gs = 32" | "tfoff TF_fs = 36"
| "tfoff TF_es = 40" | "tfoff TF_ds = 44" | "tfoff TF_trapno = 48" | "tfoff TF_err = 52" | "tfoff TF_eip = 56"
| "tfoff TF_cs = 60" | "tfoff TF_eflags = 64" | "tfoff TF_esp = 68" | "tfoff TF_ss = 72"

definition tf_size :: u32 where
  "tf_size = 76"

definition tf_get :: "nat \<Rightarrow> tfreg \<Rightarrow> kernel \<Rightarrow> u32" where
  "tf_get me r s = load32 (mem (kst s)) (tf (the_proc me s) + tfoff r)"

definition tf_set :: "nat \<Rightarrow> tfreg \<Rightarrow> u32 \<Rightarrow> kernel \<Rightarrow> kernel" where
  "tf_set me r x s = upd_mem (\<lambda>m. store32 m (tf (the_proc me s) + tfoff r) x) s"

section \<open>Arguments\<close>

definition user_word :: "nat \<Rightarrow> u32 \<Rightarrow> kernel \<Rightarrow> (u32, kernel) outcome" where
  "user_word me a s = bindO (user_load me a 4 s) (\<lambda>bs s. Ok (get32 bs 0) s)"

definition fetchint :: "nat \<Rightarrow> u32 \<Rightarrow> kernel \<Rightarrow> (i32 option, kernel) outcome" where
  "fetchint me addr s =
     (if addr \<ge> sz (the_proc me s) \<or> addr + 4 > sz (the_proc me s) then Ok None s
      else bindO (user_word me addr s) (\<lambda>x s. Ok (Some x) s))"

text \<open>The loop of \<^verbatim>\<open>fetchstr\<close> from \<open>a\<close> with \<open>k\<close> bytes left before the end of the process; it gives
  the string.\<close>

primrec fetchstr_loop :: "nat \<Rightarrow> nat \<Rightarrow> u32 \<Rightarrow> u8 list \<Rightarrow> kernel \<Rightarrow> (u8 list option, kernel) outcome" where
  "fetchstr_loop me 0 a acc s = Ok None s"
| "fetchstr_loop me (Suc k) a acc s = bindO (user_load me a 1 s) (\<lambda>bs s.
     if hd bs = 0 then Ok (Some (rev acc)) s else fetchstr_loop me k (a + 1) (hd bs # acc) s)"

definition fetchstr :: "nat \<Rightarrow> u32 \<Rightarrow> kernel \<Rightarrow> (u8 list option, kernel) outcome" where
  "fetchstr me addr s =
     (if addr \<ge> sz (the_proc me s) then Ok None s
      else fetchstr_loop me (unat (sz (the_proc me s) - addr)) addr [] s)"

definition argint :: "nat \<Rightarrow> nat \<Rightarrow> kernel \<Rightarrow> (i32 option, kernel) outcome" where
  "argint me n s = fetchint me (tf_get me TF_esp s + 4 + 4 * of_nat n) s"

definition argptr :: "nat \<Rightarrow> nat \<Rightarrow> i32 \<Rightarrow> kernel \<Rightarrow> (u32 option, kernel) outcome" where
  "argptr me n k s = bindO (argint me n s) (\<lambda>i s.
     case i of
       None \<Rightarrow> Ok None s
     | Some i \<Rightarrow>
         if k <s 0 \<or> i \<ge> sz (the_proc me s) \<or> i + k > sz (the_proc me s) then Ok None s
         else Ok (Some i) s)"

definition argstr :: "nat \<Rightarrow> nat \<Rightarrow> kernel \<Rightarrow> (u8 list option, kernel) outcome" where
  "argstr me n s = bindO (argint me n s) (\<lambda>a s.
     case a of None \<Rightarrow> Ok None s | Some a \<Rightarrow> fetchstr me a s)"

text \<open>The first \<open>n\<close> arguments as integers, in order, as \<^verbatim>\<open>if(argint(0, ..) < 0 || argint(1, ..) < 0)\<close>
  fetches them.\<close>

primrec argints :: "nat \<Rightarrow> nat \<Rightarrow> nat \<Rightarrow> kernel \<Rightarrow> (i32 list option, kernel) outcome" where
  "argints me k 0 s = Ok (Some []) s"
| "argints me k (Suc n) s = bindO (argint me k s) (\<lambda>x s.
     case x of
       None \<Rightarrow> Ok None s
     | Some x \<Rightarrow> bindO (argints me (Suc k) n s) (\<lambda>xs s. Ok (map_option ((#) x) xs) s))"

section \<open>What the arguments are\<close>

text \<open>Fetching changes nothing.\<close>

lemma user_load_keeps: "user_load me a n s = Ok bs t \<Longrightarrow> t = s \<and> length bs = n"
  by (auto simp: user_load_def Let_def split: if_splits)

lemma user_word_keeps: "user_word me a s = Ok x t \<Longrightarrow> t = s"
  by (auto simp: user_word_def bindO_eq_Ok dest: user_load_keeps)

lemma fetchint_keeps: "fetchint me a s = Ok x t \<Longrightarrow> t = s"
  by (auto simp: fetchint_def bindO_eq_Ok dest: user_word_keeps split: if_splits)

lemma argint_keeps: "argint me n s = Ok x t \<Longrightarrow> t = s"
  by (auto simp: argint_def dest: fetchint_keeps)

lemma argints_keeps: "argints me k n s = Ok x t \<Longrightarrow> t = s"
  by (induction n arbitrary: k x t)
     (fastforce simp: bindO_eq_Ok dest: argint_keeps split: option.splits)+

lemma fetchstr_loop_keeps: "fetchstr_loop me k a acc s = Ok x t \<Longrightarrow> t = s"
  by (induction k arbitrary: a acc)
     (auto simp: bindO_eq_Ok dest!: user_load_keeps split: if_splits)

lemma argptr_Some:
  assumes "argptr me n k s = Ok (Some i) t"
  shows "t = s" "argint me n s = Ok (Some i) s" "\<not> k <s 0" "i < sz (the_proc me s)" "i + k \<le> sz (the_proc me s)"
proof -
  obtain x u where a: "argint me n s = Ok x u"
    using assms by (auto simp: argptr_def bindO_eq_Ok)
  note s = argint_keeps [OF a]
  obtain i' where x: "x = Some i'"
    using assms a by (cases x) (auto simp: argptr_def)
  show "t = s" "argint me n s = Ok (Some i) s" "\<not> k <s 0" "i < sz (the_proc me s)" "i + k \<le> sz (the_proc me s)"
    using assms a by (simp_all add: argptr_def x s not_le not_less split: if_splits)
qed

lemma fetchstr_loop_string:
  assumes "fetchstr_loop me k a acc s = Ok (Some bs) t"
  shows "\<exists>str. bs = rev acc @ str \<and> 0 \<notin> set str \<and> length str < k \<and>
    user_load me a (Suc (length str)) s = Ok (str @ [0]) s"
  using assms
proof (induction k arbitrary: a acc)
  case (Suc k)
  let ?m = "mem (kst s)" and ?pd = "pgdir (the_proc me s)"
  have step: "user_load me a (Suc n) s = (if upresent ?m ?pd a then
      case user_load me (a + 1) n s of Ok r u \<Rightarrow> Ok (uread ?m ?pd a # r) u | Panic e \<Rightarrow> Panic e | Fault e \<Rightarrow> Fault e | Diverge \<Rightarrow> Diverge
      else Diverge)" for n
    by (simp add: user_load_def Let_def upt_conv_Cons map_Suc_upt [symmetric] comp_def add.assoc
        del: upt_Suc map_Suc_upt)
  from Suc.prems obtain p: "upresent ?m ?pd a"
    and r: "if uread ?m ?pd a = 0 then bs = rev acc else fetchstr_loop me k (a + 1) (uread ?m ?pd a # acc) s = Ok (Some bs) t"
    by (auto simp: bindO_eq_Ok user_load_def Let_def split: if_splits)
  show ?case
  proof (cases "uread ?m ?pd a = 0")
    case True
    then show ?thesis
      using p r by (intro exI [of _ "[]"]) (simp add: user_load_def)
  next
    case False
    then obtain str where str: "bs = rev acc @ uread ?m ?pd a # str" "0 \<notin> set str" "length str < k"
      "user_load me (a + 1) (Suc (length str)) s = Ok (str @ [0]) s"
      using r Suc.IH by fastforce
    show ?thesis
      using str False p step [of "Suc (length str)"]
      by (intro exI [of _ "uread ?m ?pd a # str"]) (auto simp del: upt_Suc)
  qed
qed simp

text \<open>
  C7: a pointer argument that passes the check of \<^verbatim>\<open>argptr\<close> names a block that lies wholly in the
  memory of the process, with no wrap-around of the address, provided the size of the process
  is at most \<^verbatim>\<open>KERNBASE\<close>; a string argument that passes the check of \<^verbatim>\<open>argstr\<close> is the bytes
  up to the first NUL at an address below the size of the process, and its terminator is
  inside the process too.
\<close>

theorem arguments_stay_in_process:
  assumes "sz (the_proc me s) \<le> KERNBASE"
  shows "(argptr me n k s = Ok (Some p) t \<longrightarrow>
      t = s \<and> 0 \<le> sint k \<and> unat p + nat (sint k) \<le> unat (sz (the_proc me s))) \<and>
    (argstr me n s = Ok (Some str) u \<longrightarrow>
      u = s \<and> (\<exists>a. argint me n s = Ok (Some a) s \<and> 0 \<notin> set str \<and>
        unat a + length str < unat (sz (the_proc me s)) \<and>
        user_load me a (Suc (length str)) s = Ok (str @ [0]) s))" (is "(_ \<longrightarrow> ?P) \<and> (_ \<longrightarrow> ?S)")
proof (rule conjI; rule impI)
  let ?z = "sz (the_proc me s)"
  show ?P if "argptr me n k s = Ok (Some p) t"
  proof -
    note p = argptr_Some [OF that]
    have k: "unat k < 2147483648"
      using p(3) by (simp add: i32_neg_iff)
    have "unat p < unat ?z" "unat ?z \<le> 2147483648"
      using p assms by (simp_all add: word_less_nat_alt word_le_nat_alt)
    then have "unat (p + k) = unat p + unat k"
      using k by (simp add: unat_word_ariths)
    then show ?thesis
      using p k by (simp add: sint_i32 word_le_nat_alt)
  qed
  show ?S if w: "argstr me n s = Ok (Some str) u"
  proof -
    obtain a where a: "argint me n s = Ok (Some a) s" "a < ?z"
      "fetchstr_loop me (unat (?z - a)) a [] s = Ok (Some str) u"
      using w by (fastforce simp: argstr_def fetchstr_def bindO_eq_Ok dest: argint_keeps split: option.splits if_splits)
    have "unat (?z - a) = unat ?z - unat a" "unat a < unat ?z"
      using a(2) unat_sub [of a ?z] by (simp_all add: word_less_nat_alt word_le_nat_alt)
    then show ?thesis
      using a fetchstr_loop_string [OF a(3)] fetchstr_loop_keeps [OF a(3)] by auto
  qed
qed

text \<open>A machine whose only process has one page, at address 0; the words of the page from address
  4 on are \<open>xs\<close>, and the user stack pointer is 0.\<close>

definition demo_umem :: "u32 list \<Rightarrow> memory" where
  "demo_umem xs = foldl (\<lambda>m (a, x). store32 m a x) (\<lambda>_. 0)
     ([(0x80120000, 0x121007), (0x80121000, 0x130007)] @ zip (map (\<lambda>i. 0x80130004 + 4 * of_nat i) [0..<length xs]) xs)"

definition demo_kernel :: "memory \<Rightarrow> kernel" where
  "demo_kernel m = fs.extend (logst.extend (demo_log (\<lambda>_. replicate 512 0))
       (fs.fields (sb_of (replicate 512 0)) (\<lambda>_. \<lparr>idev = 0, inum = 0, iref = 0, ilk = blk demo_buf, ivalid = 0,
          itype = 0, major = 0, minor = 0, nlink = 0, isize = 0, addrs = replicate 13 0\<rparr>)))
     (kernel.fields
       \<lparr>ksy = demo_syms, ptable_addr = 0x8010C000, ftable_addr = 0x8010A000, input_r_addr = 0x8010B000,
         ticks_addr = 0x8010B800, forkret = 0x80103c00, trapret = 0x80105b00, initcode = []\<rparr>
       \<lparr>mem = m, use_lock = True, freelist = 0\<rparr>
       \<lparr>procs = demo_proc\<lparr>sz := 4096, pgdir := 0x80120000, pstate := RUNNING, pid := 1, tf := 0x80140000\<rparr> # replicate 63 demo_proc,
         nextpid = 2, initproc = Some 0\<rparr>
       (\<lambda>_. \<lparr>ftype = FD_NONE, fref = 0, readable = 0, writable = 0, fpipe = 0, fip = 0, foff = 0\<rparr>)
       (\<lambda>_. pipe_new []) demo_console 0)"

lemma demo_kernel_simps [simp]:
  "kst (demo_kernel m) = \<lparr>mem = m, use_lock = True, freelist = 0\<rparr>"
  "the_proc 0 (demo_kernel m) = demo_proc\<lparr>sz := 4096, pgdir := 0x80120000, pstate := RUNNING, pid := 1, tf := 0x80140000\<rparr>"
  by (simp_all add: demo_kernel_def the_proc_def kernel.defs fs.defs logst.defs)

text \<open>\<open>m\<close> holds that page table and a trap frame with user stack pointer 0.\<close>

definition demo_layout :: "memory \<Rightarrow> bool" where
  "demo_layout m \<longleftrightarrow> load32 m 0x80140044 = 0 \<and> load32 m 0x80120000 = 0x121007 \<and> load32 m 0x80121000 = 0x130007"

lemma demo_layout_pte:
  assumes "demo_layout m" "drop_bit 12 va = 0"
  shows "pte_at m 0x80120000 va = 0x130007"
proof -
  have "PTX va = 0" "PDX va = 0"
    using assms(2) drop_bit_drop_bit [of 10 12 va] by (simp_all add: PTX_def PDX_def)
  then show ?thesis
    using assms(1) by (simp add: demo_layout_def pte_at_def pde_at_def pgtab_at_def entry_def P2V_def PTE_ADDR_def)
qed

lemma demo_argint:
  assumes "demo_layout m"
  shows "argint 0 0 (demo_kernel m) = Ok (Some (load32 m 0x80130004)) (demo_kernel m)"
    "argint 0 (Suc 0) (demo_kernel m) = Ok (Some (load32 m 0x80130008)) (demo_kernel m)"
  using assms(1) unfolding demo_layout_def
  by (simp_all add: argint_def fetchint_def tf_get_def user_word_def user_load_def Let_def upresent_def load32_def
      demo_layout_pte [OF assms] uread_def uaddr_def upage_def P2V_def PTE_ADDR_def PGROUNDDOWN_def get32_def upt_conv_Cons)

theorem arguments_stay_in_process_witness:
  "argptr 0 0 16 (demo_kernel (demo_umem [16, 8])) = Ok (Some 16) (demo_kernel (demo_umem [16, 8])) \<and>
   unat (16 :: u32) + nat (sint (16 :: i32)) \<le> unat (sz (the_proc 0 (demo_kernel (demo_umem [16, 8]))))"
proof -
  let ?s = "demo_kernel (demo_umem [16, 8])"
  have "sz (the_proc 0 ?s) \<le> KERNBASE"
    by simp
  moreover have "demo_layout (demo_umem [16, 8])" "load32 (demo_umem [16, 8]) 0x80130004 = 16"
    by (simp_all add: demo_layout_def demo_umem_def load32_def store32_def)
  then have "argptr 0 0 16 ?s = Ok (Some 16) ?s"
    by (simp add: argptr_def demo_argint i32_neg_iff)
  ultimately show ?thesis
    using arguments_stay_in_process [of 0 ?s 0 16 16 ?s] by simp
qed

end
