(* ===== verification/Vma.thy ===== *)
theory Vma
  imports Syscall
begin

text \<open>
  Memory mappings: the list of \<^verbatim>\<open>struct vm_area\<close> of a process, which lives in kernel memory
  (head and tail inside \<^verbatim>\<open>struct proc\<close>, the other nodes in pages of their own), the copies of
  \<^verbatim>\<open>walkpgdir\<close> and \<^verbatim>\<open>mappages\<close> in \<^verbatim>\<open>proc.c\<close>, \<^verbatim>\<open>trap.c\<close> and \<^verbatim>\<open>sysfile.c\<close>, and the system calls
  \<^verbatim>\<open>mmap\<close> and \<^verbatim>\<open>munmap\<close>.
\<close>

section \<open>Areas\<close>

definition MAP_PRIVATE :: i32 where
  "MAP_PRIVATE = 0x0001"

definition MAP_SHARED :: i32 where
  "MAP_SHARED = 0x0002"

definition MAP_ANON :: i32 where
  "MAP_ANON = 0x0004"

definition MAP_FIXED :: i32 where
  "MAP_FIXED = 0x0008"

definition MAP_GROWSUP :: i32 where
  "MAP_GROWSUP = 0x0010"

definition MIN_ADDR :: u32 where
  "MIN_ADDR = 0x60000000"

definition MAX_ADDR :: u32 where
  "MAX_ADDR = 0x80000000"

text \<open>The fields of \<^verbatim>\<open>struct vm_area\<close>, twelve words, of the area at address \<open>v\<close>.\<close>

definition vm_valid :: "memory \<Rightarrow> u32 \<Rightarrow> i32" where
  "vm_valid m v = load32 m v"

definition vm_start :: "memory \<Rightarrow> u32 \<Rightarrow> u32" where
  "vm_start m v = load32 m (v + 4)"

definition vm_end :: "memory \<Rightarrow> u32 \<Rightarrow> u32" where
  "vm_end m v = load32 m (v + 8)"

definition vm_pa :: "memory \<Rightarrow> u32 \<Rightarrow> u32" where
  "vm_pa m v = load32 m (v + 12)"

definition vm_guardstart :: "memory \<Rightarrow> u32 \<Rightarrow> u32" where
  "vm_guardstart m v = load32 m (v + 16)"

definition vm_len :: "memory \<Rightarrow> u32 \<Rightarrow> i32" where
  "vm_len m v = load32 m (v + 20)"

definition vm_prot :: "memory \<Rightarrow> u32 \<Rightarrow> i32" where
  "vm_prot m v = load32 m (v + 24)"

definition vm_flags :: "memory \<Rightarrow> u32 \<Rightarrow> i32" where
  "vm_flags m v = load32 m (v + 28)"

definition vm_fd :: "memory \<Rightarrow> u32 \<Rightarrow> i32" where
  "vm_fd m v = load32 m (v + 32)"

definition vm_space_after :: "memory \<Rightarrow> u32 \<Rightarrow> i32" where
  "vm_space_after m v = load32 m (v + 36)"

definition vm_f :: "memory \<Rightarrow> u32 \<Rightarrow> u32" where
  "vm_f m v = load32 m (v + 40)"

definition vm_next :: "memory \<Rightarrow> u32 \<Rightarrow> u32" where
  "vm_next m v = load32 m (v + 44)"

definition set_word :: "u32 \<Rightarrow> u32 \<Rightarrow> kernel \<Rightarrow> kernel" where
  "set_word a x = upd_mem (\<lambda>m. store32 m a x)"

text \<open>\<^verbatim>\<open>&p->head\<close> and \<^verbatim>\<open>&p->tail\<close>.\<close>

definition vm_head :: "nat \<Rightarrow> kernel \<Rightarrow> u32" where
  "vm_head me s = procaddr (ptable_addr (ev s)) me + 124"

definition vm_tail :: "nat \<Rightarrow> kernel \<Rightarrow> u32" where
  "vm_tail me s = procaddr (ptable_addr (ev s)) me + 172"

text \<open>A walk along the list, from \<open>v\<close> with predecessor \<open>p\<close>, as the loops
  \<^verbatim>\<open>while (curr->start != MAX_ADDR)\<close> do it: \<open>g\<close> says where the body stops and why. The list of
  a process that never called \<^verbatim>\<open>exec\<close> has null pointers in it, and a list that runs in a circle is
  walked for ever (\<open>None\<close>).\<close>

datatype 'd walk = Stop 'd u32 u32 | End | Null

partial_function (option) vma_walk :: "(u32 \<Rightarrow> 'd option) \<Rightarrow> memory \<Rightarrow> u32 \<Rightarrow> u32 \<Rightarrow> 'd walk option" where
  "vma_walk g m p v =
     (if v = 0 then Some Null
      else if vm_start m v = MAX_ADDR then Some End
      else case g v of Some d \<Rightarrow> Some (Stop d p v) | None \<Rightarrow> vma_walk g m v (vm_next m v))"

section \<open>The copies of walkpgdir and mappages\<close>

text \<open>They differ from the routines of \<^verbatim>\<open>vm.c\<close> in one point: the address \<open>pa\<close> is a kernel
  address, which \<^verbatim>\<open>mappages\<close> converts.\<close>

definition walkpgdir_proc :: "u32 \<Rightarrow> u32 \<Rightarrow> bool \<Rightarrow> kstate \<Rightarrow> u32 \<times> kstate" where
  "walkpgdir_proc pd va alloc s =
     (let pde = entry pd (PDX va)
      in if load32 (mem s) pde AND PTE_P \<noteq> 0 then (entry (P2V (PTE_ADDR (load32 (mem s) pde))) (PTX va), s)
         else if \<not> alloc then (0, s)
         else
           let (pgtab, s) = kalloc s
           in if pgtab = 0 then (0, s)
              else
                let s = s\<lparr>mem := memset (mem s) pgtab 0 PGSIZE\<rparr>;
                    s = s\<lparr>mem := store32 (mem s) pde (V2P pgtab OR PTE_P OR PTE_W OR PTE_U)\<rparr>
                in (entry pgtab (PTX va), s))"

primrec mappages_proc_loop :: "nat \<Rightarrow> u32 \<Rightarrow> u32 \<Rightarrow> u32 \<Rightarrow> u32 \<Rightarrow> u32 \<Rightarrow> kstate \<Rightarrow> (i32, kstate) outcome" where
  "mappages_proc_loop 0 pd a lasta pa_phys perm s = Diverge"
| "mappages_proc_loop (Suc fuel) pd a lasta pa_phys perm s =
     (let (pte, s) = walkpgdir_proc pd a True s
      in if pte = 0 then Ok (- 1) s
         else if load32 (mem s) pte AND PTE_P \<noteq> 0 then Panic ''remap''
         else
           let s = s\<lparr>mem := store32 (mem s) pte (pa_phys OR perm OR PTE_P)\<rparr>
           in if a = lasta then Ok 0 s
              else mappages_proc_loop fuel pd (a + PGSIZE) lasta (pa_phys + PGSIZE) perm s)"

definition mappages_proc :: "u32 \<Rightarrow> u32 \<Rightarrow> u32 \<Rightarrow> u32 \<Rightarrow> u32 \<Rightarrow> kstate \<Rightarrow> (i32, kstate) outcome" where
  "mappages_proc pd va n pa perm s =
     mappages_proc_loop page_fuel pd (PGROUNDDOWN va) (PGROUNDDOWN (va + n - 1)) (V2P pa) perm s"

definition walkpgdir_trap :: "u32 \<Rightarrow> u32 \<Rightarrow> bool \<Rightarrow> kstate \<Rightarrow> u32 \<times> kstate" where
  "walkpgdir_trap pd va alloc s =
     (let pde = entry pd (PDX va)
      in if load32 (mem s) pde AND PTE_P \<noteq> 0 then (entry (P2V (PTE_ADDR (load32 (mem s) pde))) (PTX va), s)
         else if \<not> alloc then (0, s)
         else
           let (pgtab, s) = kalloc s
           in if pgtab = 0 then (0, s)
              else
                let s = s\<lparr>mem := memset (mem s) pgtab 0 PGSIZE\<rparr>;
                    s = s\<lparr>mem := store32 (mem s) pde (V2P pgtab OR PTE_P OR PTE_W OR PTE_U)\<rparr>
                in (entry pgtab (PTX va), s))"

primrec mappages_trap_loop :: "nat \<Rightarrow> u32 \<Rightarrow> u32 \<Rightarrow> u32 \<Rightarrow> u32 \<Rightarrow> u32 \<Rightarrow> kstate \<Rightarrow> (i32, kstate) outcome" where
  "mappages_trap_loop 0 pd a lasta pa_phys perm s = Diverge"
| "mappages_trap_loop (Suc fuel) pd a lasta pa_phys perm s =
     (let (pte, s) = walkpgdir_trap pd a True s
      in if pte = 0 then Ok (- 1) s
         else if load32 (mem s) pte AND PTE_P \<noteq> 0 then Panic ''remap''
         else
           let s = s\<lparr>mem := store32 (mem s) pte (pa_phys OR perm OR PTE_P)\<rparr>
           in if a = lasta then Ok 0 s
              else mappages_trap_loop fuel pd (a + PGSIZE) lasta (pa_phys + PGSIZE) perm s)"

definition mappages_trap :: "u32 \<Rightarrow> u32 \<Rightarrow> u32 \<Rightarrow> u32 \<Rightarrow> u32 \<Rightarrow> kstate \<Rightarrow> (i32, kstate) outcome" where
  "mappages_trap pd va n pa perm s =
     mappages_trap_loop page_fuel pd (PGROUNDDOWN va) (PGROUNDDOWN (va + n - 1)) (V2P pa) perm s"

definition walkpgdir_sys :: "u32 \<Rightarrow> u32 \<Rightarrow> bool \<Rightarrow> kstate \<Rightarrow> u32 \<times> kstate" where
  "walkpgdir_sys pd va alloc s =
     (let pde = entry pd (PDX va)
      in if load32 (mem s) pde AND PTE_P \<noteq> 0 then (entry (P2V (PTE_ADDR (load32 (mem s) pde))) (PTX va), s)
         else if \<not> alloc then (0, s)
         else
           let (pgtab, s) = kalloc s
           in if pgtab = 0 then (0, s)
              else
                let s = s\<lparr>mem := memset (mem s) pgtab 0 PGSIZE\<rparr>;
                    s = s\<lparr>mem := store32 (mem s) pde (V2P pgtab OR PTE_P OR PTE_W OR PTE_U)\<rparr>
                in (entry pgtab (PTX va), s))"

primrec mappages_sys_loop :: "nat \<Rightarrow> u32 \<Rightarrow> u32 \<Rightarrow> u32 \<Rightarrow> u32 \<Rightarrow> u32 \<Rightarrow> kstate \<Rightarrow> (i32, kstate) outcome" where
  "mappages_sys_loop 0 pd a lasta pa_phys perm s = Diverge"
| "mappages_sys_loop (Suc fuel) pd a lasta pa_phys perm s =
     (let (pte, s) = walkpgdir_sys pd a True s
      in if pte = 0 then Ok (- 1) s
         else if load32 (mem s) pte AND PTE_P \<noteq> 0 then Panic ''remap''
         else
           let s = s\<lparr>mem := store32 (mem s) pte (pa_phys OR perm OR PTE_P)\<rparr>
           in if a = lasta then Ok 0 s
              else mappages_sys_loop fuel pd (a + PGSIZE) lasta (pa_phys + PGSIZE) perm s)"

definition mappages_sys :: "u32 \<Rightarrow> u32 \<Rightarrow> u32 \<Rightarrow> u32 \<Rightarrow> u32 \<Rightarrow> kstate \<Rightarrow> (i32, kstate) outcome" where
  "mappages_sys pd va n pa perm s =
     mappages_sys_loop page_fuel pd (PGROUNDDOWN va) (PGROUNDDOWN (va + n - 1)) (V2P pa) perm s"

lemma walkpgdir_copies: "walkpgdir_proc = walkpgdir" "walkpgdir_trap = walkpgdir" "walkpgdir_sys = walkpgdir"
  by (intro ext; simp add: walkpgdir_proc_def walkpgdir_trap_def walkpgdir_sys_def walkpgdir_def Let_def split: prod.split)+

lemma mappages_loop_copies:
  "mappages_proc_loop n pd a l pa perm s = mappages_loop n pd a l pa perm s"
  "mappages_trap_loop n pd a l pa perm s = mappages_loop n pd a l pa perm s"
  "mappages_sys_loop n pd a l pa perm s = mappages_loop n pd a l pa perm s"
  by (induction n arbitrary: a pa s; simp add: walkpgdir_copies Let_def split: prod.split)+

lemma mappages_eqs:
  "mappages_proc pd va n pa perm s = mappages pd va n (V2P pa) perm s"
  "mappages_trap pd va n pa perm s = mappages pd va n (V2P pa) perm s"
  "mappages_sys pd va n pa perm s = mappages pd va n (V2P pa) perm s"
  by (simp_all add: mappages_proc_def mappages_trap_def mappages_sys_def mappages_loop_copies mappages_def)


section \<open>mmap\<close>

text \<open>\<^verbatim>\<open>struct file\<close> has 24 bytes; the pointer to an open file and the file a pointer names.\<close>

definition fileaddr :: "nat option \<Rightarrow> kernel \<Rightarrow> u32" where
  "fileaddr f s = (case f of None \<Rightarrow> 0 | Some i \<Rightarrow> ftable_addr (ev s) + 24 * of_nat i)"

definition file_at :: "u32 \<Rightarrow> kernel \<Rightarrow> nat option" where
  "file_at a s = find (\<lambda>i. fileaddr (Some i) s = a) [0..<NFILE]"

text \<open>The value of \<^verbatim>\<open>p->ofile[fd]\<close>, which \<^verbatim>\<open>mmap\<close> does not check. An anonymous mapping has the descriptor
  \<open>-1\<close>: the word before the array is the field \<^verbatim>\<open>killed\<close>.\<close>

definition ofile_word :: "nat \<Rightarrow> i32 \<Rightarrow> kernel \<Rightarrow> u32 option" where
  "ofile_word me fd s =
     (if unat fd < NOFILE then Some (fileaddr (ofile (the_proc me s) ! unat fd) s)
      else if fd = - 1 then Some (killed (the_proc me s))
      else None)"

definition create_vma :: "nat \<Rightarrow> u32 \<Rightarrow> u32 \<Rightarrow> u32 \<Rightarrow> i32 \<Rightarrow> i32 \<Rightarrow> i32 \<Rightarrow> i32 \<Rightarrow> kernel \<Rightarrow> (u32, kernel) outcome" where
  "create_vma me prev nxt start len prot flgs fd s =
     (let (vma, s) = kalloc_k s in
      if vma = 0 then Fault ''create_vma: no page for the area''
      else
        let s = set_word vma 1 s;
            s = set_word (vma + 4) start s;
            s = set_word (vma + 8) (PGROUNDUP (start + len) - 1) s;
            s = set_word (vma + 20) (vm_end (mem (kst s)) vma - start) s;
            s = set_word (vma + 24) prot s;
            s = set_word (vma + 28) flgs s;
            s = set_word (vma + 32) fd s;
            s = set_word (vma + 36) (vm_start (mem (kst s)) nxt - vm_end (mem (kst s)) vma) s
        in case ofile_word me fd s of
             None \<Rightarrow> Fault ''create_vma: descriptor out of range''
           | Some f \<Rightarrow>
               let s = set_word (vma + 40) f s;
                   s = set_word (vma + 44) nxt s;
                   s = set_word (prev + 44) vma s
               in Ok vma s)"

definition mmap_read :: "nat \<Rightarrow> nat \<Rightarrow> u32 \<Rightarrow> i32 \<Rightarrow> i32 \<Rightarrow> kernel \<Rightarrow> (i32, kernel) outcome" where
  "mmap_read me f va off n s =
     (let ip = fip (files s f) in
      bindO (ilock (mypid me s) ip s) (\<lambda>_ s.
      bindO (readi (devsw_read me) (mypid me s) ip off n s) (\<lambda>(r, bs) s.
      bindO (user_store me va bs s) (\<lambda>_ s.
      bindO (iunlock (mypid me s) ip s) (\<lambda>_ s. Ok (off + r) s)))))"

text \<open>One page of a new mapping: take it, clear it, map it, and load the file into it.\<close>

definition mmap_file :: "nat \<Rightarrow> i32 \<Rightarrow> u32 \<Rightarrow> kernel \<Rightarrow> (unit, kernel) outcome" where
  "mmap_file me fd i s =
     (case map_option (\<lambda>a. file_at a s) (ofile_word me fd s) of
        Some (Some f) \<Rightarrow>
          let s = upd_file f (\<lambda>x. x\<lparr>foff := 0\<rparr>) s in
          bindO (fileread me f PGSIZE s) (\<lambda>(_, bs) s. user_store me i bs s)
      | _ \<Rightarrow> Fault ''mmap: no such file'')"

definition mmap_page :: "nat \<Rightarrow> u32 \<Rightarrow> u32 \<Rightarrow> i32 \<Rightarrow> i32 \<Rightarrow> u32 \<Rightarrow> kernel \<Rightarrow> (unit, kernel) outcome" where
  "mmap_page me new start flgs fd i s =
     (let (pa, s) = kalloc_k s in
      if pa = 0 then Panic ''kalloc''
      else
        let s = upd_mem (\<lambda>m. memset m pa 0 PGSIZE) s;
            s = (if i = start then set_word (new + 12) pa s else s) in
        bindO (with_mem (mappages_sys (pgdir (the_proc me s)) i PGSIZE pa (vm_prot (mem (kst s)) new OR PTE_U)) s) (\<lambda>r s.
        bindO (if r \<noteq> 0 then bindO (kfree_k pa s) (\<lambda>_ s. Ok () (set_proc me (\<lambda>p. p\<lparr>killed := 1\<rparr>) s)) else Ok () s) (\<lambda>_ s.
          if flgs AND MAP_ANON = 0 then mmap_file me fd i s else Ok () s)))"

primrec mmap_pages :: "nat \<Rightarrow> nat \<Rightarrow> u32 \<Rightarrow> u32 \<Rightarrow> i32 \<Rightarrow> i32 \<Rightarrow> u32 \<Rightarrow> kernel \<Rightarrow> (unit, kernel) outcome" where
  "mmap_pages 0 me new start flgs fd i s = Diverge"
| "mmap_pages (Suc fuel) me new start flgs fd i s =
     (if i < vm_end (mem (kst s)) new
      then bindO (mmap_page me new start flgs fd i s) (\<lambda>_ s. mmap_pages fuel me new start flgs fd (i + PGSIZE) s)
      else Ok () s)"

definition kprint :: "string \<Rightarrow> kernel \<Rightarrow> (unit, kernel) outcome" where
  "kprint str s = with_con (consputs (bytes str)) s"

text \<open>The rest of \<^verbatim>\<open>sys_mmap\<close> once the area \<open>cur\<close> with room behind it is found, the same in both
  branches but for the copy into the head of the list.\<close>

definition mmap_guard :: "u32 \<Rightarrow> u32 \<Rightarrow> u32 \<Rightarrow> u32 \<Rightarrow> i32 \<Rightarrow> kernel \<Rightarrow> (i32, kernel) outcome" where
  "mmap_guard prev cur new start flgs s =
     (let m = mem (kst s);
          s = (if vm_flags m prev AND MAP_GROWSUP \<noteq> 0 \<and> vm_guardstart m prev + PGSIZE = vm_start m cur
               then set_word (prev + 16) (- 1) s else s);
          m = mem (kst s)
      in if flgs AND MAP_GROWSUP \<noteq> 0 then
           if vm_start m (vm_next m new) - (vm_end m new + 1) \<ge> PGSIZE
           then Ok start (set_word (new + 16) (vm_end m new + 1) s)
           else bindO (kprint ''no room for guard page\<newline>'' s) (\<lambda>_ s. Ok (- 1) s)
         else Ok start s)"

definition copy_area :: "u32 \<Rightarrow> u32 \<Rightarrow> kernel \<Rightarrow> kernel" where
  "copy_area dst src s = upd_mem (\<lambda>m. poke m dst (peek m src 48)) s"

definition mmap_place :: "nat \<Rightarrow> bool \<Rightarrow> u32 \<Rightarrow> u32 \<Rightarrow> u32 \<Rightarrow> i32 \<Rightarrow> i32 \<Rightarrow> i32 \<Rightarrow> i32 \<Rightarrow> kernel \<Rightarrow> (i32, kernel) outcome" where
  "mmap_place me fixed prev cur start len prot flgs fd s =
     (let s = set_word (cur + 36) (vm_space_after (mem (kst s)) cur - len) s in
      bindO (create_vma me cur (vm_next (mem (kst s)) cur) start len prot flgs fd s) (\<lambda>new s.
        let s = (if fixed \<and> vm_start (mem (kst s)) new = MIN_ADDR then copy_area (vm_head me s) new s else s) in
        bindO (mmap_pages page_fuel me new start flgs fd start s) (\<lambda>_ s. mmap_guard prev cur new start flgs s)))"

text \<open>Where the loop of the branch for \<^verbatim>\<open>MAP_FIXED\<close> stops, and where the other one does.\<close>

datatype fixed_stop = Already_mapped | Room | Null_next

definition fixed_test :: "u32 \<Rightarrow> i32 \<Rightarrow> memory \<Rightarrow> u32 \<Rightarrow> fixed_stop option" where
  "fixed_test addr len m v =
     (if vm_start m v \<le> addr \<and> addr \<le> vm_end m v then Some Already_mapped
      else if vm_next m v = 0 then Some Null_next
      else if addr < vm_start m (vm_next m v) \<and> len <s vm_space_after m v then Some Room
      else None)"

definition any_test :: "i32 \<Rightarrow> memory \<Rightarrow> u32 \<Rightarrow> unit option" where
  "any_test len m v = (if len <s vm_space_after m v then Some () else None)"

definition bad_addr :: "u32 \<Rightarrow> bool" where
  "bad_addr a \<longleftrightarrow> a mod PGSIZE \<noteq> 0 \<or> a < MIN_ADDR \<or> MAX_ADDR \<le> a"

definition mmap_fixed :: "nat \<Rightarrow> u32 \<Rightarrow> i32 \<Rightarrow> i32 \<Rightarrow> i32 \<Rightarrow> i32 \<Rightarrow> kernel \<Rightarrow> (i32, kernel) outcome" where
  "mmap_fixed me addr len prot flgs fd s =
     (if bad_addr addr then
        bindO (kprint ''Address is not page-alligned or is out of bounds.\<newline>'' s) (\<lambda>_ s. Ok (- 1) s)
      else let m = mem (kst s) in
        case vma_walk (fixed_test addr len m) m (vm_head me s) (vm_head me s) of
          None \<Rightarrow> Diverge
        | Some Null \<Rightarrow> Fault ''mmap: null area''
        | Some End \<Rightarrow> Ok (- 1) s
        | Some (Stop Already_mapped _ _) \<Rightarrow> bindO (kprint ''Address has already been mapped.\<newline>'' s) (\<lambda>_ s. Ok (- 1) s)
        | Some (Stop Null_next _ _) \<Rightarrow> Fault ''mmap: null area''
        | Some (Stop Room prev cur) \<Rightarrow> mmap_place me True prev cur addr len prot flgs fd s)"

definition mmap_any :: "nat \<Rightarrow> i32 \<Rightarrow> i32 \<Rightarrow> i32 \<Rightarrow> i32 \<Rightarrow> kernel \<Rightarrow> (i32, kernel) outcome" where
  "mmap_any me len prot flgs fd s =
     (let m = mem (kst s) in
      case vma_walk (any_test len m) m (vm_head me s) (vm_head me s) of
        None \<Rightarrow> Diverge
      | Some Null \<Rightarrow> Fault ''mmap: null area''
      | Some End \<Rightarrow> Ok (- 1) s
      | Some (Stop _ prev cur) \<Rightarrow> mmap_place me False prev cur (vm_end m cur + 1) len prot flgs fd s)"

definition sys_mmap :: "nat \<Rightarrow> kernel \<Rightarrow> (i32, kernel) outcome" where
  "sys_mmap me s = bindO (argints me 0 6 s) (\<lambda>xs s.
     case xs of
       Some [addr, len, prot, flgs, fd, offs] \<Rightarrow>
         if flgs AND MAP_FIXED \<noteq> 0 then mmap_fixed me addr len prot flgs fd s else mmap_any me len prot flgs fd s
     | _ \<Rightarrow> bindO (kprint ''ARG ERR\<newline>'' s) (\<lambda>_ s. Ok (- 1) s))"

section \<open>munmap\<close>

text \<open>\<^verbatim>\<open>filewrite\<close> with its bytes at the user address \<open>va\<close>.\<close>

definition filewrite_user :: "nat \<Rightarrow> nat \<Rightarrow> u32 \<Rightarrow> i32 \<Rightarrow> kernel \<Rightarrow> (i32, kernel) outcome" where
  "filewrite_user me f va n s =
     (if writable (files s f) = 0 \<or> ftype (files s f) = FD_NONE then filewrite me f [] n s
      else bindO (user_load me va (rounds n) s) (\<lambda>bs s. filewrite me f bs n s))"

text \<open>The loop over the pages, as it is written: the test of the result of \<^verbatim>\<open>walkpgdir\<close> is the wrong
  way round, so an entry that exists is left alone and a missing one is used as a pointer.\<close>

primrec munmap_pages :: "nat \<Rightarrow> nat \<Rightarrow> u32 \<Rightarrow> u32 \<Rightarrow> kernel \<Rightarrow> (unit, kernel) outcome" where
  "munmap_pages 0 me i end_addr s = Diverge"
| "munmap_pages (Suc fuel) me i end_addr s =
     (if i < end_addr then
        let (pte, k) = walkpgdir_sys (pgdir (the_proc me s)) i False (kst s); s = s\<lparr>kst := k\<rparr>
        in if pte = 0 then Fault ''munmap: null page table entry''
           else munmap_pages fuel me (i + PGSIZE) end_addr s
      else Ok () s)"

text \<open>\<^verbatim>\<open>curr\<close> is a local copy of an area, and \<^verbatim>\<open>vm\<close> and \<^verbatim>\<open>prev\<close> point to it: the changes \<^verbatim>\<open>sys_munmap\<close> makes
  through them end with the call.\<close>

definition munmap_test :: "u32 \<Rightarrow> memory \<Rightarrow> u32 \<Rightarrow> unit option" where
  "munmap_test addr m v = (if addr = vm_start m v \<and> vm_valid m v = 1 then Some () else None)"

definition munmap_writeback :: "nat \<Rightarrow> u32 \<Rightarrow> kernel \<Rightarrow> (unit, kernel) outcome" where
  "munmap_writeback me v s =
     (let m = mem (kst s) in
      if vm_flags m v AND MAP_ANON = 0 \<and> vm_flags m v AND MAP_PRIVATE = 0 then
        case file_at (vm_f m v) s of
          None \<Rightarrow> Fault ''munmap: no such file''
        | Some f \<Rightarrow> bindO (filewrite_user me f (vm_start m v) (vm_len m v) (upd_file f (\<lambda>x. x\<lparr>foff := 0\<rparr>) s)) (\<lambda>_ s. Ok () s)
      else Ok () s)"

definition sys_munmap :: "nat \<Rightarrow> kernel \<Rightarrow> (i32, kernel) outcome" where
  "sys_munmap me s = bindO (argints me 0 2 s) (\<lambda>xs s.
     case xs of
       Some [addr, len] \<Rightarrow>
         if bad_addr addr then Ok (- 1) s
         else let m = mem (kst s) in
           (case vma_walk (munmap_test addr m) m (vm_head me s) (vm_head me s) of
              None \<Rightarrow> Diverge
            | Some Null \<Rightarrow> Fault ''munmap: null area''
            | Some End \<Rightarrow> Ok (- 1) s
            | Some (Stop _ _ v) \<Rightarrow>
                bindO (munmap_writeback me v s) (\<lambda>_ s.
                bindO (munmap_pages page_fuel me addr (addr + len) s) (\<lambda>_ s. Ok 0 s)))
     | _ \<Rightarrow> Ok (- 1) s)"

section \<open>What munmap does\<close>

lemma walkpgdir_no_alloc: "walkpgdir pd va False k = (fst (walkpgdir pd va False k), k)"
  by (simp add: walkpgdir_def Let_def)

lemma munmap_pages_step:
  "munmap_pages (Suc fuel) me i e s =
     (if i < e then
        if fst (walkpgdir (pgdir (the_proc me s)) i False (kst s)) = 0 then Fault ''munmap: null page table entry''
        else munmap_pages fuel me (i + PGSIZE) e s
      else Ok () s)"
  using walkpgdir_no_alloc [of "pgdir (the_proc me s)" i "kst s"]
  by (cases "walkpgdir (pgdir (the_proc me s)) i False (kst s)") (simp add: walkpgdir_copies)

declare munmap_pages.simps(2) [simp del]

lemma munmap_pages_idle:
  assumes "\<And>va. i \<le> va \<Longrightarrow> va < e \<Longrightarrow> fst (walkpgdir (pgdir (the_proc me s)) va False (kst s)) \<noteq> 0"
    and "unat e + 4096 \<le> 4294967296" "unat e + 4096 \<le> unat i + 4096 * fuel" "0 < fuel"
  shows "munmap_pages fuel me i e s = Ok () s"
  using assms(1,3,4)
proof (induction fuel arbitrary: i)
  case (Suc fuel)
  show ?case
  proof (cases "i < e")
    case True
    have i: "unat (i + PGSIZE) = unat i + 4096"
      using True assms(2) by (subst unat_add_lt) (simp_all add: u32_less_iff_unat)
    have "munmap_pages fuel me (i + PGSIZE) e s = Ok () s"
      by (rule Suc.IH) (use Suc.prems i True in \<open>auto simp: u32_le_iff_unat u32_less_iff_unat\<close>)
    then show ?thesis
      using Suc.prems(1) [of i] True by (simp add: munmap_pages_step)
  qed (simp add: munmap_pages_step)
qed simp

text \<open>
  C5: \<^verbatim>\<open>munmap\<close> of an anonymous or private mapping returns success and changes nothing at all: the
  pages stay mapped and allocated, the area stays in the list, and no guard page comes back.
  The routine unlinks a local copy of the area, and the loop that should free the pages
  skips every page table entry it finds.
\<close>

theorem munmap_releases_nothing:
  assumes "argints me 0 2 s = Ok (Some [addr, len]) s" "\<not> bad_addr addr" "0 \<le>s len"
    and "vma_walk (munmap_test addr (mem (kst s))) (mem (kst s)) (vm_head me s) (vm_head me s) = Some (Stop () p v)"
    and "vm_flags (mem (kst s)) v AND (MAP_ANON OR MAP_PRIVATE) \<noteq> 0"
    and "\<And>va. addr \<le> va \<Longrightarrow> va < addr + len \<Longrightarrow> fst (walkpgdir (pgdir (the_proc me s)) va False (kst s)) \<noteq> 0"
  shows "sys_munmap me s = Ok 0 s"
proof -
  have len: "unat len < 2147483648"
    using assms(3) i32_neg_iff [of len] by (simp add: word_sle_eq word_sless_alt not_le)
  have "addr < KERNBASE" "page_aligned addr"
    using assms(2) by (simp_all add: bad_addr_def MAX_ADDR_def page_aligned_def not_le)
  then have addr: "unat addr \<le> 2147479552"
    using page_between [of addr "0x7FFFF000"] by (cases "unat addr \<le> 2147479552") (simp_all add: u32_less_iff_unat page_aligned_def)
  then have e: "unat (addr + len) = unat addr + unat len"
    using len by (subst unat_add_lt) simp_all
  have "munmap_pages page_fuel me addr (addr + len) s = Ok () s"
    by (rule munmap_pages_idle [OF assms(6)]) (use addr len in \<open>simp_all add: e page_fuel_def\<close>)
  moreover have "munmap_writeback me v s = Ok () s"
    using assms(5) by (auto simp: munmap_writeback_def Let_def bit.conj_disj_distrib)
  ultimately show ?thesis
    using assms(1,2,4) by (simp add: sys_munmap_def Let_def)
qed

text \<open>A process with one anonymous page mapped at \<open>0x60000000\<close>, which is about to unmap it.\<close>

definition demo_mmap_mem :: memory where
  "demo_mmap_mem = foldl (\<lambda>m (a, x). store32 m a x) (demo_umem [0x60000000, 4096])
     [(0x80120600, 0x122007), (0x80122000, 0x131007),
      (0x8010C07C, 1), (0x8010C080, 0x60000000), (0x8010C084, 0x60000FFF), (0x8010C098, 4), (0x8010C0A8, 0x8010C0AC),
      (0x8010C0B0, 0x80000000)]"

lemma demo_mmap_words:
  "demo_layout demo_mmap_mem" "load32 demo_mmap_mem 0x80130004 = 0x60000000" "load32 demo_mmap_mem 0x80130008 = 4096"
  "load32 demo_mmap_mem 0x80120600 = 0x122007" "load32 demo_mmap_mem 0x8010C07C = 1" "load32 demo_mmap_mem 0x8010C080 = 0x60000000"
  "load32 demo_mmap_mem 0x8010C098 = 4"
  by (simp_all add: demo_layout_def demo_mmap_mem_def demo_umem_def load32_def store32_def)

theorem munmap_releases_nothing_witness:
  "sys_munmap 0 (demo_kernel demo_mmap_mem) = Ok 0 (demo_kernel demo_mmap_mem)"
proof (rule munmap_releases_nothing)
  let ?s = "demo_kernel demo_mmap_mem"
  have head: "vm_head 0 ?s = 0x8010C07C"
    by (simp add: vm_head_def demo_kernel_def kernel.defs fs.defs logst.defs procaddr_def)
  show "argints 0 0 2 ?s = Ok (Some [0x60000000, 4096]) ?s"
    by (simp add: numeral_2_eq_2 demo_argint demo_mmap_words)
  show "vma_walk (munmap_test 0x60000000 (mem (kst ?s))) (mem (kst ?s)) (vm_head 0 ?s) (vm_head 0 ?s) =
      Some (Stop () 0x8010C07C 0x8010C07C)"
    by (subst vma_walk.simps) (simp add: head munmap_test_def vm_start_def vm_valid_def demo_mmap_words MAX_ADDR_def)
  show "fst (walkpgdir (pgdir (the_proc 0 ?s)) va False (kst ?s)) \<noteq> 0"
    if "0x60000000 \<le> va" "va < 0x60000000 + 4096" for va
  proof -
    have "unat va div 4194304 = 384"
      using that by (intro div_nat_eqI) (simp_all add: u32_le_iff_unat u32_less_iff_unat)
    then have "PDX va = 384"
      by (simp add: u32_eq_iff_unat unat_PDX)
    moreover have "entry 0x80122000 (PTX va) \<noteq> 0"
      by (rule kpage_entry_nonzero [of demo_syms]) (simp_all add: kpage_def demo_syms_def page_aligned_def V2P_def)
    ultimately show ?thesis
      by (simp add: walkpgdir_def Let_def demo_mmap_words P2V_def PTE_ADDR_def entry_def)
  qed
qed (simp_all add: bad_addr_def MIN_ADDR_def MAX_ADDR_def vm_flags_def demo_mmap_words MAP_ANON_def MAP_PRIVATE_def word_sle_eq)

end
