(* ===== verification/Proc.thy ===== *)
theory Proc
  imports Vma
begin

text \<open>
  Processes as a whole (\<^verbatim>\<open>proc.c\<close>): creation, growth, \<^verbatim>\<open>fork\<close>, \<^verbatim>\<open>exit\<close> and \<^verbatim>\<open>wait\<close> on the state of the
  kernel, with their effect on memory, open files and directories. What they do to the table
  under its lock is in the theory \<^verbatim>\<open>Ptable\<close>; a process that has to sleep never returns here.
\<close>

section \<open>Creation\<close>

definition KSTACKSIZE :: u32 where
  "KSTACKSIZE = 4096"

definition set_ptb :: "(ptab \<Rightarrow> ptab) \<Rightarrow> kernel \<Rightarrow> kernel" where
  "set_ptb f s = s\<lparr>ptb := f (ptb s)\<rparr>"

text \<open>The new process has room for a trap frame at the top of its kernel stack, below it the
  return address \<^verbatim>\<open>trapret\<close> and a context that starts at \<^verbatim>\<open>forkret\<close>.\<close>

definition allocproc :: "kernel \<Rightarrow> nat option \<times> kernel" where
  "allocproc s = (case alloc_slot (ptb s) of
     (None, _) \<Rightarrow> (None, s)
   | (Some i, t) \<Rightarrow>
       let s = s\<lparr>ptb := t\<rparr>;
           (k, s) = kalloc_k s;
           s = set_proc i (\<lambda>p. p\<lparr>kstack := k\<rparr>) s
       in if k = 0 then (None, set_proc i (\<lambda>p. p\<lparr>pstate := UNUSED\<rparr>) s)
          else
            let sp = k + KSTACKSIZE - tf_size;
                s = set_proc i (\<lambda>p. p\<lparr>tf := sp\<rparr>) s;
                sp = sp - 4;
                s = set_word sp (trapret (ev s)) s;
                sp = sp - 20;
                s = set_proc i (\<lambda>p. p\<lparr>pcontext := sp\<rparr>) s;
                s = upd_mem (\<lambda>m. memset m sp 0 20) s;
                s = set_word (sp + 16) (forkret (ev s)) s
            in (Some i, s))"

text \<open>\<^verbatim>\<open>safestrcpy\<close> into the 16 bytes of a process name.\<close>

definition name_copy :: "u8 list \<Rightarrow> u8 list \<Rightarrow> u8 list" where
  "name_copy old src = (let k = takeWhile (\<lambda>c. c \<noteq> 0) (take 15 src) in splice old 0 (k @ [0]))"

definition SEG_UCODE :: u32 where
  "SEG_UCODE = 3"

definition SEG_UDATA :: u32 where
  "SEG_UDATA = 4"

definition DPL_USER :: u32 where
  "DPL_USER = 3"

definition userinit :: "kernel \<Rightarrow> (unit, kernel) outcome" where
  "userinit s = (case allocproc s of
     (None, s) \<Rightarrow> Fault ''userinit: no process''
   | (Some i, s) \<Rightarrow>
       let s = set_ptb (\<lambda>t. t\<lparr>initproc := Some i\<rparr>) s in
       bindO (with_mem (setupkvm (ksy (ev s))) s) (\<lambda>pd s.
         let s = set_proc i (\<lambda>p. p\<lparr>pgdir := pd\<rparr>) s in
         if pd = 0 then Panic ''userinit: out of memory?''
         else bindO (with_mem (inituvm pd (initcode (ev s))) s) (\<lambda>_ s.
           let s = set_proc i (\<lambda>p. p\<lparr>sz := PGSIZE\<rparr>) s;
               s = upd_mem (\<lambda>m. memset m (tf (the_proc i s)) 0 tf_size) s;
               ds = push_bit 3 SEG_UDATA OR DPL_USER;
               s = tf_set i TF_cs (push_bit 3 SEG_UCODE OR DPL_USER) s;
               s = tf_set i TF_ds ds s;
               s = tf_set i TF_es ds s;
               s = tf_set i TF_ss ds s;
               s = tf_set i TF_eflags FL_IF s;
               s = tf_set i TF_esp PGSIZE s;
               s = tf_set i TF_eip 0 s;
               s = set_proc i (\<lambda>p. p\<lparr>pname := name_copy (pname p) (bytes ''initcode'')\<rparr>) s
           in bindO (namei (devsw_read i) (mypid i s) 0 (bytes ''/'') s) (\<lambda>ip s.
                Ok () (set_proc i (\<lambda>p. p\<lparr>cwd := ip, pstate := RUNNABLE\<rparr>) s)))))"

section \<open>Switching and growing\<close>

text \<open>What \<^verbatim>\<open>switchuvm\<close> loads into the processor: the stack for traps from user mode, the
  permission map for ports, and the page directory.\<close>

record taskstate =
  ss0 :: u16
  esp0 :: u32
  iomb :: u16
  cr3 :: u32

definition switchuvm :: "proc option \<Rightarrow> 's \<Rightarrow> (taskstate, 's) outcome" where
  "switchuvm p s = (case p of
     None \<Rightarrow> Panic ''switchuvm: no process''
   | Some p \<Rightarrow>
       if kstack p = 0 then Panic ''switchuvm: no kstack''
       else if pgdir p = 0 then Panic ''switchuvm: no pgdir''
       else Ok \<lparr>ss0 = 16, esp0 = kstack p + KSTACKSIZE, iomb = 0xFFFF, cr3 = V2P (pgdir p)\<rparr> s)"

definition growproc :: "nat \<Rightarrow> i32 \<Rightarrow> kernel \<Rightarrow> (i32, kernel) outcome" where
  "growproc me n s =
     (let pd = pgdir (the_proc me s); z = sz (the_proc me s) in
      bindO (if 0 <s n then with_mem (allocuvm (ksy (ev s)) pd z (z + n)) s
             else if n <s 0 then with_mem (deallocuvm (ksy (ev s)) pd z (z + n)) s
             else Ok z s) (\<lambda>z s.
        if n \<noteq> 0 \<and> z = 0 then Ok (- 1) s
        else
          let s = set_proc me (\<lambda>p. p\<lparr>sz := z\<rparr>) s
          in bindO (switchuvm (Some (the_proc me s)) s) (\<lambda>_ s. Ok 0 s)))"

section \<open>fork\<close>

definition copy_vma :: "u32 \<Rightarrow> u32 \<Rightarrow> kernel \<Rightarrow> kernel" where
  "copy_vma dst src s =
     (let s = set_word dst 1 s;
          s = set_word (dst + 4) (vm_start (mem (kst s)) src) s;
          s = set_word (dst + 8) (vm_end (mem (kst s)) src) s;
          s = set_word (dst + 20) (vm_len (mem (kst s)) src) s;
          s = set_word (dst + 24) (vm_prot (mem (kst s)) src) s;
          s = set_word (dst + 28) (vm_flags (mem (kst s)) src) s;
          s = set_word (dst + 32) (vm_fd (mem (kst s)) src) s
      in set_word (dst + 40) (vm_f (mem (kst s)) src) s)"

text \<open>Giving the child \<open>i\<close> the mapped areas of its parent \<open>me\<close>. A shared area maps every page to
  the one page recorded in the area; a private one is copied page by page.\<close>

primrec fork_shared :: "nat \<Rightarrow> nat \<Rightarrow> u32 \<Rightarrow> u32 \<Rightarrow> kernel \<Rightarrow> (unit, kernel) outcome" where
  "fork_shared 0 np v i s = Diverge"
| "fork_shared (Suc fuel) np v i s =
     (let m = mem (kst s) in
      if i < vm_end m v then
        bindO (with_mem (mappages_proc (pgdir (the_proc np s)) i PGSIZE (vm_pa m v) (vm_prot m v OR PTE_U)) s) (\<lambda>r s.
        bindO (if r \<noteq> 0
               then bindO (kfree_k (vm_pa (mem (kst s)) v) s) (\<lambda>_ s. Ok () (set_proc np (\<lambda>p. p\<lparr>killed := 1\<rparr>) s))
               else Ok () s) (\<lambda>_ s.
          fork_shared fuel np v (i + PGSIZE) s))
      else Ok () s)"

primrec fork_private :: "nat \<Rightarrow> nat \<Rightarrow> nat \<Rightarrow> u32 \<Rightarrow> u32 \<Rightarrow> kernel \<Rightarrow> (unit, kernel) outcome" where
  "fork_private 0 me np v i s = Diverge"
| "fork_private (Suc fuel) me np v i s =
     (if i < vm_end (mem (kst s)) v then
        bindO (kprint ''iter\<newline>'' s) (\<lambda>_ s.
          let (pa, s) = kalloc_k s in
          if pa = 0 then Panic ''kalloc''
          else
            let (pte, k) = walkpgdir_proc (pgdir (the_proc me s)) i False (kst s); s = s\<lparr>kst := k\<rparr> in
            if pte = 0 then Fault ''fork: null page table entry''
            else
              let s = upd_mem (\<lambda>m. memmove m pa (P2V (PTE_ADDR (load32 m pte))) PGSIZE) s in
              bindO (with_mem (mappages_proc (pgdir (the_proc np s)) i PGSIZE pa (vm_prot (mem (kst s)) v OR PTE_U)) s) (\<lambda>r s.
              bindO (if r \<noteq> 0
                     then bindO (kfree_k pa s) (\<lambda>_ s. Ok () (set_proc np (\<lambda>p. p\<lparr>killed := 1\<rparr>) s))
                     else Ok () s) (\<lambda>_ s.
                fork_private fuel me np v (i + PGSIZE) s)))
      else Ok () s)"

text \<open>The loop over the areas. Each area but the first and the last lies in a page of its own,
  so a walk longer than \<open>page_fuel\<close> runs in a circle.\<close>

primrec fork_areas :: "nat \<Rightarrow> nat \<Rightarrow> nat \<Rightarrow> u32 \<Rightarrow> kernel \<Rightarrow> (unit, kernel) outcome" where
  "fork_areas 0 me np v s = Diverge"
| "fork_areas (Suc fuel) me np v s =
     (let m = mem (kst s) in
      if v = 0 then Fault ''fork: null area''
      else if vm_start m v = MAX_ADDR then Ok () s
      else
        bindO (if vm_flags m v AND MAP_SHARED \<noteq> 0 then fork_shared page_fuel np v (vm_start m v) s
               else if vm_flags m v AND MAP_PRIVATE \<noteq> 0 then fork_private page_fuel me np v (vm_start m v) s
               else Ok () s) (\<lambda>_ s.
          fork_areas fuel me np (vm_next (mem (kst s)) v) s))"

primrec fork_files :: "nat \<Rightarrow> nat \<Rightarrow> nat \<Rightarrow> nat \<Rightarrow> kernel \<Rightarrow> (unit, kernel) outcome" where
  "fork_files me np i 0 s = Ok () s"
| "fork_files me np i (Suc n) s =
     (case ofile (the_proc me s) ! i of
        None \<Rightarrow> fork_files me np (Suc i) n s
      | Some f \<Rightarrow> bindO (filedup f s) (\<lambda>f s.
          fork_files me np (Suc i) n (set_proc np (\<lambda>p. p\<lparr>ofile := (ofile p)[i := Some f]\<rparr>) s)))"

definition fork :: "nat \<Rightarrow> kernel \<Rightarrow> (i32, kernel) outcome" where
  "fork me s = (case allocproc s of
     (None, s) \<Rightarrow> Ok (- 1) s
   | (Some np, s) \<Rightarrow>
       bindO (with_mem (copyuvm (ksy (ev s)) (pgdir (the_proc me s)) (sz (the_proc me s))) s) (\<lambda>pd s.
         let s = set_proc np (\<lambda>p. p\<lparr>pgdir := pd\<rparr>) s in
         if pd = 0 then
           bindO (kfree_k (kstack (the_proc np s)) s) (\<lambda>_ s.
             Ok (- 1) (set_proc np (\<lambda>p. p\<lparr>kstack := 0, pstate := UNUSED\<rparr>) s))
         else
           let s = set_proc np (\<lambda>p. p\<lparr>sz := sz (the_proc me s), parent := Some me\<rparr>) s;
               s = upd_mem (\<lambda>m. poke m (tf (the_proc np s)) (peek m (tf (the_proc me s)) (unat tf_size))) s;
               s = tf_set np TF_eax 0 s
           in bindO (fork_files me np 0 NOFILE s) (\<lambda>_ s.
              case cwd (the_proc me s) of
                None \<Rightarrow> Fault ''fork: no current directory''
              | Some ip \<Rightarrow>
                  let s = set_proc np (\<lambda>p. p\<lparr>cwd := Some ip\<rparr>) (idup ip s);
                      s = set_proc np (\<lambda>p. p\<lparr>pname := name_copy (pname p) (pname (the_proc me s))\<rparr>) s
                  in bindO (fork_areas page_fuel me np (vm_head me s) s) (\<lambda>_ s.
                       Ok (pid (the_proc np s)) (set_proc np (\<lambda>p. p\<lparr>pstate := RUNNABLE\<rparr>) s)))))"

section \<open>exit and wait\<close>

primrec exit_files :: "nat \<Rightarrow> nat \<Rightarrow> nat \<Rightarrow> kernel \<Rightarrow> (unit, kernel) outcome" where
  "exit_files me fd 0 s = Ok () s"
| "exit_files me fd (Suc n) s =
     (case ofile (the_proc me s) ! fd of
        None \<Rightarrow> exit_files me (Suc fd) n s
      | Some f \<Rightarrow> bindO (fileclose me f s) (\<lambda>_ s.
          exit_files me (Suc fd) n (set_proc me (\<lambda>p. p\<lparr>ofile := (ofile p)[fd := None]\<rparr>) s)))"

text \<open>\<^verbatim>\<open>exit\<close> up to the switch to the scheduler, from which it does not come back.\<close>

definition exit :: "nat \<Rightarrow> kernel \<Rightarrow> (unit, kernel) outcome" where
  "exit me s =
     (if initproc (ptb s) = Some me then Panic ''init exiting''
      else
        bindO (exit_files me 0 NOFILE s) (\<lambda>_ s.
        bindO (begin_op s) (\<lambda>_ s.
        case cwd (the_proc me s) of
          None \<Rightarrow> Fault ''exit: no current directory''
        | Some ip \<Rightarrow>
            bindO (iput (mypid me s) ip s) (\<lambda>_ s.
            bindO (end_op (mypid me s) s) (\<lambda>_ s.
              let s = set_proc me (\<lambda>p. p\<lparr>cwd := None\<rparr>) s in
              bindO (with_mem (deallocuvm (ksy (ev s)) (pgdir (the_proc me s)) (sz (the_proc me s)) 0) s) (\<lambda>_ s.
                Ok () (set_ptb (exit_table (ptable_addr (ev s)) me) s)))))))"

definition wait :: "nat \<Rightarrow> kernel \<Rightarrow> (i32, kernel) outcome" where
  "wait me s = (case wait_scan me (procs (ptb s)) of
     (_, Some i) \<Rightarrow>
       let p = the_proc i s in
       bindO (kfree_k (kstack p) s) (\<lambda>_ s.
       bindO (with_mem (freevm (ksy (ev s)) (pgdir p)) s) (\<lambda>_ s.
         Ok (pid p) (set_ptb (\<lambda>t. t\<lparr>procs := wait_reap i (procs t)\<rparr>) s)))
   | (kids, None) \<Rightarrow> if \<not> kids \<or> killed (the_proc me s) \<noteq> 0 then Ok (- 1) s else Diverge)"

text \<open>The first process to run starts the file system; \<open>first\<close> is the routine's static variable.\<close>

definition forkret_start :: "nat \<Rightarrow> bool \<Rightarrow> kernel \<Rightarrow> (unit, kernel) outcome" where
  "forkret_start me first s =
     (if first then bindO (iinit (mypid me s) 1 s) (\<lambda>_ s. initlog (mypid me s) 1 s) else Ok () s)"

end
