(* ===== verification/Exec.thy ===== *)
theory Exec
  imports Proc
begin

text \<open>
  \<^verbatim>\<open>exec\<close>: the image of a program is read from an ELF file into a new address space, the
  arguments are pushed on its stack, and the process changes over to it.
\<close>

section \<open>File headers\<close>

text \<open>\<^verbatim>\<open>struct elfhdr\<close> (52 bytes) and \<^verbatim>\<open>struct proghdr\<close> (32 bytes), the fields in use.\<close>

record elfhdr =
  elf_magic :: u32
  elf_entry :: u32
  elf_phoff :: u32
  elf_phnum :: u16

definition elfhdr_of :: "u8 list \<Rightarrow> elfhdr" where
  "elfhdr_of d = \<lparr>elf_magic = get32 d 0, elf_entry = get32 d 24, elf_phoff = get32 d 28, elf_phnum = get16 d 44\<rparr>"

record proghdr =
  ph_type :: u32
  ph_off :: u32
  ph_vaddr :: u32
  ph_filesz :: u32
  ph_memsz :: u32

definition proghdr_of :: "u8 list \<Rightarrow> proghdr" where
  "proghdr_of d = \<lparr>ph_type = get32 d 0, ph_off = get32 d 4, ph_vaddr = get32 d 8, ph_filesz = get32 d 16, ph_memsz = get32 d 20\<rparr>"

definition ELF_MAGIC :: u32 where
  "ELF_MAGIC = 0x464C457F"

definition ELF_PROG_LOAD :: u32 where
  "ELF_PROG_LOAD = 1"

definition MAXARG :: nat where
  "MAXARG = 32"

section \<open>Loading\<close>

text \<open>\<^verbatim>\<open>loaduvm\<close> with the file system in the state.\<close>

primrec loaduvm_ip_loop :: "nat \<Rightarrow> nat \<Rightarrow> u32 \<Rightarrow> u32 \<Rightarrow> nat \<Rightarrow> u32 \<Rightarrow> u32 \<Rightarrow> u32 \<Rightarrow> kernel \<Rightarrow> (i32, kernel) outcome" where
  "loaduvm_ip_loop 0 me pd addr ip offset n i s = Diverge"
| "loaduvm_ip_loop (Suc fuel) me pd addr ip offset n i s =
     (if i < n then
        let (pte, k) = walkpgdir pd (addr + i) False (kst s); s = s\<lparr>kst := k\<rparr> in
        if pte = 0 then Panic ''loaduvm: address should exist''
        else
          let pa = PTE_ADDR (load32 (mem (kst s)) pte);
              c = (if n - i < PGSIZE then n - i else PGSIZE) in
          bindO (readi (devsw_read me) (mypid me s) ip (offset + i) c s) (\<lambda>(r, bs) s.
            let s = upd_mem (\<lambda>m. poke m (P2V pa) bs) s in
            if r \<noteq> c then Ok (- 1) s
            else loaduvm_ip_loop fuel me pd addr ip offset n (i + PGSIZE) s)
      else Ok 0 s)"

definition loaduvm_ip :: "nat \<Rightarrow> u32 \<Rightarrow> u32 \<Rightarrow> nat \<Rightarrow> u32 \<Rightarrow> u32 \<Rightarrow> kernel \<Rightarrow> (i32, kernel) outcome" where
  "loaduvm_ip me pd addr ip offset n s =
     (if addr mod PGSIZE \<noteq> 0 then Panic ''loaduvm: addr must be page aligned''
      else loaduvm_ip_loop page_fuel me pd addr ip offset n 0 s)"

text \<open>The loop over the program headers: the size of the image, or \<open>None\<close> for \<^verbatim>\<open>goto bad\<close>.\<close>

primrec exec_load :: "nat \<Rightarrow> u32 \<Rightarrow> nat \<Rightarrow> nat \<Rightarrow> u32 \<Rightarrow> u32 \<Rightarrow> kernel \<Rightarrow> (u32 option, kernel) outcome" where
  "exec_load me pd ip 0 off z s = Ok (Some z) s"
| "exec_load me pd ip (Suc n) off z s =
     bindO (readi (devsw_read me) (mypid me s) ip off 32 s) (\<lambda>(r, d) s.
       let ph = proghdr_of d in
       if r \<noteq> 32 then Ok None s
       else if ph_type ph \<noteq> ELF_PROG_LOAD then exec_load me pd ip n (off + 32) z s
       else if ph_memsz ph < ph_filesz ph then Ok None s
       else if ph_vaddr ph + ph_memsz ph < ph_vaddr ph then Ok None s
       else bindO (with_mem (allocuvm (ksy (ev s)) pd z (ph_vaddr ph + ph_memsz ph)) s) (\<lambda>z s.
         if z = 0 then Ok None s
         else if ph_vaddr ph mod PGSIZE \<noteq> 0 then Ok None s
         else bindO (loaduvm_ip me pd (ph_vaddr ph) ip (ph_off ph) (ph_filesz ph) s) (\<lambda>r s.
           if r <s 0 then Ok None s else exec_load me pd ip n (off + 32) z s)))"

text \<open>The argument strings are pushed one by one; the result is the stack pointer and the
  addresses of the strings.\<close>

primrec exec_args :: "u32 \<Rightarrow> nat \<Rightarrow> u8 list list \<Rightarrow> u32 \<Rightarrow> u32 list \<Rightarrow> kernel \<Rightarrow> ((u32 \<times> u32 list) option, kernel) outcome" where
  "exec_args pd n [] sp us s = Ok (Some (sp, us)) s"
| "exec_args pd n (a # as) sp us s =
     (if MAXARG \<le> n then Ok None s
      else
        let sp = (sp - (of_nat (length a) + 1)) AND NOT 3 in
        bindO (with_mem (copyout pd sp (a @ [0])) s) (\<lambda>r s.
          if r <s 0 then Ok None s else exec_args pd (Suc n) as sp (us @ [sp]) s))"

definition word_bytes :: "u32 \<Rightarrow> u8 list" where
  "word_bytes x = put32 (replicate 4 0) 0 x"

text \<open>The words below the strings: a return address, \<^verbatim>\<open>argc\<close>, \<^verbatim>\<open>argv\<close>, the pointers and a null pointer.\<close>

definition exec_ustack :: "u32 \<Rightarrow> u32 list \<Rightarrow> u32 list" where
  "exec_ustack sp us = [0xFFFFFFFF, of_nat (length us), sp - (of_nat (length us) + 1) * 4] @ us @ [0]"

definition exec_stack :: "u32 \<Rightarrow> u32 \<Rightarrow> u8 list list \<Rightarrow> kernel \<Rightarrow> (u32 option, kernel) outcome" where
  "exec_stack pd z argv s = bindO (exec_args pd 0 argv z [] s) (\<lambda>r s.
     case r of
       None \<Rightarrow> Ok None s
     | Some (sp, us) \<Rightarrow>
         let ws = exec_ustack sp us; sp = sp - (of_nat (length us) + 4) * 4 in
         bindO (with_mem (copyout pd sp (concat (map word_bytes ws))) s) (\<lambda>r s.
           Ok (if r <s 0 then None else Some sp) s))"

definition last_elem :: "u8 list \<Rightarrow> u8 list" where
  "last_elem path = rev (takeWhile (\<lambda>c. c \<noteq> 47) (rev path))"

text \<open>The empty list of mapped areas.\<close>

definition init_areas :: "nat \<Rightarrow> kernel \<Rightarrow> kernel" where
  "init_areas me s =
     (let h = vm_head me s; t = vm_tail me s;
          s = set_word h 0 s;
          s = set_word (h + 4) 0x60000000 s;
          s = set_word (h + 8) 0x5FFFFFFF s;
          s = set_word (h + 20) 0 s;
          s = set_word (h + 36) 0x20000000 s;
          s = set_word t 0 s;
          s = set_word (t + 4) 0x80000000 s;
          s = set_word (t + 8) 0x80000000 s;
          s = set_word (t + 20) 0 s;
          s = set_word (t + 44) 0 s
      in set_word (h + 44) t s)"

definition exec_commit :: "nat \<Rightarrow> u8 list \<Rightarrow> u32 \<Rightarrow> u32 \<Rightarrow> u32 \<Rightarrow> u32 \<Rightarrow> kernel \<Rightarrow> (i32, kernel) outcome" where
  "exec_commit me path pd z sp entry_pc s =
     (let s = set_proc me (\<lambda>p. p\<lparr>pname := name_copy (pname p) (last_elem path)\<rparr>) s;
          s = init_areas me s;
          oldpgdir = pgdir (the_proc me s);
          s = set_proc me (\<lambda>p. p\<lparr>pgdir := pd, sz := z\<rparr>) s;
          s = tf_set me TF_eip entry_pc s;
          s = tf_set me TF_esp sp s
      in bindO (switchuvm (Some (the_proc me s)) s) (\<lambda>_ s.
         bindO (with_mem (freevm (ksy (ev s)) oldpgdir) s) (\<lambda>_ s. Ok 0 s)))"

section \<open>exec\<close>

text \<open>Names of files relative to the current directory of the process.\<close>

definition namei_k :: "nat \<Rightarrow> u8 list \<Rightarrow> kernel \<Rightarrow> (nat option, kernel) outcome" where
  "namei_k me path s = (case cwd (the_proc me s) of
     None \<Rightarrow> if cchar path 0 = 47 then namei (devsw_read me) (mypid me s) 0 path s else Fault ''namei: no current directory''
   | Some ip \<Rightarrow> namei (devsw_read me) (mypid me s) ip path s)"

text \<open>The label \<^verbatim>\<open>bad\<close>.\<close>

definition exec_bad :: "nat \<Rightarrow> u32 \<Rightarrow> nat option \<Rightarrow> kernel \<Rightarrow> (i32, kernel) outcome" where
  "exec_bad me pd ip s =
     bindO (if pd \<noteq> 0 then with_mem (freevm (ksy (ev s)) pd) s else Ok () s) (\<lambda>_ s.
     case ip of
       None \<Rightarrow> Ok (- 1) s
     | Some ip \<Rightarrow> bindO (iunlockput (mypid me s) ip s) (\<lambda>_ s. bindO (end_op (mypid me s) s) (\<lambda>_ s. Ok (- 1) s)))"

definition exec :: "nat \<Rightarrow> u8 list \<Rightarrow> u8 list list \<Rightarrow> kernel \<Rightarrow> (i32, kernel) outcome" where
  "exec me path argv s =
     bindO (begin_op s) (\<lambda>_ s.
     bindO (namei_k me path s) (\<lambda>ip s.
     case ip of
       None \<Rightarrow> bindO (end_op (mypid me s) s) (\<lambda>_ s. bindO (kprint ''exec: fail\<newline>'' s) (\<lambda>_ s. Ok (- 1) s))
     | Some ip \<Rightarrow>
         bindO (ilock (mypid me s) ip s) (\<lambda>_ s.
         bindO (readi (devsw_read me) (mypid me s) ip 0 52 s) (\<lambda>(r, d) s.
         let elf = elfhdr_of d in
         if r \<noteq> 52 then exec_bad me 0 (Some ip) s
         else if elf_magic elf \<noteq> ELF_MAGIC then exec_bad me 0 (Some ip) s
         else
           bindO (with_mem (setupkvm (ksy (ev s))) s) (\<lambda>pd s.
           if pd = 0 then exec_bad me 0 (Some ip) s
           else
             bindO (exec_load me pd ip (unat (elf_phnum elf)) (elf_phoff elf) 0 s) (\<lambda>z s.
             case z of
               None \<Rightarrow> exec_bad me pd (Some ip) s
             | Some z \<Rightarrow>
                 bindO (iunlockput (mypid me s) ip s) (\<lambda>_ s.
                 bindO (end_op (mypid me s) s) (\<lambda>_ s.
                 let z = PGROUNDUP z in
                 bindO (with_mem (allocuvm (ksy (ev s)) pd z (z + 2 * PGSIZE)) s) (\<lambda>z s.
                 if z = 0 then exec_bad me pd None s
                 else
                   bindO (with_mem (clearpteu pd (z - 2 * PGSIZE)) s) (\<lambda>_ s.
                   bindO (exec_stack pd z argv s) (\<lambda>sp s.
                   case sp of
                     None \<Rightarrow> exec_bad me pd None s
                   | Some sp \<Rightarrow> exec_commit me path pd z sp (elf_entry elf) s)))))))))))"

end
