(* ===== verification/Sysfile.thy ===== *)
theory Sysfile
  imports Exec
begin

text \<open>
  The system calls on files and directories (\<^verbatim>\<open>sysfile.c\<close>), for the process in slot \<open>me\<close>.
\<close>

section \<open>Descriptors\<close>

text \<open>The descriptor in argument \<open>n\<close> and its file.\<close>

definition argfd :: "nat \<Rightarrow> nat \<Rightarrow> kernel \<Rightarrow> ((nat \<times> nat) option, kernel) outcome" where
  "argfd me n s = bindO (argint me n s) (\<lambda>x s.
     case x of
       None \<Rightarrow> Ok None s
     | Some fd \<Rightarrow>
         if fd <s 0 \<or> of_nat NOFILE \<le>s fd then Ok None s
         else case ofile (the_proc me s) ! unat fd of
           None \<Rightarrow> Ok None s
         | Some f \<Rightarrow> Ok (Some (unat fd, f)) s)"

definition set_fd :: "nat \<Rightarrow> nat \<Rightarrow> nat option \<Rightarrow> kernel \<Rightarrow> kernel" where
  "set_fd me fd f = set_proc me (\<lambda>p. p\<lparr>ofile := (ofile p)[fd := f]\<rparr>)"

definition fdalloc :: "nat \<Rightarrow> nat \<Rightarrow> kernel \<Rightarrow> nat option \<times> kernel" where
  "fdalloc me f s = (case find (\<lambda>fd. ofile (the_proc me s) ! fd = None) [0..<NOFILE] of
     None \<Rightarrow> (None, s)
   | Some fd \<Rightarrow> (Some fd, set_fd me fd (Some f) s))"

definition sys_dup :: "nat \<Rightarrow> kernel \<Rightarrow> (i32, kernel) outcome" where
  "sys_dup me s = bindO (argfd me 0 s) (\<lambda>x s.
     case x of
       None \<Rightarrow> Ok (- 1) s
     | Some (_, f) \<Rightarrow>
         (case fdalloc me f s of
            (None, s) \<Rightarrow> Ok (- 1) s
          | (Some fd, s) \<Rightarrow> bindO (filedup f s) (\<lambda>_ s. Ok (of_nat fd) s)))"

text \<open>The arguments of \<^verbatim>\<open>read\<close> and \<^verbatim>\<open>write\<close>: file, address and length.\<close>

definition rwargs :: "nat \<Rightarrow> kernel \<Rightarrow> ((nat \<times> u32 \<times> i32) option, kernel) outcome" where
  "rwargs me s = bindO (argfd me 0 s) (\<lambda>x s.
     case x of
       None \<Rightarrow> Ok None s
     | Some (_, f) \<Rightarrow> bindO (argint me 2 s) (\<lambda>n s.
         case n of
           None \<Rightarrow> Ok None s
         | Some n \<Rightarrow> bindO (argptr me 1 n s) (\<lambda>p s. Ok (map_option (\<lambda>p. (f, p, n)) p) s)))"

definition sys_read :: "nat \<Rightarrow> kernel \<Rightarrow> (i32, kernel) outcome" where
  "sys_read me s = bindO (rwargs me s) (\<lambda>x s.
     case x of
       None \<Rightarrow> Ok (- 1) s
     | Some (f, p, n) \<Rightarrow> bindO (fileread me f n s) (\<lambda>(r, bs) s. bindO (user_store me p bs s) (\<lambda>_ s. Ok r s)))"

definition sys_write :: "nat \<Rightarrow> kernel \<Rightarrow> (i32, kernel) outcome" where
  "sys_write me s = bindO (rwargs me s) (\<lambda>x s.
     case x of None \<Rightarrow> Ok (- 1) s | Some (f, p, n) \<Rightarrow> filewrite_user me f p n s)"

definition sys_close :: "nat \<Rightarrow> kernel \<Rightarrow> (i32, kernel) outcome" where
  "sys_close me s = bindO (argfd me 0 s) (\<lambda>x s.
     case x of
       None \<Rightarrow> Ok (- 1) s
     | Some (fd, f) \<Rightarrow> bindO (fileclose me f (set_fd me fd None s)) (\<lambda>_ s. Ok 0 s))"

text \<open>The layout of \<^verbatim>\<open>struct stat\<close>: five fields in 20 bytes, those of two bytes padded.\<close>

definition stat_stores :: "stat \<Rightarrow> (u32 \<times> u8 list) list" where
  "stat_stores st = [(4, word_bytes (st_dev st)), (8, word_bytes (st_ino st)), (0, take 2 (word_bytes (ucast (st_type st)))),
     (12, take 2 (word_bytes (ucast (st_nlink st)))), (16, word_bytes (st_size st))]"

primrec user_stores :: "nat \<Rightarrow> u32 \<Rightarrow> (u32 \<times> u8 list) list \<Rightarrow> kernel \<Rightarrow> (unit, kernel) outcome" where
  "user_stores me p [] s = Ok () s"
| "user_stores me p (w # ws) s = bindO (user_store me (p + fst w) (snd w) s) (\<lambda>_ s. user_stores me p ws s)"

definition sys_fstat :: "nat \<Rightarrow> kernel \<Rightarrow> (i32, kernel) outcome" where
  "sys_fstat me s = bindO (argfd me 0 s) (\<lambda>x s.
     case x of
       None \<Rightarrow> Ok (- 1) s
     | Some (_, f) \<Rightarrow> bindO (argptr me 1 20 s) (\<lambda>p s.
         case p of
           None \<Rightarrow> Ok (- 1) s
         | Some p \<Rightarrow> bindO (filestat me f s) (\<lambda>(r, st) s.
             case st of None \<Rightarrow> Ok r s | Some st \<Rightarrow> bindO (user_stores me p (stat_stores st) s) (\<lambda>_ s. Ok r s))))"

section \<open>Directories\<close>

definition nameiparent_k :: "nat \<Rightarrow> u8 list \<Rightarrow> kernel \<Rightarrow> (nat option \<times> u8 list, kernel) outcome" where
  "nameiparent_k me path s = (case cwd (the_proc me s) of
     None \<Rightarrow> if cchar path 0 = 47 then nameiparent (devsw_read me) (mypid me s) 0 path (replicate DIRSIZ 0) s
       else Fault ''nameiparent: no current directory''
   | Some ip \<Rightarrow> nameiparent (devsw_read me) (mypid me s) ip path (replicate DIRSIZ 0) s)"

text \<open>Closing the transaction with result \<open>r\<close>.\<close>

definition end_with :: "nat \<Rightarrow> i32 \<Rightarrow> kernel \<Rightarrow> (i32, kernel) outcome" where
  "end_with me r s = bindO (end_op (mypid me s) s) (\<lambda>_ s. Ok r s)"

definition link_bad :: "nat \<Rightarrow> nat \<Rightarrow> kernel \<Rightarrow> (i32, kernel) outcome" where
  "link_bad me ip s = bindO (ilock (mypid me s) ip s) (\<lambda>_ s.
     bindO (iupdate (mypid me s) ip (upd_ino ip (\<lambda>x. x\<lparr>nlink := nlink x - 1\<rparr>) s)) (\<lambda>_ s.
     bindO (iunlockput (mypid me s) ip s) (\<lambda>_ s. end_with me (- 1) s)))"

definition sys_link :: "nat \<Rightarrow> kernel \<Rightarrow> (i32, kernel) outcome" where
  "sys_link me s = bindO (argstr me 0 s) (\<lambda>old s. case old of None \<Rightarrow> Ok (- 1) s | Some old \<Rightarrow>
     bindO (argstr me 1 s) (\<lambda>new s. case new of None \<Rightarrow> Ok (- 1) s | Some new \<Rightarrow>
     bindO (begin_op s) (\<lambda>_ s.
     bindO (namei_k me old s) (\<lambda>ip s. case ip of None \<Rightarrow> end_with me (- 1) s | Some ip \<Rightarrow>
     bindO (ilock (mypid me s) ip s) (\<lambda>_ s.
     if itype (icache s ip) = T_DIR then bindO (iunlockput (mypid me s) ip s) (\<lambda>_ s. end_with me (- 1) s)
     else
       bindO (iupdate (mypid me s) ip (upd_ino ip (\<lambda>x. x\<lparr>nlink := nlink x + 1\<rparr>) s)) (\<lambda>_ s.
       bindO (iunlock (mypid me s) ip s) (\<lambda>_ s.
       bindO (nameiparent_k me new s) (\<lambda>(dp, name) s. case dp of None \<Rightarrow> link_bad me ip s | Some dp \<Rightarrow>
       bindO (ilock (mypid me s) dp s) (\<lambda>_ s.
       bindO (if idev (icache s dp) \<noteq> idev (icache s ip) then Ok (- 1) s
              else dirlink (devsw_read me) (devsw_write me) (mypid me s) dp name (inum (icache s ip)) s) (\<lambda>r s.
       bindO (iunlockput (mypid me s) dp s) (\<lambda>_ s.
       if r <s 0 then link_bad me ip s
       else bindO (iput (mypid me s) ip s) (\<lambda>_ s. end_with me 0 s))))))))))))"

primrec isdirempty_loop :: "nat \<Rightarrow> nat \<Rightarrow> nat \<Rightarrow> u32 \<Rightarrow> kernel \<Rightarrow> (bool, kernel) outcome" where
  "isdirempty_loop me dp 0 off s = Ok True s"
| "isdirempty_loop me dp (Suc k) off s =
     (if off < isize (icache s dp) then
        bindO (readi (devsw_read me) (mypid me s) dp off 16 s) (\<lambda>(r, de) s.
          if r \<noteq> 16 then Panic ''isdirempty: readi''
          else if de_inum de \<noteq> 0 then Ok False s
          else isdirempty_loop me dp k (off + 16) s)
      else Ok True s)"

definition isdirempty :: "nat \<Rightarrow> nat \<Rightarrow> kernel \<Rightarrow> (bool, kernel) outcome" where
  "isdirempty me dp s = isdirempty_loop me dp ((unat (isize (icache s dp)) + 15) div 16) 32 s"

definition unlink_bad :: "nat \<Rightarrow> nat \<Rightarrow> kernel \<Rightarrow> (i32, kernel) outcome" where
  "unlink_bad me dp s = bindO (iunlockput (mypid me s) dp s) (\<lambda>_ s. end_with me (- 1) s)"

text \<open>Taking the entry at \<open>off\<close> out of \<open>dp\<close>, with \<open>ip\<close> the inode it names; both are locked.\<close>

definition unlink_entry :: "nat \<Rightarrow> nat \<Rightarrow> nat \<Rightarrow> u32 \<Rightarrow> kernel \<Rightarrow> (i32, kernel) outcome" where
  "unlink_entry me dp ip off s =
     bindO (writei (devsw_write me) (mypid me s) dp (replicate 16 0) off 16 s) (\<lambda>r s.
     if r \<noteq> 16 then Panic ''unlink: writei''
     else
       bindO (if itype (icache s ip) = T_DIR then iupdate (mypid me s) dp (upd_ino dp (\<lambda>x. x\<lparr>nlink := nlink x - 1\<rparr>) s)
              else Ok () s) (\<lambda>_ s.
       bindO (iunlockput (mypid me s) dp s) (\<lambda>_ s.
       bindO (iupdate (mypid me s) ip (upd_ino ip (\<lambda>x. x\<lparr>nlink := nlink x - 1\<rparr>) s)) (\<lambda>_ s.
       bindO (iunlockput (mypid me s) ip s) (\<lambda>_ s. end_with me 0 s)))))"

definition sys_unlink :: "nat \<Rightarrow> kernel \<Rightarrow> (i32, kernel) outcome" where
  "sys_unlink me s = bindO (argstr me 0 s) (\<lambda>path s. case path of None \<Rightarrow> Ok (- 1) s | Some path \<Rightarrow>
     bindO (begin_op s) (\<lambda>_ s.
     bindO (nameiparent_k me path s) (\<lambda>(dp, name) s. case dp of None \<Rightarrow> end_with me (- 1) s | Some dp \<Rightarrow>
     bindO (ilock (mypid me s) dp s) (\<lambda>_ s.
     if namecmp name (bytes ''.'') = 0 \<or> namecmp name (bytes ''..'') = 0 then unlink_bad me dp s
     else
       bindO (dirlookup (devsw_read me) (mypid me s) dp name s) (\<lambda>found s. case found of None \<Rightarrow> unlink_bad me dp s | Some (ip, off) \<Rightarrow>
       bindO (ilock (mypid me s) ip s) (\<lambda>_ s.
       if sint (nlink (icache s ip)) < 1 then Panic ''unlink: nlink < 1''
       else
         bindO (if itype (icache s ip) = T_DIR then isdirempty me ip s else Ok True s) (\<lambda>e s.
         if \<not> e then bindO (iunlockput (mypid me s) ip s) (\<lambda>_ s. unlink_bad me dp s)
         else unlink_entry me dp ip off s)))))))"

text \<open>A new inode in the locked directory \<open>dp\<close>; the result is locked.\<close>

definition create_new :: "nat \<Rightarrow> nat \<Rightarrow> u8 list \<Rightarrow> u16 \<Rightarrow> u16 \<Rightarrow> u16 \<Rightarrow> kernel \<Rightarrow> (nat option, kernel) outcome" where
  "create_new me dp name t maj mino s =
     bindO (ialloc (mypid me s) (idev (icache s dp)) t s) (\<lambda>ip s.
     bindO (ilock (mypid me s) ip s) (\<lambda>_ s.
     bindO (iupdate (mypid me s) ip (upd_ino ip (\<lambda>x. x\<lparr>major := maj, minor := mino, nlink := 1\<rparr>) s)) (\<lambda>_ s.
     bindO (if t = T_DIR then
              bindO (iupdate (mypid me s) dp (upd_ino dp (\<lambda>x. x\<lparr>nlink := nlink x + 1\<rparr>) s)) (\<lambda>_ s.
              bindO (dirlink (devsw_read me) (devsw_write me) (mypid me s) ip (bytes ''.'') (inum (icache s ip)) s) (\<lambda>r s.
              if r <s 0 then Panic ''create dots''
              else bindO (dirlink (devsw_read me) (devsw_write me) (mypid me s) ip (bytes ''..'') (inum (icache s dp)) s) (\<lambda>r s.
              if r <s 0 then Panic ''create dots'' else Ok () s)))
            else Ok () s) (\<lambda>_ s.
     bindO (dirlink (devsw_read me) (devsw_write me) (mypid me s) dp name (inum (icache s ip)) s) (\<lambda>r s.
     if r <s 0 then Panic ''create: dirlink''
     else bindO (iunlockput (mypid me s) dp s) (\<lambda>_ s. Ok (Some ip) s))))))"

definition create :: "nat \<Rightarrow> u8 list \<Rightarrow> u16 \<Rightarrow> u16 \<Rightarrow> u16 \<Rightarrow> kernel \<Rightarrow> (nat option, kernel) outcome" where
  "create me path t maj mino s =
     bindO (nameiparent_k me path s) (\<lambda>(dp, name) s. case dp of None \<Rightarrow> Ok None s | Some dp \<Rightarrow>
     bindO (ilock (mypid me s) dp s) (\<lambda>_ s.
     bindO (dirlookup (devsw_read me) (mypid me s) dp name s) (\<lambda>found s. case found of
       Some (ip, _) \<Rightarrow>
         bindO (iunlockput (mypid me s) dp s) (\<lambda>_ s.
         bindO (ilock (mypid me s) ip s) (\<lambda>_ s.
         if t = T_FILE \<and> itype (icache s ip) = T_FILE then Ok (Some ip) s
         else bindO (iunlockput (mypid me s) ip s) (\<lambda>_ s. Ok None s)))
     | None \<Rightarrow> create_new me dp name t maj mino s)))"

section \<open>open and the rest\<close>

definition O_CREATE :: i32 where
  "O_CREATE = 0x200"

definition O_WRONLY :: i32 where
  "O_WRONLY = 1"

definition O_RDWR :: i32 where
  "O_RDWR = 2"

definition open_fail :: "nat \<Rightarrow> nat \<Rightarrow> kernel \<Rightarrow> (i32, kernel) outcome" where
  "open_fail me ip s = bindO (iunlockput (mypid me s) ip s) (\<lambda>_ s. end_with me (- 1) s)"

text \<open>The file for the locked inode \<open>ip\<close>.\<close>

definition open_file :: "nat \<Rightarrow> nat \<Rightarrow> i32 \<Rightarrow> kernel \<Rightarrow> (i32, kernel) outcome" where
  "open_file me ip omode s = (case filealloc s of
     (None, s) \<Rightarrow> open_fail me ip s
   | (Some f, s) \<Rightarrow>
       (case fdalloc me f s of
          (None, s) \<Rightarrow> bindO (fileclose me f s) (\<lambda>_ s. open_fail me ip s)
        | (Some fd, s) \<Rightarrow>
            bindO (iunlock (mypid me s) ip s) (\<lambda>_ s.
            bindO (end_op (mypid me s) s) (\<lambda>_ s.
              Ok (of_nat fd) (upd_file f (\<lambda>x. x\<lparr>ftype := FD_INODE, fip := ip, foff := 0,
                readable := of_bool (omode AND O_WRONLY = 0),
                writable := of_bool (omode AND O_WRONLY \<noteq> 0 \<or> omode AND O_RDWR \<noteq> 0)\<rparr>) s)))))"

definition sys_open :: "nat \<Rightarrow> kernel \<Rightarrow> (i32, kernel) outcome" where
  "sys_open me s = bindO (argstr me 0 s) (\<lambda>path s. case path of None \<Rightarrow> Ok (- 1) s | Some path \<Rightarrow>
     bindO (argint me 1 s) (\<lambda>om s. case om of None \<Rightarrow> Ok (- 1) s | Some omode \<Rightarrow>
     bindO (begin_op s) (\<lambda>_ s.
     if omode AND O_CREATE \<noteq> 0 then
       bindO (create me path T_FILE 0 0 s) (\<lambda>ip s. case ip of None \<Rightarrow> end_with me (- 1) s | Some ip \<Rightarrow> open_file me ip omode s)
     else
       bindO (namei_k me path s) (\<lambda>ip s. case ip of None \<Rightarrow> end_with me (- 1) s | Some ip \<Rightarrow>
       bindO (ilock (mypid me s) ip s) (\<lambda>_ s.
       if itype (icache s ip) = T_DIR \<and> omode \<noteq> 0 then open_fail me ip s
       else open_file me ip omode s)))))"

definition sys_mkdir :: "nat \<Rightarrow> kernel \<Rightarrow> (i32, kernel) outcome" where
  "sys_mkdir me s = bindO (begin_op s) (\<lambda>_ s.
     bindO (argstr me 0 s) (\<lambda>path s. case path of None \<Rightarrow> end_with me (- 1) s | Some path \<Rightarrow>
     bindO (create me path T_DIR 0 0 s) (\<lambda>ip s. case ip of None \<Rightarrow> end_with me (- 1) s | Some ip \<Rightarrow>
     bindO (iunlockput (mypid me s) ip s) (\<lambda>_ s. end_with me 0 s))))"

definition sys_mknod :: "nat \<Rightarrow> kernel \<Rightarrow> (i32, kernel) outcome" where
  "sys_mknod me s = bindO (begin_op s) (\<lambda>_ s.
     bindO (argstr me 0 s) (\<lambda>path s. case path of None \<Rightarrow> end_with me (- 1) s | Some path \<Rightarrow>
     bindO (argints me 1 2 s) (\<lambda>xs s. case xs of
       Some [maj, mino] \<Rightarrow>
         bindO (create me path T_DEV (ucast maj) (ucast mino) s) (\<lambda>ip s. case ip of None \<Rightarrow> end_with me (- 1) s | Some ip \<Rightarrow>
         bindO (iunlockput (mypid me s) ip s) (\<lambda>_ s. end_with me 0 s))
     | _ \<Rightarrow> end_with me (- 1) s)))"

definition sys_chdir :: "nat \<Rightarrow> kernel \<Rightarrow> (i32, kernel) outcome" where
  "sys_chdir me s = bindO (begin_op s) (\<lambda>_ s.
     bindO (argstr me 0 s) (\<lambda>path s. case path of None \<Rightarrow> end_with me (- 1) s | Some path \<Rightarrow>
     bindO (namei_k me path s) (\<lambda>ip s. case ip of None \<Rightarrow> end_with me (- 1) s | Some ip \<Rightarrow>
     bindO (ilock (mypid me s) ip s) (\<lambda>_ s.
     if itype (icache s ip) \<noteq> T_DIR then bindO (iunlockput (mypid me s) ip s) (\<lambda>_ s. end_with me (- 1) s)
     else
       bindO (iunlock (mypid me s) ip s) (\<lambda>_ s.
       bindO (case cwd (the_proc me s) of None \<Rightarrow> Fault ''chdir: no current directory'' | Some w \<Rightarrow> iput (mypid me s) w s) (\<lambda>_ s.
       bindO (end_op (mypid me s) s) (\<lambda>_ s.
         Ok 0 (set_proc me (\<lambda>p. p\<lparr>cwd := Some ip\<rparr>) s))))))))"

text \<open>The argument strings of \<^verbatim>\<open>exec\<close>, at most \<open>k\<close> words of the array at \<open>a\<close>.\<close>

primrec exec_argv :: "nat \<Rightarrow> nat \<Rightarrow> u32 \<Rightarrow> u8 list list \<Rightarrow> kernel \<Rightarrow> (u8 list list option, kernel) outcome" where
  "exec_argv me 0 a acc s = Ok None s"
| "exec_argv me (Suc k) a acc s =
     bindO (fetchint me a s) (\<lambda>x s. case x of None \<Rightarrow> Ok None s | Some uarg \<Rightarrow>
     if uarg = 0 then Ok (Some (rev acc)) s
     else bindO (fetchstr me uarg s) (\<lambda>str s. case str of None \<Rightarrow> Ok None s | Some str \<Rightarrow>
       exec_argv me k (a + 4) (str # acc) s))"

definition sys_exec :: "nat \<Rightarrow> kernel \<Rightarrow> (i32, kernel) outcome" where
  "sys_exec me s = bindO (argstr me 0 s) (\<lambda>path s. case path of None \<Rightarrow> Ok (- 1) s | Some path \<Rightarrow>
     bindO (argint me 1 s) (\<lambda>uargv s. case uargv of None \<Rightarrow> Ok (- 1) s | Some uargv \<Rightarrow>
     bindO (exec_argv me MAXARG uargv [] s) (\<lambda>argv s. case argv of None \<Rightarrow> Ok (- 1) s | Some argv \<Rightarrow>
     exec me path argv s)))"

definition sys_pipe :: "nat \<Rightarrow> kernel \<Rightarrow> (i32, kernel) outcome" where
  "sys_pipe me s = bindO (argptr me 0 8 s) (\<lambda>p s. case p of None \<Rightarrow> Ok (- 1) s | Some p \<Rightarrow>
     bindO (pipealloc me s) (\<lambda>x s. case x of None \<Rightarrow> Ok (- 1) s | Some (rfile, wfile) \<Rightarrow>
     let (fd0, s) = fdalloc me rfile s; (fd1, s) = (if fd0 = None then (None, s) else fdalloc me wfile s) in
     case (fd0, fd1) of
       (Some a, Some b) \<Rightarrow>
         bindO (user_store me p (word_bytes (of_nat a)) s) (\<lambda>_ s.
         bindO (user_store me (p + 4) (word_bytes (of_nat b)) s) (\<lambda>_ s. Ok 0 s))
     | _ \<Rightarrow>
         let s = (case fd0 of None \<Rightarrow> s | Some a \<Rightarrow> set_fd me a None s) in
         bindO (fileclose me rfile s) (\<lambda>_ s. bindO (fileclose me wfile s) (\<lambda>_ s. Ok (- 1) s))))"

end
