(* ===== verification/Trap.thy ===== *)
theory Trap
  imports Sysfile
begin

text \<open>
  Entry into the kernel: the remaining system calls (\<^verbatim>\<open>sysproc.c\<close>), the table of system calls
  (\<^verbatim>\<open>syscall.c\<close>), and the handler of traps, interrupts and page faults (\<^verbatim>\<open>trap.c\<close>).
\<close>

section \<open>System calls on processes\<close>

text \<open>A system call either gives a result or ends the process (\<open>None\<close>).\<close>

type_synonym sysfun = "nat \<Rightarrow> kernel \<Rightarrow> (i32 option, kernel) outcome"

definition returns :: "(nat \<Rightarrow> kernel \<Rightarrow> (i32, kernel) outcome) \<Rightarrow> sysfun" where
  "returns f me s = bindO (f me s) (\<lambda>r s. Ok (Some r) s)"

definition sys_exit :: sysfun where
  "sys_exit me s = bindO (exit me s) (\<lambda>_ s. Ok None s)"

definition sys_kill :: "nat \<Rightarrow> kernel \<Rightarrow> (i32, kernel) outcome" where
  "sys_kill me s = bindO (argint me 0 s) (\<lambda>x s. case x of
     None \<Rightarrow> Ok (- 1) s
   | Some n \<Rightarrow> let (r, t) = kill n (ptb s) in Ok r (s\<lparr>ptb := t\<rparr>))"

definition sys_getpid :: "nat \<Rightarrow> kernel \<Rightarrow> (i32, kernel) outcome" where
  "sys_getpid me s = Ok (pid (the_proc me s)) s"

definition sys_sbrk :: "nat \<Rightarrow> kernel \<Rightarrow> (i32, kernel) outcome" where
  "sys_sbrk me s = bindO (argint me 0 s) (\<lambda>x s. case x of
     None \<Rightarrow> Ok (- 1) s
   | Some n \<Rightarrow>
       let addr = sz (the_proc me s) in
       bindO (growproc me n s) (\<lambda>r s. Ok (if r <s 0 then - 1 else addr) s))"

text \<open>The clock stands still while the process does not sleep, so the first test decides.\<close>

definition sys_sleep :: "nat \<Rightarrow> kernel \<Rightarrow> (i32, kernel) outcome" where
  "sys_sleep me s = bindO (argint me 0 s) (\<lambda>x s. case x of
     None \<Rightarrow> Ok (- 1) s
   | Some n \<Rightarrow>
       let ticks0 = ticks s in
       if ticks s - ticks0 < n then (if killed (the_proc me s) \<noteq> 0 then Ok (- 1) s else Diverge)
       else Ok 0 s)"

definition sys_uptime :: "nat \<Rightarrow> kernel \<Rightarrow> (i32, kernel) outcome" where
  "sys_uptime me s = Ok (ticks s) s"

section \<open>Dispatch\<close>

definition syscalls :: "sysfun option list" where
  "syscalls = [None, Some (returns fork), Some sys_exit, Some (returns wait), Some (returns sys_pipe),
     Some (returns sys_read), Some (returns sys_kill), Some (returns sys_exec), Some (returns sys_fstat),
     Some (returns sys_chdir), Some (returns sys_dup), Some (returns sys_getpid), Some (returns sys_sbrk),
     Some (returns sys_sleep), Some (returns sys_uptime), Some (returns sys_open), Some (returns sys_write),
     Some (returns sys_mknod), Some (returns sys_unlink), Some (returns sys_link), Some (returns sys_mkdir),
     Some (returns sys_close), Some (returns sys_mmap), Some (returns sys_munmap)]"

definition dec_out :: "u32 \<Rightarrow> u8 list" where
  "dec_out x = (case printint x 10 True of None \<Rightarrow> [] | Some d \<Rightarrow> d)"

definition hex_out :: "u32 \<Rightarrow> u8 list" where
  "hex_out x = (case printint x 16 False of None \<Rightarrow> [] | Some d \<Rightarrow> d)"

definition name_out :: "nat \<Rightarrow> kernel \<Rightarrow> u8 list" where
  "name_out me s = takeWhile (\<lambda>c. c \<noteq> 0) (pname (the_proc me s))"

definition kprintb :: "u8 list \<Rightarrow> kernel \<Rightarrow> (unit, kernel) outcome" where
  "kprintb bs = with_con (consputs bs)"

definition unknown_call :: "nat \<Rightarrow> i32 \<Rightarrow> kernel \<Rightarrow> (bool, kernel) outcome" where
  "unknown_call me num s =
     bindO (kprintb (dec_out (mypid me s) @ [32] @ name_out me s @ bytes '': unknown sys call '' @ dec_out num @ [10]) s) (\<lambda>_ s.
       Ok False (tf_set me TF_eax (- 1) s))"

text \<open>\<^verbatim>\<open>syscall\<close>; the result says whether the process is gone.\<close>

definition syscall :: "nat \<Rightarrow> kernel \<Rightarrow> (bool, kernel) outcome" where
  "syscall me s =
     (let num = tf_get me TF_eax s in
      if 0 <s num \<and> num <s of_nat (length syscalls) then
        (case syscalls ! unat num of
           None \<Rightarrow> unknown_call me num s
         | Some f \<Rightarrow> bindO (f me s) (\<lambda>r s. case r of
             None \<Rightarrow> Ok True s
           | Some r \<Rightarrow> Ok False (tf_set me TF_eax r s)))
      else unknown_call me num s)"

section \<open>Page faults\<close>

definition kill_me :: "nat \<Rightarrow> kernel \<Rightarrow> kernel" where
  "kill_me me = set_proc me (\<lambda>p. p\<lparr>killed := 1\<rparr>)"

definition segfault :: "nat \<Rightarrow> kernel \<Rightarrow> (unit, kernel) outcome" where
  "segfault me s = bindO (kprint ''Segmentation Fault\<newline>'' s) (\<lambda>_ s. Ok () (kill_me me s))"

text \<open>Where the walk over the areas stops.\<close>

datatype fault_stop = Segv | Grow | Null_area

definition fault_test :: "u32 \<Rightarrow> memory \<Rightarrow> u32 \<Rightarrow> fault_stop option" where
  "fault_test a m v =
     (if vm_flags m v AND MAP_GROWSUP = 0 then
        if vm_end m v < a then
          if vm_next m v = 0 then Some Null_area
          else if a < vm_start m (vm_next m v) then Some Segv else None
        else None
      else if 0 < vm_guardstart m v then
        if vm_guardstart m v \<le> a \<and> a \<le> vm_guardstart m v + PGSIZE - 1 then Some Grow
        else if vm_next m v = 0 then Some Null_area
        else if a < vm_start m (vm_next m v) then Some Segv
        else None
      else Some Segv)"

text \<open>Mapping the guard page of area \<open>v\<close> and moving the guard up.\<close>

definition grow_area :: "nat \<Rightarrow> u32 \<Rightarrow> kernel \<Rightarrow> (unit, kernel) outcome" where
  "grow_area me v s =
     (let (pa, s) = kalloc_k s in
      if pa = 0 then Panic ''kalloc''
      else
        let s = upd_mem (\<lambda>m. memset m pa 0 PGSIZE) s; m = mem (kst s) in
        bindO (with_mem (mappages_trap (pgdir (the_proc me s)) (vm_guardstart m v) PGSIZE pa (vm_prot m v OR PTE_U)) s) (\<lambda>r s.
          if r \<noteq> 0 then bindO (kfree_k pa s) (\<lambda>_ s. Ok () (kill_me me s))
          else
            let s = set_word (v + 20) (vm_len (mem (kst s)) v + PGSIZE) s;
                s = set_word (v + 8) (vm_end (mem (kst s)) v + PGSIZE) s;
                m = mem (kst s)
            in if vm_next m v = 0 then Fault ''trap: null area''
               else if vm_start m (vm_next m v) - (vm_end m v + 1) < 2 * PGSIZE
               then Ok () (set_word (v + 16) (- 1) s)
               else Ok () (set_word (v + 16) (vm_end m v + 1) s)))"

definition page_fault :: "nat \<Rightarrow> u32 \<Rightarrow> kernel \<Rightarrow> (unit, kernel) outcome" where
  "page_fault me a s =
     (if a < MIN_ADDR \<or> MAX_ADDR \<le> a then segfault me s
      else let m = mem (kst s) in
        case vma_walk (fault_test a m) m (vm_head me s) (vm_head me s) of
          None \<Rightarrow> Diverge
        | Some Null \<Rightarrow> Fault ''trap: null area''
        | Some End \<Rightarrow> Ok () s
        | Some (Stop Segv _ _) \<Rightarrow> segfault me s
        | Some (Stop Null_area _ _) \<Rightarrow> Fault ''trap: null area''
        | Some (Stop Grow _ v) \<Rightarrow> grow_area me v s)"

section \<open>Traps\<close>

definition T_PGFLT :: u32 where "T_PGFLT = 14"

definition T_IRQ0 :: u32 where "T_IRQ0 = 32"

definition T_SYSCALL :: u32 where "T_SYSCALL = 64"

text \<open>What a trap finds outside the kernel's state: the processor it happens on and its process,
  the trap frame, the register with the faulting address, the characters an input device has
  ready, and what the other processes do while this one gives up the processor.\<close>

record trapin =
  on_cpu :: u32
  running :: "nat option"
  frame :: u32
  cr2 :: u32
  chars :: "i32 list"
  others :: "kernel \<Rightarrow> kernel"

definition frame_get :: "trapin \<Rightarrow> tfreg \<Rightarrow> kernel \<Rightarrow> u32" where
  "frame_get x r s = load32 (mem (kst s)) (frame x + tfoff r)"

text \<open>\<^verbatim>\<open>exit\<close> when the process is killed and goes back to user mode; \<open>True\<close> when it is gone.\<close>

definition exit_if_killed :: "trapin \<Rightarrow> kernel \<Rightarrow> (bool, kernel) outcome" where
  "exit_if_killed x s = (case running x of
     None \<Rightarrow> Ok False s
   | Some me \<Rightarrow>
       if killed (the_proc me s) \<noteq> 0 \<and> frame_get x TF_cs s AND 3 = DPL_USER
       then bindO (exit me s) (\<lambda>_ s. Ok True s) else Ok False s)"

definition trap_syscall :: "trapin \<Rightarrow> kernel \<Rightarrow> (bool, kernel) outcome" where
  "trap_syscall x s = (case running x of
     None \<Rightarrow> Fault ''trap: no process''
   | Some me \<Rightarrow>
       if killed (the_proc me s) \<noteq> 0 then bindO (exit me s) (\<lambda>_ s. Ok True s)
       else
         let s = set_proc me (\<lambda>p. p\<lparr>tf := frame x\<rparr>) s in
         bindO (syscall me s) (\<lambda>gone s.
           if gone then Ok True s
           else if killed (the_proc me s) \<noteq> 0 then bindO (exit me s) (\<lambda>_ s. Ok True s)
           else Ok False s))"

text \<open>The disk in memory raises no interrupts: \<^verbatim>\<open>ideintr\<close> of \<^verbatim>\<open>memide.c\<close> does nothing.\<close>

definition trap_interrupt :: "trapin \<Rightarrow> kernel \<Rightarrow> (unit, kernel) outcome" where
  "trap_interrupt x s =
     (let no = frame_get x TF_trapno s in
      if no = T_IRQ0 then
        Ok () (if on_cpu x = 0 then wakeup_k (ticks_addr (ev s)) (s\<lparr>ticks := ticks s + 1\<rparr>) else s)
      else if no = T_IRQ0 + 14 \<or> no = T_IRQ0 + 15 then Ok () s
      else if no = T_IRQ0 + 1 \<or> no = T_IRQ0 + 4 then bindO (consoleintr_k (chars x) s) (\<lambda>_ s. Ok () s)
      else if no = T_IRQ0 + 7 \<or> no = T_IRQ0 + 31 then
        kprintb (bytes ''cpu'' @ dec_out (on_cpu x) @ bytes '': spurious interrupt at '' @ hex_out (frame_get x TF_cs s AND 0xFFFF) @
          [58] @ hex_out (frame_get x TF_eip s) @ [10]) s
      else if no = T_PGFLT then
        (case running x of None \<Rightarrow> Fault ''trap: no process'' | Some me \<Rightarrow> page_fault me (cr2 x) s)
      else case running x of
        None \<Rightarrow> Panic ''trap''
      | Some me \<Rightarrow>
          if frame_get x TF_cs s AND 3 = 0 then Panic ''trap''
          else
            bindO (kprintb (bytes ''pid '' @ dec_out (mypid me s) @ [32] @ name_out me s @ bytes '': trap '' @ dec_out no @
              bytes '' err '' @ dec_out (frame_get x TF_err s) @ bytes '' on cpu '' @ dec_out (on_cpu x) @
              bytes '' eip 0x'' @ hex_out (frame_get x TF_eip s) @ bytes '' addr 0x'' @ hex_out (cr2 x) @
              bytes ''--kill proc'' @ [10]) s) (\<lambda>_ s.
            Ok () (kill_me me s)))"

text \<open>\<^verbatim>\<open>trap\<close>; the result says whether the process is gone. The frame's registers are read before
  the process gives up the processor: nobody else writes to its kernel stack.\<close>

definition trap :: "trapin \<Rightarrow> kernel \<Rightarrow> (bool, kernel) outcome" where
  "trap x s =
     (if frame_get x TF_trapno s = T_SYSCALL then trap_syscall x s
      else
        let timer = (frame_get x TF_trapno s = T_IRQ0) in
        bindO (trap_interrupt x s) (\<lambda>_ s.
        bindO (exit_if_killed x s) (\<lambda>gone s.
          if gone then Ok True s
          else
            let s = (case running x of
                None \<Rightarrow> s
              | Some me \<Rightarrow>
                  if pstate (the_proc me s) = RUNNING \<and> timer
                  then set_proc me (\<lambda>p. p\<lparr>pstate := RUNNING\<rparr>) (others x (set_ptb (\<lambda>t. t\<lparr>procs := yield_enter me (procs t)\<rparr>) s))
                  else s)
            in exit_if_killed x s)))"

end
