(* ===== verification/Frame.thy ===== *)
theory Frame
  imports Trap
begin

text \<open>
  What the layers below leave alone: a view of the state that does not depend on buffers, log and
  inodes is the same after every routine of the file system. The theory sets up the rules,
  proves them for the file system once, and then for the routines of the kernel with the view
  that the next theory needs: the descriptors of the processes and the reference counts of
  the open files.
\<close>

section \<open>Results that keep a view\<close>

named_theorems kept_rules

definition kept :: "('s \<Rightarrow> 'v) \<Rightarrow> 'v \<Rightarrow> ('a, 's) outcome \<Rightarrow> bool" where
  "kept v a r \<longleftrightarrow> (\<forall>x t. r = Ok x t \<longrightarrow> v t = a)"

lemma keptD: "kept v a r \<Longrightarrow> r = Ok x t \<Longrightarrow> v t = a"
  by (simp add: kept_def)

lemma kept_simps [simp]:
  "kept v a (Ok x t) \<longleftrightarrow> v t = a" "kept v a (Panic m)" "kept v a (Fault m)" "kept v a Diverge"
  by (simp_all add: kept_def)

lemma kept_bindO [kept_rules]:
  assumes "kept v a r" "\<And>x t. v t = a \<Longrightarrow> kept v a (f x t)"
  shows "kept v a (bindO r f)"
  using assms by (cases r) (auto simp: kept_def)

text \<open>The conditions of a routine do not matter for what it keeps.\<close>

lemma kept_if: "kept v a r \<Longrightarrow> kept v a r' \<Longrightarrow> kept v a (if b then r else r')"
  by simp

section \<open>The file system\<close>

text \<open>The contract of a view of what lies around the file system.\<close>

locale outer_view =
  fixes v :: "'a fs_scheme \<Rightarrow> 'v"
  assumes outer: "fs.more s = fs.more t \<Longrightarrow> v s = v t"
begin

lemma v_upd [simp]:
  "v (s\<lparr>bufs := b\<rparr>) = v s" "v (s\<lparr>disk := d\<rparr>) = v s" "v (s\<lparr>written := w\<rparr>) = v s"
  "v (s\<lparr>lstart := n\<rparr>) = v s" "v (s\<lparr>lsize := n\<rparr>) = v s" "v (s\<lparr>ldev := n\<rparr>) = v s" "v (s\<lparr>lhn := n\<rparr>) = v s"
  "v (s\<lparr>lhblock := bs\<rparr>) = v s" "v (s\<lparr>outstanding := n\<rparr>) = v s" "v (s\<lparr>committing := n\<rparr>) = v s"
  "v (s\<lparr>sb := q\<rparr>) = v s" "v (s\<lparr>icache := ic\<rparr>) = v s"
  by (rule outer; simp)+

lemma v_funs [simp]:
  "v (upd_buf i f s) = v s" "v (set_data i g s) = v s" "v (upd_ino i h s) = v s" "v (to_front i s) = v s"
  "v (set_addr i k x s) = v s" "v (idup i s) = v s"
  by (simp_all add: upd_buf_def set_data_def upd_ino_def to_front_def set_addr_def idup_def Let_def)

lemma kept_lock_buf [kept_rules]: "v s = a \<Longrightarrow> kept v a (lock_buf me b s)"
  by (simp add: lock_buf_def split: outcome.split)

lemma kept_bget [kept_rules]: "v s = a \<Longrightarrow> kept v a (bget me dev n s)"
  by (auto simp: bget_def intro!: kept_rules split: option.split)

lemma kept_iderw [kept_rules]: "v s = a \<Longrightarrow> kept v a (iderw me b s)"
  by (simp add: iderw_def Let_def)

lemma kept_bread [kept_rules]: "v s = a \<Longrightarrow> kept v a (bread me dev n s)"
  by (auto simp: bread_def intro!: kept_rules)

lemma kept_bwrite [kept_rules]: "v s = a \<Longrightarrow> kept v a (bwrite me b s)"
  by (auto simp: bwrite_def intro!: kept_rules)

lemma kept_brelse [kept_rules]: "v s = a \<Longrightarrow> kept v a (brelse me b s)"
  by (simp add: brelse_def Let_def)

lemma kept_readsb [kept_rules]: "v s = a \<Longrightarrow> kept v a (readsb me dev s)"
  by (auto simp: readsb_def Let_def intro!: kept_rules)

lemma kept_install [kept_rules]: "v s = a \<Longrightarrow> kept v a (install_loop me k n s)"
  by (induction n arbitrary: k s) (auto intro!: kept_rules)

lemma kept_write_log_loop [kept_rules]: "v s = a \<Longrightarrow> kept v a (write_log_loop me k n s)"
  by (induction n arbitrary: k s) (auto intro!: kept_rules)

lemma kept_heads [kept_rules]:
  "v s = a \<Longrightarrow> kept v a (read_head me s)" "v s = a \<Longrightarrow> kept v a (write_head me s)"
  by (auto simp: read_head_def write_head_def Let_def intro!: kept_rules)

lemma kept_log [kept_rules]:
  "v s = a \<Longrightarrow> kept v a (install_trans me s)" "v s = a \<Longrightarrow> kept v a (write_log me s)"
  "v s = a \<Longrightarrow> kept v a (begin_op s)" "v s = a \<Longrightarrow> kept v a (log_write b s)"
  by (auto simp: install_trans_def write_log_def begin_op_def log_write_def Let_def intro!: kept_rules)

lemma kept_commit [kept_rules]: "v s = a \<Longrightarrow> kept v a (commit me s)" "v s = a \<Longrightarrow> kept v a (recover_from_log me s)"
  by (auto simp: commit_def recover_from_log_def intro!: kept_rules)

lemma kept_end_op [kept_rules]: "v s = a \<Longrightarrow> kept v a (end_op me s)"
  by (auto simp: end_op_def Let_def intro!: kept_rules)

lemma kept_bzero [kept_rules]: "v s = a \<Longrightarrow> kept v a (bzero me dev b s)"
  by (auto simp: bzero_def intro!: kept_rules)

lemma kept_balloc_loop [kept_rules]: "v s = a \<Longrightarrow> kept v a (balloc_loop me dev n b s)"
  by (induction n arbitrary: b s) (auto intro!: kept_rules split: option.split)

lemma kept_blocks [kept_rules]: "v s = a \<Longrightarrow> kept v a (balloc me dev s)" "v s = a \<Longrightarrow> kept v a (bfree me dev b s)"
  by (auto simp: balloc_def bfree_def Let_def intro!: kept_rules)

lemma kept_iget [kept_rules]: "v s = a \<Longrightarrow> kept v a (iget dev ino s)"
  by (auto simp: iget_def split: option.split)

lemma kept_ialloc_loop [kept_rules]: "v s = a \<Longrightarrow> kept v a (ialloc_loop me dev ty n ino s)"
  by (induction n arbitrary: ino s) (auto simp: Let_def intro!: kept_rules)

lemma kept_inodes [kept_rules]:
  "v s = a \<Longrightarrow> kept v a (iinit me dev s)" "v s = a \<Longrightarrow> kept v a (ialloc me dev ty s)" "v s = a \<Longrightarrow> kept v a (iupdate me ip s)"
  "v s = a \<Longrightarrow> kept v a (iunlock me ip s)"
  by (auto simp: iinit_def ialloc_def iupdate_def iunlock_def Let_def intro!: kept_rules)

lemma kept_lock_ino [kept_rules]: "v s = a \<Longrightarrow> kept v a (lock_ino me ip s)"
  by (simp add: lock_ino_def split: outcome.split)

lemma kept_ilock [kept_rules]: "v s = a \<Longrightarrow> kept v a (ilock me ip s)"
  by (auto simp: ilock_def Let_def intro!: kept_rules)

lemma kept_slot_block [kept_rules]: "v s = a \<Longrightarrow> kept v a (slot_block me ip k s)"
  by (auto simp: slot_block_def Let_def intro!: kept_rules)

lemma kept_bmap [kept_rules]: "v s = a \<Longrightarrow> kept v a (bmap me ip bn s)"
  unfolding bmap_def Let_def by (intro kept_rules kept_if) simp_all

lemma kept_itrunc_loops [kept_rules]:
  "v s = a \<Longrightarrow> kept v a (itrunc_direct me ip n i s)" "v s = a \<Longrightarrow> kept v a (itrunc_indirect me ip bp n j s)"
  by (induction n arbitrary: i j s) (auto simp: Let_def intro!: kept_rules)

lemma kept_itrunc [kept_rules]: "v s = a \<Longrightarrow> kept v a (itrunc me ip s)"
  by (auto simp: itrunc_def intro!: kept_rules)

lemma kept_iput [kept_rules]: "v s = a \<Longrightarrow> kept v a (iput me ip s)"
  by (auto simp: iput_def intro!: kept_rules)

lemma kept_iunlockput [kept_rules]: "v s = a \<Longrightarrow> kept v a (iunlockput me ip s)"
  by (auto simp: iunlockput_def intro!: kept_rules)

lemma kept_readi_loop [kept_rules]: "v s = a \<Longrightarrow> kept v a (readi_loop me ip off n s)"
proof (induction n arbitrary: off s rule: less_induct)
  case (less n)
  show ?case
  proof (cases "n = 0")
    case False
    then have "n - chunk off n < n" by (simp add: chunk_pos)
    then show ?thesis
      using less by (subst readi_loop.simps, unfold Let_def) (intro kept_rules kept_if less.IH, simp_all)
  qed (use less.prems in \<open>simp add: readi_loop.simps\<close>)
qed

lemma kept_writei_loop [kept_rules]: "v s = a \<Longrightarrow> kept v a (writei_loop me ip off src s)"
proof (induction "length src" arbitrary: src off s rule: less_induct)
  case less
  show ?case
  proof (cases "src = []")
    case False
    then have "length (drop (chunk off (length src)) src) < length src" by (simp add: chunk_pos)
    then show ?thesis
      using less.prems by (subst writei_loop.simps) (intro kept_rules kept_if less.hyps, simp_all)
  qed (use less.prems in \<open>simp add: writei_loop.simps\<close>)
qed

end

text \<open>Reading and writing reach the devices, whose routines have to keep the view too.\<close>

locale device_view = outer_view v for v :: "'a fs_scheme \<Rightarrow> 'v" +
  fixes dr :: "'a fs_scheme dev_read" and dw :: "'a fs_scheme dev_write"
  assumes dr_keeps: "dr k = Some f \<Longrightarrow> kept v (v s) (f ip n s)"
    and dw_keeps: "dw k = Some g \<Longrightarrow> kept v (v s) (g ip d n s)"
begin

lemma kept_readi [kept_rules]: "v s = a \<Longrightarrow> kept v a (readi dr me ip off n s)"
  using dr_keeps by (auto simp: readi_def dev_slot_def Let_def intro!: kept_rules split: option.split)

lemma kept_writei [kept_rules]: "v s = a \<Longrightarrow> kept v a (writei dw me ip src off n s)"
  using dw_keeps by (auto simp: writei_def dev_slot_def Let_def intro!: kept_rules split: option.split)

lemma kept_dirlookup_loop [kept_rules]: "v s = a \<Longrightarrow> kept v a (dirlookup_loop dr me dp name n off s)"
  by (induction n arbitrary: off s) (auto intro!: kept_rules)

lemma kept_dirlookup [kept_rules]: "v s = a \<Longrightarrow> kept v a (dirlookup dr me dp name s)"
  by (auto simp: dirlookup_def intro!: kept_rules)

lemma kept_dirlink_loop [kept_rules]: "v s = a \<Longrightarrow> kept v a (dirlink_loop dr me dp n off s)"
  by (induction n arbitrary: off s) (auto intro!: kept_rules)

lemma kept_dirlink [kept_rules]: "v s = a \<Longrightarrow> kept v a (dirlink dr dw me dp name ino s)"
  by (auto simp: dirlink_def intro!: kept_rules split: option.split)

lemma kept_namex_loop [kept_rules]: "v s = a \<Longrightarrow> kept v a (namex_loop dr me po ip path name s)"
proof (induction "length path" arbitrary: po a ip path name s rule: less_induct)
  case less
  show ?case
  proof (cases "skipelem path name")
    case None
    then show ?thesis
      using less.prems by (auto simp: namex_loop.simps [of dr me po ip path] intro!: kept_rules)
  next
    case (Some x)
    then obtain path' name' where x: "skipelem path name = Some (path', name')" by (cases x) auto
    note IH = less.hyps [OF skipelem_shorter [OF x]]
    show ?thesis
      using less.prems by (subst namex_loop.simps) (auto simp: x intro!: kept_rules IH split: option.split)
  qed
qed

lemma kept_namei [kept_rules]:
  "v s = a \<Longrightarrow> kept v a (namei dr me wd path s)" "v s = a \<Longrightarrow> kept v a (nameiparent dr me wd path name s)"
  by (auto simp: namei_def nameiparent_def namex_def intro!: kept_rules)

end

section \<open>Descriptors and reference counts\<close>

text \<open>Whether each process is a free slot or a zombie, its descriptors, and the counts of the files.\<close>

definition fdview :: "kernel \<Rightarrow> (bool \<times> nat option list) list \<times> (nat \<Rightarrow> i32)" where
  "fdview s = (map (\<lambda>p. (pstate p = UNUSED \<or> pstate p = ZOMBIE, ofile p)) (procs (ptb s)), \<lambda>f. fref (files s f))"

interpretation fv: outer_view fdview
proof
  show "fdview s = fdview t" if "fs.more s = fs.more t" for s t :: kernel
    using that by (cases s; cases t) (simp add: fdview_def)
qed

lemma fdview_upd [simp]:
  "fdview (s\<lparr>con := c\<rparr>) = fdview s" "fdview (s\<lparr>kst := k\<rparr>) = fdview s" "fdview (s\<lparr>pipes := q\<rparr>) = fdview s"
  "fdview (s\<lparr>ticks := n\<rparr>) = fdview s" "fdview (upd_mem g s) = fdview s" "fdview (set_word b x s) = fdview s"
  by (simp_all add: fdview_def upd_mem_def set_word_def)

lemma fdview_upd_file [simp]:
  assumes "\<And>x. fref (g x) = fref x"
  shows "fdview (upd_file i g s) = fdview s"
  using assms by (auto simp: fdview_def upd_file_def)

lemma fdview_set_proc [simp]:
  assumes "\<And>p. ofile (g p) = ofile p" "\<And>p. pstate (g p) = pstate p"
  shows "fdview (set_proc i g s) = fdview s"
proof -
  have "map (\<lambda>p. (pstate p = UNUSED \<or> pstate p = ZOMBIE, ofile p)) (ps[i := g (ps ! i)]) =
      map (\<lambda>p. (pstate p = UNUSED \<or> pstate p = ZOMBIE, ofile p)) ps" for ps
    by (cases "i < length ps") (auto simp: nth_list_update assms list_update_beyond intro!: nth_equalityI)
  then show ?thesis
    by (simp add: fdview_def set_proc_def)
qed

lemma fdview_wakeup [simp]: "fdview (wakeup_k ch s) = fdview s"
  by (auto simp: fdview_def wakeup_k_def wakeup_def wakeup1_def)

lemma kept_with_mem [kept_rules]: "fdview s = a \<Longrightarrow> kept fdview a (with_mem f s)"
  by (simp add: with_mem_def split: outcome.split)

lemma kept_with_con [kept_rules]: "fdview s = a \<Longrightarrow> kept fdview a (with_con f s)"
  by (simp add: with_con_def split: outcome.split)

lemma kept_console [kept_rules]:
  "fdview s = a \<Longrightarrow> kept fdview a (consoleread me ip n s)" "fdview s = a \<Longrightarrow> kept fdview a (consolewrite me ip src n s)"
  by (auto simp: consoleread_def consolewrite_def intro!: kept_rules)

interpretation dv: device_view fdview "devsw_read me" "devsw_write me" for me
  by unfold_locales (auto simp: devsw_read_def devsw_write_def intro!: kept_rules split: if_splits)

section \<open>Routines that touch neither\<close>

lemma kept_k_rules [kept_rules]:
  "fdview s = a \<Longrightarrow> kept fdview a (kfree_k p s)" "fdview s = a \<Longrightarrow> kept fdview a (kprint str s)"
  "fdview s = a \<Longrightarrow> kept fdview a (kprintb bs s)" "fdview s = a \<Longrightarrow> kept fdview a (user_load me va n s)"
  "fdview s = a \<Longrightarrow> kept fdview a (switchuvm q s)"
  by (auto simp: kfree_k_def kprint_def kprintb_def user_load_def Let_def switchuvm_def intro!: kept_rules split: option.split)

lemma kalloc_k_view: "kalloc_k s = (p, t) \<Longrightarrow> fdview t = fdview s"
  by (auto simp: kalloc_k_def split: prod.splits)

lemma kept_kalloc_k [kept_rules]:
  assumes "fdview s = a" "\<And>p t. fdview t = a \<Longrightarrow> kept fdview a (f p t)"
  shows "kept fdview a (case kalloc_k s of (p, t) \<Rightarrow> f p t)"
  using assms kalloc_k_view by (auto split: prod.split)

lemma kept_user_store [kept_rules]: "fdview s = a \<Longrightarrow> kept fdview a (user_store me va bs s)"
  by (induction bs arbitrary: va s) (simp_all add: Let_def)

lemma kept_user_stores [kept_rules]: "fdview s = a \<Longrightarrow> kept fdview a (user_stores me p ws s)"
  by (induction ws arbitrary: s) (auto intro!: kept_rules)

lemma kept_args [kept_rules]:
  "fdview s = a \<Longrightarrow> kept fdview a (argint me n s)" "fdview s = a \<Longrightarrow> kept fdview a (argints me k n s)"
  "fdview s = a \<Longrightarrow> kept fdview a (fetchint me p s)" "fdview s = a \<Longrightarrow> kept fdview a (fetchstr_loop me n p acc s)"
  by (auto simp: kept_def dest: argint_keeps argints_keeps fetchint_keeps fetchstr_loop_keeps)

lemma kept_args2 [kept_rules]:
  "fdview s = a \<Longrightarrow> kept fdview a (fetchstr me p s)" "fdview s = a \<Longrightarrow> kept fdview a (argptr me n k s)"
  by (auto simp: fetchstr_def argptr_def intro!: kept_rules split: option.split)

lemma kept_args3 [kept_rules]:
  "fdview s = a \<Longrightarrow> kept fdview a (argstr me n s)" "fdview s = a \<Longrightarrow> kept fdview a (argfd me n s)"
  by (auto simp: argstr_def argfd_def intro!: kept_rules split: option.split)

lemma kept_pipe [kept_rules]:
  "fdview s = a \<Longrightarrow> kept fdview a (pipeclose p w s)" "fdview s = a \<Longrightarrow> kept fdview a (pipewrite_k me p src n s)"
  "fdview s = a \<Longrightarrow> kept fdview a (piperead_k me p n s)"
  by (auto simp: pipeclose_def pipewrite_k_def piperead_k_def Let_def intro!: kept_rules split: prod.split option.split)

lemma kept_fileread [kept_rules]: "fdview s = a \<Longrightarrow> kept fdview a (fileread me f n s)"
  by (auto simp: fileread_def Let_def intro!: kept_rules split: filetype.split)

lemma kept_filewrite_loop [kept_rules]: "fdview s = a \<Longrightarrow> kept fdview a (filewrite_loop me f bs s)"
proof (induction "length bs" arbitrary: a bs s rule: less_induct)
  case less
  show ?case
  proof (cases "bs = []")
    case False
    then have "length (drop write_max bs) < length bs" by (simp add: write_max_def)
    note IH = less.hyps [OF this]
    show ?thesis
      using less.prems by (subst filewrite_loop.simps) (auto simp: Let_def intro!: kept_rules IH)
  qed (use less.prems in \<open>simp add: filewrite_loop.simps\<close>)
qed

lemma kept_filewrite [kept_rules]:
  "fdview s = a \<Longrightarrow> kept fdview a (filewrite me f src n s)" "fdview s = a \<Longrightarrow> kept fdview a (filestat me f s)"
  by (auto simp: filewrite_def filestat_def Let_def intro!: kept_rules split: filetype.split)

lemma kept_filewrite_user [kept_rules]: "fdview s = a \<Longrightarrow> kept fdview a (filewrite_user me f va n s)"
  by (auto simp: filewrite_user_def intro!: kept_rules)

lemma kept_create_vma [kept_rules]: "fdview s = a \<Longrightarrow> kept fdview a (create_vma me p n st len pr fl fd s)"
  by (auto simp: create_vma_def Let_def intro!: kept_rules split: option.split)

lemma kept_mmap_page [kept_rules]:
  "fdview s = a \<Longrightarrow> kept fdview a (mmap_file me fd i s)" "fdview s = a \<Longrightarrow> kept fdview a (mmap_page me new st fl fd i s)"
  by (auto simp: mmap_file_def mmap_page_def Let_def intro!: kept_rules split: option.split)

lemma kept_mmap_pages [kept_rules]: "fdview s = a \<Longrightarrow> kept fdview a (mmap_pages n me new st fl fd i s)"
  by (induction n arbitrary: i s) (auto intro!: kept_rules)

lemma kept_mmap_place [kept_rules]:
  "fdview s = a \<Longrightarrow> kept fdview a (mmap_guard p c new st fl s)"
  "fdview s = a \<Longrightarrow> kept fdview a (mmap_place me fx p c st len pr fl fd s)"
  by (auto simp: mmap_guard_def mmap_place_def copy_area_def Let_def intro!: kept_rules)

lemma kept_mmap [kept_rules]:
  "fdview s = a \<Longrightarrow> kept fdview a (mmap_fixed me addr len pr fl fd s)"
  "fdview s = a \<Longrightarrow> kept fdview a (mmap_any me len pr fl fd s)"
  by (auto simp: mmap_fixed_def mmap_any_def Let_def intro!: kept_rules split: option.split walk.split fixed_stop.split)

lemma kept_sys_mmap [kept_rules]: "fdview s = a \<Longrightarrow> kept fdview a (sys_mmap me s)"
  by (auto simp: sys_mmap_def intro!: kept_rules split: option.split list.split)

lemma kept_munmap_pages [kept_rules]: "fdview s = a \<Longrightarrow> kept fdview a (munmap_pages n me i e s)"
  by (induction n arbitrary: i) (simp_all add: munmap_pages_step)

lemma kept_munmap_writeback [kept_rules]: "fdview s = a \<Longrightarrow> kept fdview a (munmap_writeback me va s)"
  by (auto simp: munmap_writeback_def Let_def intro!: kept_rules split: option.split)

lemma kept_sys_munmap [kept_rules]: "fdview s = a \<Longrightarrow> kept fdview a (sys_munmap me s)"
  by (auto simp: sys_munmap_def Let_def intro!: kept_rules split: option.split list.split walk.split)

lemma kept_growproc [kept_rules]: "fdview s = a \<Longrightarrow> kept fdview a (growproc me n s)"
  by (auto simp: growproc_def Let_def intro!: kept_rules)

lemma tf_set_view [simp]: "fdview (tf_set me r x s) = fdview s"
  by (simp add: tf_set_def)

lemma init_areas_view [simp]: "fdview (init_areas me s) = fdview s"
  by (simp add: init_areas_def Let_def)

lemma kept_names [kept_rules]:
  "fdview s = a \<Longrightarrow> kept fdview a (namei_k me path s)" "fdview s = a \<Longrightarrow> kept fdview a (nameiparent_k me path s)"
  by (auto simp: namei_k_def nameiparent_k_def intro!: kept_rules split: option.split)

lemma kept_loaduvm_loop [kept_rules]: "fdview s = a \<Longrightarrow> kept fdview a (loaduvm_ip_loop n me pd addr ip off len i s)"
  by (induction n arbitrary: i s) (auto simp: Let_def intro!: kept_rules split: prod.split)

lemma kept_loaduvm [kept_rules]: "fdview s = a \<Longrightarrow> kept fdview a (loaduvm_ip me pd addr ip off len s)"
  by (auto simp: loaduvm_ip_def intro!: kept_rules)

lemma kept_exec_load [kept_rules]: "fdview s = a \<Longrightarrow> kept fdview a (exec_load me pd ip n off z s)"
  by (induction n arbitrary: off z s) (auto simp: Let_def intro!: kept_rules)

lemma kept_exec_args [kept_rules]: "fdview s = a \<Longrightarrow> kept fdview a (exec_args pd n as sp us s)"
  by (induction as arbitrary: n sp us s) (auto simp: Let_def intro!: kept_rules)

lemma kept_exec_parts [kept_rules]:
  "fdview s = a \<Longrightarrow> kept fdview a (exec_stack pd z argv s)" "fdview s = a \<Longrightarrow> kept fdview a (exec_commit me path pd z sp en s)"
  "fdview s = a \<Longrightarrow> kept fdview a (exec_bad me pd ipo s)"
  by (auto simp: exec_stack_def exec_commit_def exec_bad_def Let_def intro!: kept_rules split: option.split)

lemma kept_exec [kept_rules]: "fdview s = a \<Longrightarrow> kept fdview a (exec me path argv s)"
  by (auto simp: exec_def Let_def intro!: kept_rules split: option.split)

lemma kept_exec_argv [kept_rules]: "fdview s = a \<Longrightarrow> kept fdview a (exec_argv me n p acc s)"
  by (induction n arbitrary: p acc s) (auto intro!: kept_rules split: option.split)

lemma kept_end_with [kept_rules]: "fdview s = a \<Longrightarrow> kept fdview a (end_with me r s)"
  by (auto simp: end_with_def intro!: kept_rules)

lemma kept_link_parts [kept_rules]:
  "fdview s = a \<Longrightarrow> kept fdview a (link_bad me ip s)" "fdview s = a \<Longrightarrow> kept fdview a (unlink_bad me dp s)"
  "fdview s = a \<Longrightarrow> kept fdview a (open_fail me ip s)" "fdview s = a \<Longrightarrow> kept fdview a (unlink_entry me dp ip off s)"
  by (auto simp: link_bad_def unlink_bad_def open_fail_def unlink_entry_def intro!: kept_rules)

lemma kept_isdirempty_loop [kept_rules]: "fdview s = a \<Longrightarrow> kept fdview a (isdirempty_loop me dp n off s)"
  by (induction n arbitrary: off s) (auto intro!: kept_rules)

lemma kept_isdirempty [kept_rules]: "fdview s = a \<Longrightarrow> kept fdview a (isdirempty me dp s)"
  by (auto simp: isdirempty_def intro!: kept_rules)

lemma kept_create_new [kept_rules]: "fdview s = a \<Longrightarrow> kept fdview a (create_new me dp name t mj mn s)"
  by (auto simp: create_new_def intro!: kept_rules)

lemma kept_create [kept_rules]: "fdview s = a \<Longrightarrow> kept fdview a (create me path t mj mn s)"
  by (auto simp: create_def intro!: kept_rules split: option.split)

lemma kept_sys_link [kept_rules]: "fdview s = a \<Longrightarrow> kept fdview a (sys_link me s)"
  unfolding sys_link_def by (auto intro!: kept_rules kept_if split: option.split)

lemma kept_sys_unlink [kept_rules]: "fdview s = a \<Longrightarrow> kept fdview a (sys_unlink me s)"
  unfolding sys_unlink_def by (auto intro!: kept_rules kept_if split: option.split)

lemma kept_sys_dirs [kept_rules]:
  "fdview s = a \<Longrightarrow> kept fdview a (sys_mkdir me s)" "fdview s = a \<Longrightarrow> kept fdview a (sys_mknod me s)"
  "fdview s = a \<Longrightarrow> kept fdview a (sys_chdir me s)" "fdview s = a \<Longrightarrow> kept fdview a (sys_exec me s)"
  by (auto simp: sys_mkdir_def sys_mknod_def sys_chdir_def sys_exec_def intro!: kept_rules split: option.split list.split)

lemma kept_rwargs [kept_rules]: "fdview s = a \<Longrightarrow> kept fdview a (rwargs me s)"
  by (auto simp: rwargs_def intro!: kept_rules split: option.split)

lemma kept_sys_rw [kept_rules]:
  "fdview s = a \<Longrightarrow> kept fdview a (sys_read me s)" "fdview s = a \<Longrightarrow> kept fdview a (sys_write me s)"
  "fdview s = a \<Longrightarrow> kept fdview a (sys_fstat me s)"
  by (auto simp: sys_read_def sys_write_def sys_fstat_def intro!: kept_rules split: option.split)

lemma kill_view:
  assumes "kill n (ptb s) = (r, t)"
  shows "fdview (s\<lparr>ptb := t\<rparr>) = fdview s"
proof (cases "first_slot (\<lambda>p. pid p = n) (procs (ptb s))")
  case (Some i)
  then have "i < length (procs (ptb s))" by (simp add: first_slot_Some)
  then show ?thesis
    using assms by (auto simp: fdview_def kill_def Some Let_def nth_list_update intro!: nth_equalityI)
qed (use assms in \<open>simp add: kill_def fdview_def\<close>)

lemma kept_sysproc [kept_rules]:
  "fdview s = a \<Longrightarrow> kept fdview a (sys_kill me s)" "fdview s = a \<Longrightarrow> kept fdview a (sys_getpid me s)"
  "fdview s = a \<Longrightarrow> kept fdview a (sys_sbrk me s)" "fdview s = a \<Longrightarrow> kept fdview a (sys_sleep me s)"
  "fdview s = a \<Longrightarrow> kept fdview a (sys_uptime me s)"
  by (auto simp: kill_view sys_kill_def sys_getpid_def sys_sbrk_def sys_sleep_def sys_uptime_def Let_def
      intro!: kept_rules split: option.split prod.split)

end
