(* ===== verification/Fdtable.thy ===== *)
theory Fdtable
  imports Frame "HOL-Library.Multiset"
begin

text \<open>
  The table of open files is counted right: the reference count of every file is the number of
  descriptors that name it, over all processes, and free slots and zombies have no descriptors.
  Every system call keeps this.
\<close>

section \<open>The invariant\<close>

definition fd_refs :: "(bool \<times> nat option list) list \<Rightarrow> nat \<Rightarrow> nat" where
  "fd_refs tbl f = (\<Sum>x \<leftarrow> tbl. count_list (snd x) (Some f))"

text \<open>One process: sixteen descriptors, which name entries of the table of files; none for a process
  that is not alive.\<close>

definition fds_ok :: "bool \<times> nat option list \<Rightarrow> bool" where
  "fds_ok x \<longleftrightarrow> length (snd x) = NOFILE \<and> (fst x \<longrightarrow> snd x = replicate NOFILE None) \<and>
     (\<forall>f. Some f \<in> set (snd x) \<longrightarrow> f < NFILE)"

definition fd_ok :: "(bool \<times> nat option list) list \<times> (nat \<Rightarrow> i32) \<Rightarrow> bool" where
  "fd_ok w \<longleftrightarrow> length (fst w) = NPROC \<and> (\<forall>x \<in> set (fst w). fds_ok x) \<and>
     (\<forall>f < NFILE. unat (snd w f) = fd_refs (fst w) f)"

text \<open>Process \<open>me\<close> is alive and has the descriptors \<open>fds\<close>.\<close>

definition has_fds :: "nat \<Rightarrow> nat option list \<Rightarrow> (bool \<times> nat option list) list \<times> 'r \<Rightarrow> bool" where
  "has_fds me fds w \<longleftrightarrow> me < length (fst w) \<and> fst w ! me = (False, fds)"

definition put_fds :: "nat \<Rightarrow> bool \<times> nat option list \<Rightarrow> (bool \<times> nat option list) list \<times> 'r \<Rightarrow>
    (bool \<times> nat option list) list \<times> 'r" where
  "put_fds me x w = ((fst w)[me := x], snd w)"

definition put_ref :: "nat \<Rightarrow> i32 \<Rightarrow> 'p \<times> (nat \<Rightarrow> i32) \<Rightarrow> 'p \<times> (nat \<Rightarrow> i32)" where
  "put_ref f n w = (fst w, (snd w)(f := n))"

lemma has_fds_put [simp]: "has_fds me fds w \<Longrightarrow> has_fds me fds' (put_fds me (False, fds') w)"
  by (simp add: has_fds_def put_fds_def)

lemma put_fds_put [simp]: "put_fds me x (put_fds me y w) = put_fds me x w"
  by (simp add: put_fds_def)

lemma put_fds_same: "has_fds me fds w \<Longrightarrow> put_fds me (False, fds) w = w"
  by (cases w) (simp add: has_fds_def put_fds_def list_update_same_conv)

lemma put_ref_put [simp]: "put_ref f n (put_ref f k w) = put_ref f n w"
  by (simp add: put_ref_def)

lemma put_ref_same: "snd w f = n \<Longrightarrow> put_ref f n w = w"
  by (auto simp: put_ref_def)

lemma put_simps [simp]:
  "has_fds me fds (put_ref f n w) = has_fds me fds w" "snd (put_fds me x w) = snd w" "snd (put_ref f n w) = (snd w)(f := n)"
  "fst (put_ref f n w) = fst w" "fst (put_fds me x w) = (fst w)[me := x]"
  "put_ref f n (put_fds me x w) = put_fds me x (put_ref f n w)"
  by (simp_all add: has_fds_def put_ref_def put_fds_def)

section \<open>Counting\<close>

lemma count_list_update:
  assumes "i < length xs"
  shows "count_list (xs[i := y]) z + (if xs ! i = z then 1 else 0) = count_list xs z + (if y = z then 1 else 0)"
proof -
  have "add_mset (xs ! i) (mset (xs[i := y])) = add_mset y (mset xs)"
    using assms by (simp add: mset_update)
  then have "count (add_mset (xs ! i) (mset (xs[i := y]))) z = count (add_mset y (mset xs)) z"
    by simp
  then show ?thesis
    by (simp only: count_add_mset count_mset) (auto split: if_splits)
qed

lemma fd_refs_update:
  assumes "me < length tbl" "snd (tbl ! me) = fds" "i < length fds"
  shows "fd_refs (tbl[me := (z, fds[i := y])]) f + (if fds ! i = Some f then 1 else 0) =
    fd_refs tbl f + (if y = Some f then 1 else 0)"
proof -
  let ?c = "\<lambda>x. count_list (snd x) (Some f)"
  have le: "?c (tbl ! me) \<le> sum_list (map ?c tbl)"
    using assms(1) by (intro member_le_sum_list) auto
  have "fd_refs (tbl[me := (z, fds[i := y])]) f = sum_list (map ?c tbl) + count_list (fds[i := y]) (Some f) - ?c (tbl ! me)"
    using assms(1) by (simp add: fd_refs_def map_update sum_list_update)
  then show ?thesis
    using count_list_update [OF assms(3), of y "Some f"] le assms(2) by (simp add: fd_refs_def)
qed

lemma fd_refs_flag: "me < length tbl \<Longrightarrow> snd (tbl ! me) = fds \<Longrightarrow> fd_refs (tbl[me := (z, fds)]) f = fd_refs tbl f"
proof -
  assume "me < length tbl" "snd (tbl ! me) = fds"
  then have "map snd (tbl[me := (z, fds)]) = map snd tbl"
    by (auto simp: map_update list_update_same_conv)
  then have "map (\<lambda>x. count_list x (Some f)) (map snd (tbl[me := (z, fds)])) = map (\<lambda>x. count_list x (Some f)) (map snd tbl)"
    by simp
  then show ?thesis
    by (simp add: fd_refs_def comp_def del: list_update_same_conv)
qed

lemma fd_refs_bound:
  assumes "length tbl = NPROC" "\<forall>x \<in> set tbl. fds_ok x"
  shows "fd_refs tbl f \<le> 1024"
proof -
  have "fd_refs tbl f \<le> (\<Sum>x \<leftarrow> tbl. NOFILE)"
    unfolding fd_refs_def
  proof (rule sum_list_mono)
    show "count_list (snd x) (Some f) \<le> NOFILE" if "x \<in> set tbl" for x
      using that assms(2) count_le_length [of "snd x" "Some f"] by (simp add: fds_ok_def)
  qed
  also have "\<dots> = 1024"
    using assms(1) by (simp add: sum_list_triv NPROC_def NOFILE_def)
  finally show ?thesis .
qed

lemma fd_ok_bound: "fd_ok w \<Longrightarrow> f < NFILE \<Longrightarrow> unat (snd w f) \<le> 1024"
  using fd_refs_bound [of "fst w" f] by (simp add: fd_ok_def)

lemma fd_ok_fds: "fd_ok w \<Longrightarrow> has_fds me fds w \<Longrightarrow> length fds = NOFILE \<and> (\<forall>f. Some f \<in> set fds \<longrightarrow> f < NFILE)"
  using nth_mem [of me "fst w"] by (fastforce simp: fd_ok_def has_fds_def fds_ok_def)

text \<open>A descriptor is taken together with a reference, and given back with one.\<close>

lemma fds_ok_put:
  assumes "\<forall>x \<in> set tbl. fds_ok x" "fds_ok y"
  shows "\<forall>x \<in> set (tbl[me := y]). fds_ok x"
  using assms set_update_subset_insert [of tbl me y] by auto

lemma fd_ok_open:
  assumes w: "fd_ok w" and me: "has_fds me fds w" and fd: "fd < NOFILE" "fds ! fd = None" and f: "f < NFILE"
  shows "fd_ok (put_fds me (False, fds[fd := Some f]) (put_ref f (snd w f + 1) w))"
proof -
  note l = fd_ok_fds [OF w me]
  have m: "me < length (fst w)" "snd (fst w ! me) = fds" using me by (auto simp: has_fds_def)
  have "fds_ok (False, fds[fd := Some f])"
    using l f set_update_subset_insert [of fds fd "Some f"] by (auto simp: fds_ok_def)
  moreover have "unat (snd w f + 1) = unat (snd w f) + 1"
    using fd_ok_bound [OF w f] by (subst unat_add_lt) simp_all
  ultimately show ?thesis
    using w fd l fds_ok_put [of "fst w"] fd_refs_update [OF m, of fd False "Some f"]
    by (auto simp: fd_ok_def split: if_splits)
qed

lemma fd_ok_close:
  assumes w: "fd_ok w" and me: "has_fds me fds w" and fd: "fd < NOFILE" "fds ! fd = Some f"
  shows "fd_ok (put_fds me (False, fds[fd := None]) (put_ref f (snd w f - 1) w))" and "0 < unat (snd w f)" and "f < NFILE"
proof -
  note l = fd_ok_fds [OF w me]
  have m: "me < length (fst w)" "snd (fst w ! me) = fds" using me by (auto simp: has_fds_def)
  show f: "f < NFILE" using l fd nth_mem [of fd fds] by auto
  note u = fd_refs_update [OF m, of fd False None]
  have "0 < fd_refs (fst w) f" using u [of f] fd l by simp
  then show pos: "0 < unat (snd w f)" using w f by (simp add: fd_ok_def)
  have cnt: "fd_refs ((fst w)[me := (False, fds[fd := None])]) g = fd_refs (fst w) g - (if g = f then 1 else 0)" for g
    using u [of g] fd l by (auto split: if_splits)
  have "fds_ok (False, fds[fd := None])"
    using l set_update_subset_insert [of fds fd None] by (auto simp: fds_ok_def)
  moreover have "unat (snd w f - 1) = unat (snd w f) - 1"
    using pos by (subst unat_sub_le) (simp_all add: u32_le_iff_unat)
  ultimately show "fd_ok (put_fds me (False, fds[fd := None]) (put_ref f (snd w f - 1) w))"
    using w fd l fds_ok_put [of "fst w"] cnt by (auto simp: fd_ok_def)
qed

section \<open>The routines in terms of the view\<close>

lemma snd_fdview [simp]: "snd (fdview s) f = fref (files s f)"
  by (simp add: fdview_def)

lemma fref_view: "fdview s = w \<Longrightarrow> fref (files s f) = snd w f"
  by (simp flip: snd_fdview)

lemma has_fds_ofile: "has_fds me fds (fdview s) \<Longrightarrow> ofile (the_proc me s) = fds"
  by (auto simp: has_fds_def fdview_def the_proc_def)

lemma fdview_set_fd:
  assumes "has_fds me fds (fdview s)"
  shows "fdview (set_fd me fd x s) = put_fds me (False, fds[fd := x]) (fdview s)"
  using assms by (auto simp: has_fds_def put_fds_def fdview_def set_fd_def set_proc_def map_update)

lemma fdview_fref: "fdview (upd_file f g s) = put_ref f (fref (g (files s f))) (fdview s)"
  by (auto simp: put_ref_def fdview_def upd_file_def)

lemma filealloc_view:
  assumes "filealloc s = (r, t)"
  shows "r = None \<Longrightarrow> t = s"
    and "r = Some i \<Longrightarrow> i < NFILE \<and> fref (files s i) = 0 \<and> fdview t = put_ref i 1 (fdview s)"
  using assms by (auto simp: filealloc_def fdview_fref find_Some_iff split: option.splits)

lemma fdalloc_view:
  assumes "fdalloc me f s = (r, t)" "has_fds me fds (fdview s)"
  shows "r = None \<Longrightarrow> t = s"
    and "r = Some fd \<Longrightarrow> fd < NOFILE \<and> fds ! fd = None \<and> fdview t = put_fds me (False, fds[fd := Some f]) (fdview s)"
  using assms has_fds_ofile [OF assms(2)] fdview_set_fd [OF assms(2)]
  by (auto simp: fdalloc_def find_Some_iff split: option.splits)

lemma argfd_view:
  assumes "argfd me n s = Ok (Some (fd, f)) t"
  shows "t = s" "fd < NOFILE" "ofile (the_proc me s) ! fd = Some f"
proof -
  obtain x u where a: "argint me n s = Ok x u"
    using assms by (auto simp: argfd_def bindO_eq_Ok)
  note s = argint_keeps [OF a]
  obtain w where x: "x = Some w"
    using assms a by (cases x) (auto simp: argfd_def)
  have w: "\<not> w <s 0" "\<not> of_nat NOFILE \<le>s w" "t = s" "fd = unat w" "ofile (the_proc me s) ! unat w = Some f"
    using assms a by (simp_all add: argfd_def x s split: if_splits option.splits)
  then show "t = s" "ofile (the_proc me s) ! fd = Some f" by auto
  have "unat w < 2147483648" using w(1) by (simp add: i32_neg_iff)
  then show "fd < NOFILE"
    using w(2,4) i32_small(2) [of 16 w] by (simp add: NOFILE_def)
qed

lemma fref_last: "\<not> n <s 1 \<Longrightarrow> \<not> 0 <s n - 1 \<Longrightarrow> n - 1 = (0 :: i32)"
proof -
  assume a: "\<not> n <s 1" "\<not> 0 <s n - 1"
  have n: "unat n < 2147483648"
    using a(1) i32_neg_iff [of n] by (auto simp: word_sless_alt)
  moreover have "1 \<le> unat n"
    using a(1) i32_small(1) [of n 1] n by simp
  moreover from this have "unat (n - 1) = unat n - 1"
    by (subst unat_sub_le) (simp_all add: u32_le_iff_unat)
  ultimately show ?thesis
    using a(2) i32_small(1) [of 0 "n - 1"] by (simp add: u32_eq_iff_unat)
qed

lemma kept_fileclose:
  assumes "fdview s = w"
  shows "kept fdview (put_ref f (snd w f - 1) w) (fileclose me f s)"
proof -
  have v: "fdview (upd_file f (\<lambda>x. x\<lparr>fref := fref x - 1\<rparr>) s) = put_ref f (snd w f - 1) w"
    using assms by (simp add: fdview_fref flip: assms)
  have z: "fdview (upd_file f (\<lambda>x. x\<lparr>fref := 0, ftype := FD_NONE\<rparr>) (upd_file f (\<lambda>x. x\<lparr>fref := fref x - 1\<rparr>) s)) =
      put_ref f (snd w f - 1) w" if "\<not> fref (files s f) <s 1" "\<not> 0 <s fref (files s f) - 1"
    using fref_last [OF that] v by (simp add: fdview_fref flip: assms)
  show ?thesis
    using v z by (auto simp: fileclose_def Let_def upd_file_def [of f _ s, THEN arg_cong [of _ _ files]]
        intro!: kept_rules split: filetype.split)
qed

section \<open>System calls on descriptors\<close>

text \<open>The invariant, for a process \<open>me\<close> that is alive; and results that keep it.\<close>

definition fd_good :: "nat \<Rightarrow> (bool \<times> nat option list) list \<times> (nat \<Rightarrow> i32) \<Rightarrow> bool" where
  "fd_good me w \<longleftrightarrow> fd_ok w \<and> (\<exists>fds. has_fds me fds w)"

definition good_end :: "nat \<Rightarrow> ('a, kernel) outcome \<Rightarrow> bool" where
  "good_end me r \<longleftrightarrow> (\<forall>x t. r = Ok x t \<longrightarrow> fd_good me (fdview t))"

lemma good_end_simps [simp]:
  "good_end me (Ok x t) \<longleftrightarrow> fd_good me (fdview t)" "good_end me (Panic m)" "good_end me (Fault m)" "good_end me Diverge"
  by (simp_all add: good_end_def)

lemma good_end_kept: "kept fdview w r \<Longrightarrow> fd_good me w \<Longrightarrow> good_end me r"
  by (auto simp: good_end_def kept_def)

lemma good_end_bind: "kept fdview w r \<Longrightarrow> (\<And>x t. r = Ok x t \<Longrightarrow> fdview t = w \<Longrightarrow> good_end me (f x t)) \<Longrightarrow> good_end me (bindO r f)"
  by (cases r) auto

lemma fd_good_open:
  "fd_ok w \<Longrightarrow> has_fds me fds w \<Longrightarrow> fd < NOFILE \<Longrightarrow> fds ! fd = None \<Longrightarrow> f < NFILE \<Longrightarrow>
   fd_good me (put_fds me (False, fds[fd := Some f]) (put_ref f (snd w f + 1) w))"
  unfolding fd_good_def by (auto intro: fd_ok_open intro!: exI has_fds_put simp: has_fds_def)

lemma fd_good_close:
  "fd_ok w \<Longrightarrow> has_fds me fds w \<Longrightarrow> fd < NOFILE \<Longrightarrow> fds ! fd = Some f \<Longrightarrow>
   fd_good me (put_fds me (False, fds[fd := None]) (put_ref f (snd w f - 1) w))"
  unfolding fd_good_def by (auto intro: fd_ok_close(1) intro!: exI has_fds_put simp: has_fds_def)

lemma sys_dup_good:
  assumes "fd_good me (fdview s)"
  shows "good_end me (sys_dup me s)"
  unfolding sys_dup_def
proof (rule good_end_bind [OF kept_args3(2) [OF refl]])
  fix x t assume a: "argfd me 0 s = Ok x t" "fdview t = fdview s"
  obtain fds where g: "fd_ok (fdview s)" "has_fds me fds (fdview s)" using assms by (auto simp: fd_good_def)
  show "good_end me (case x of None \<Rightarrow> Ok (- 1) t
      | Some (_, f) \<Rightarrow> (case fdalloc me f t of (None, s) \<Rightarrow> Ok (- 1) s
          | (Some fd, s) \<Rightarrow> bindO (filedup f s) (\<lambda>_ s. Ok (of_nat fd) s)))"
  proof (cases x)
    case (Some y)
    obtain fd f where y: "y = (fd, f)" by (cases y)
    note d = argfd_view [OF a(1) [unfolded Some y]]
    have f: "f < NFILE" using fd_ok_close(3) [OF g d(2)] d(3) has_fds_ofile [OF g(2)] by simp
    obtain r u where r: "fdalloc me f s = (r, u)" by fastforce
    show ?thesis
    proof (cases r)
      case None
      then show ?thesis using fdalloc_view(1) [OF r g(2)] r d(1) assms by (simp add: Some y)
    next
      case (Some n)
      note v = fdalloc_view(2) [OF r g(2) Some]
      have "fref (files u f) = fref (files s f)"
        using v fref_view [of u _ f] by simp
      then show ?thesis
        using v r d(1) fd_good_open [OF g, of n f] f
        by (simp add: \<open>x = Some y\<close> y Some filedup_def fdview_fref)
    qed
  qed (use a assms in simp)
qed

lemma sys_close_good:
  assumes "fd_good me (fdview s)"
  shows "good_end me (sys_close me s)"
  unfolding sys_close_def
proof (rule good_end_bind [OF kept_args3(2) [OF refl]])
  fix x t assume a: "argfd me 0 s = Ok x t" "fdview t = fdview s"
  obtain fds where g: "fd_ok (fdview s)" "has_fds me fds (fdview s)" using assms by (auto simp: fd_good_def)
  show "good_end me (case x of None \<Rightarrow> Ok (- 1) t
      | Some (fd, f) \<Rightarrow> bindO (fileclose me f (set_fd me fd None t)) (\<lambda>_ s. Ok 0 s))"
  proof (cases x)
    case (Some y)
    obtain fd f where y: "y = (fd, f)" by (cases y)
    note d = argfd_view [OF a(1) [unfolded Some y]]
    note c = fd_good_close [OF g d(2)]
    show ?thesis
      using d(1,3) c has_fds_ofile [OF g(2)] kept_fileclose [OF fdview_set_fd [OF g(2)], where f = f and me = me]
      by (auto simp: Some y intro!: good_end_bind)
  qed (use a assms in simp)
qed

lemma open_file_good:
  assumes "fd_good me (fdview s)"
  shows "good_end me (open_file me ip om s)"
proof -
  obtain fds where g: "fd_ok (fdview s)" "has_fds me fds (fdview s)" using assms by (auto simp: fd_good_def)
  obtain r t where r: "filealloc s = (r, t)" by fastforce
  show ?thesis
  proof (cases r)
    case None
    then show ?thesis
      using r filealloc_view(1) [OF r] assms kept_link_parts(3) [of s "fdview s" me ip]
      by (auto simp: open_file_def intro: good_end_kept)
  next
    case (Some f)
    note v = filealloc_view(2) [OF r Some]
    have g': "has_fds me fds (fdview t)" using v g(2) by simp
    obtain q u where q: "fdalloc me f t = (q, u)" by fastforce
    show ?thesis
    proof (cases q)
      case None
      have "put_ref f (fref (files t f) - 1) (fdview t) = fdview s"
        using v fref_view [of t _ f] by (simp add: put_ref_same)
      then have "kept fdview (fdview s) (fileclose me f t)"
        using kept_fileclose [of t "fdview t" f me] by simp
      then show ?thesis
        using assms r q None \<open>r = Some f\<close> fdalloc_view(1) [OF q g' None]
        by (auto simp: open_file_def intro!: good_end_kept [OF kept_bindO] kept_rules)
    next
      case (Some fd)
      note w = fdalloc_view(2) [OF q g' Some]
      have "fd_good me (fdview u)"
        using w v fd_good_open [OF g, of fd f] by simp
      then show ?thesis
        using r q Some \<open>r = Some f\<close>
        by (auto simp: open_file_def intro!: good_end_kept [OF kept_bindO, of "fdview u"] kept_rules)
    qed
  qed
qed

lemma sys_open_good:
  assumes "fd_good me (fdview s)"
  shows "good_end me (sys_open me s)"
proof -
  have opn: "good_end me (open_file me ip om u)" if "fdview u = fdview s" for ip om u
    using open_file_good [of me u] assms that by simp
  have fail: "good_end me (end_with me r u)" "good_end me (open_fail me ip u)" if "fdview u = fdview s" for r ip u
    using assms that by (auto intro!: good_end_kept [where w = "fdview s"] kept_rules)
  show ?thesis
    unfolding sys_open_def
    by (rule good_end_bind [where w = "fdview s"], (rule kept_rules, simp) |
        auto simp: assms opn fail split: option.split)+
qed

text \<open>Two files are taken for the ends of a pipe, or the counts stay as they were.\<close>

lemma close_opt_view:
  "close_opt me f s = Ok y t \<Longrightarrow> fdview t = (case f of None \<Rightarrow> fdview s | Some i \<Rightarrow> put_ref i (fref (files s i) - 1) (fdview s))"
  using keptD [OF kept_fileclose [OF refl]] by (fastforce simp: close_opt_def split: option.splits)

definition two_files :: "nat option \<Rightarrow> nat option \<Rightarrow> kernel \<Rightarrow> kernel \<Rightarrow> bool" where
  "two_files f0 f1 s x \<longleftrightarrow>
     (f0 = None \<and> f1 = None \<and> fdview x = fdview s \<or>
      (\<exists>i. f0 = Some i \<and> f1 = None \<and> fref (files s i) = 0 \<and> fdview x = put_ref i 1 (fdview s)) \<or>
      (\<exists>i j. f0 = Some i \<and> f1 = Some j \<and> i \<noteq> j \<and> i < NFILE \<and> j < NFILE \<and> fref (files s i) = 0 \<and> fref (files s j) = 0 \<and>
        fdview x = put_ref j 1 (put_ref i 1 (fdview s))))"

lemma two_files_alloc:
  assumes "filealloc s = (f0, u)" "(if f0 = None then (None, u) else filealloc u) = (f1, x)"
  shows "two_files f0 f1 s x"
proof (cases f0)
  case None
  then show ?thesis using assms filealloc_view(1) [OF assms(1)] by (simp add: two_files_def)
next
  case (Some i)
  note v = filealloc_view(2) [OF assms(1) Some]
  have x: "filealloc u = (f1, x)" using assms(2) Some by simp
  show ?thesis
  proof (cases f1)
    case None
    then show ?thesis using Some v filealloc_view(1) [OF x] by (simp add: two_files_def)
  next
    case (Some j)
    note w = filealloc_view(2) [OF x Some]
    then have "i \<noteq> j" "fref (files s j) = 0" using v fref_view [of u _ j] by (auto split: if_splits)
    then show ?thesis using Some \<open>f0 = Some i\<close> v w by (simp add: two_files_def)
  qed
qed

lemma two_files_undo:
  assumes "two_files f0 f1 s x" "close_opt me f0 x = Ok y u" "close_opt me f1 u = Ok z t"
  shows "fdview t = fdview s"
proof -
  note c = close_opt_view [OF assms(2)] close_opt_view [OF assms(3)]
  have com: "put_ref j 0 (put_ref i 0 w) = put_ref i 0 (put_ref j 0 w)" for i j and w :: "'p \<times> (nat \<Rightarrow> i32)"
    by (auto simp: put_ref_def)
  show ?thesis
    using assms(1) unfolding two_files_def
  proof (elim disjE conjE exE)
    fix i assume "f0 = Some i" "f1 = None" "fref (files s i) = 0" "fdview x = put_ref i 1 (fdview s)"
    then show ?thesis
      using c fref_view [of x _ i] by (simp add: put_ref_same)
  next
    fix i j assume a: "f0 = Some i" "f1 = Some j" "i \<noteq> j" "fref (files s i) = 0" "fref (files s j) = 0"
      "fdview x = put_ref j 1 (put_ref i 1 (fdview s))"
    have u: "fdview u = put_ref i 0 (put_ref j 1 (put_ref i 1 (fdview s)))"
      using c(1) a fref_view [OF a(6), of i] by simp
    then have "fdview t = put_ref j 0 (put_ref i 0 (put_ref j 1 (put_ref i 1 (fdview s))))"
      using c(2) a fref_view [OF u, of j] by simp
    then show ?thesis
      using a(4,5) by (auto simp: put_ref_def fdview_def)
  qed (use c in simp)
qed

lemma pipealloc_view:
  assumes "pipealloc me s = Ok r t"
  shows "r = None \<Longrightarrow> fdview t = fdview s"
    and "r = Some (i, j) \<Longrightarrow> i \<noteq> j \<and> i < NFILE \<and> j < NFILE \<and> fref (files s i) = 0 \<and> fref (files s j) = 0 \<and>
      fdview t = put_ref j 1 (put_ref i 1 (fdview s))"
proof -
  obtain f0 u where u: "filealloc s = (f0, u)" by fastforce
  obtain f1 x where x: "(if f0 = None then (None, u) else filealloc u) = (f1, x)"
    by (cases "if f0 = None then (None, u) else filealloc u") simp
  note two = two_files_alloc [OF u x]
  define bad :: "kernel \<Rightarrow> ((nat \<times> nat) option, kernel) outcome"
    where "bad = (\<lambda>s. bindO (close_opt me f0 s) (\<lambda>_ s. bindO (close_opt me f1 s) (\<lambda>_ s. Ok None s)))"
  have bad: "r = None \<and> fdview t = fdview s" if "bad y = Ok r t" "fdview y = fdview x" for y
  proof -
    have "two_files f0 f1 s y" using two that(2) by (simp add: two_files_def)
    then show ?thesis using that(1) two_files_undo [of f0 f1 s y] by (auto simp: bad_def bindO_eq_Ok)
  qed
  obtain p y where p: "kalloc_k x = (p, y)" by fastforce
  have split: "(case (f0, f1) of (Some i, Some j) \<Rightarrow>
       (if p = 0 then bad y else
         Ok (Some (i, j)) (upd_file j (\<lambda>x. x\<lparr>ftype := FD_PIPE, readable := 0, writable := 1, fpipe := p\<rparr>)
           (upd_file i (\<lambda>x. x\<lparr>ftype := FD_PIPE, readable := 1, writable := 0, fpipe := p\<rparr>)
             (y\<lparr>pipes := (pipes y)(p := pipe_new (peek (mem (kst y)) (p + 52) PIPESIZE))\<rparr>))))
     | _ \<Rightarrow> bad x) = Ok r t"
    using assms u x p by (simp add: pipealloc_def bad_def Let_def split: option.splits if_splits)
  have res: "r = None \<and> fdview t = fdview s \<or>
      (\<exists>i j. f0 = Some i \<and> f1 = Some j \<and> r = Some (i, j) \<and> fdview t = fdview x)"
    using split bad [of x] bad [of y] kalloc_k_view [OF p] by (auto split: option.splits if_splits)
  show "r = None \<Longrightarrow> fdview t = fdview s"
    using res by auto
  show "r = Some (i, j) \<Longrightarrow> i \<noteq> j \<and> i < NFILE \<and> j < NFILE \<and> fref (files s i) = 0 \<and> fref (files s j) = 0 \<and>
      fdview t = put_ref j 1 (put_ref i 1 (fdview s))"
    using res two by (auto simp: two_files_def)
qed


lemma kept_then:
  assumes "kept v a r" "\<And>x t. v t = a \<Longrightarrow> kept v b (f x t)"
  shows "kept v b (bindO r f)"
  using assms by (cases r) (auto simp: kept_def)

text \<open>The two descriptors of a pipe are given out, or the two files closed again.\<close>

lemma two_closed:
  assumes "fdview x = put_ref j 1 (put_ref i 1 w)" "i \<noteq> j" "snd w i = 0" "snd w j = 0"
  shows "kept fdview w (bindO (fileclose me i x) (\<lambda>_ s. bindO (fileclose me j s) (\<lambda>_ s. Ok r s)))"
proof -
  have c: "kept fdview (put_ref i 0 (put_ref j 1 (put_ref i 1 w))) (fileclose me i x)"
    using kept_fileclose [OF assms(1), of i me] assms(2) by simp
  have w: "put_ref j 0 (put_ref i 0 (put_ref j 1 (put_ref i 1 w))) = w"
    using assms(2-4) by (cases w) (auto simp: put_ref_def)
  show ?thesis
  proof (rule kept_then [OF c])
    fix y t assume "fdview t = put_ref i 0 (put_ref j 1 (put_ref i 1 w))"
    from kept_fileclose [OF this, of j me]
    show "kept fdview w (bindO (fileclose me j t) (\<lambda>_ s. Ok r s))"
      using assms(2) by (auto intro!: kept_rules simp: w)
  qed
qed

lemma fd_good_pipe:
  assumes g: "fd_ok w" "has_fds me fds w" and ij: "i \<noteq> j" "i < NFILE" "j < NFILE" "snd w i = 0" "snd w j = 0"
    and a: "a < NOFILE" "fds ! a = None" and b: "b < NOFILE" "fds[a := Some i] ! b = None"
  shows "fd_good me (put_fds me (False, fds[a := Some i, b := Some j]) (put_ref j 1 (put_ref i 1 w)))"
proof -
  have o: "fd_ok (put_fds me (False, fds[a := Some i]) (put_ref i 1 w))"
    using fd_ok_open [OF g a ij(2)] ij(4) by simp
  have h: "has_fds me (fds[a := Some i]) (put_fds me (False, fds[a := Some i]) (put_ref i 1 w))"
    using g(2) by (simp add: has_fds_def)
  show ?thesis
    using fd_good_open [OF o h b ij(3)] ij(1,5) by simp
qed

lemma pipe_fds_good:
  assumes g: "fd_ok w" "has_fds me fds w" and ij: "i \<noteq> j" "i < NFILE" "j < NFILE" "snd w i = 0" "snd w j = 0"
    and u: "fdview u = put_ref j 1 (put_ref i 1 w)"
  shows "good_end me (let (fd0, s) = fdalloc me i u; (fd1, s) = (if fd0 = None then (None, s) else fdalloc me j s) in
     case (fd0, fd1) of
       (Some a, Some b) \<Rightarrow>
         bindO (user_store me p (word_bytes (of_nat a)) s) (\<lambda>_ s.
         bindO (user_store me (p + 4) (word_bytes (of_nat b)) s) (\<lambda>_ s. Ok (0 :: i32) s))
     | _ \<Rightarrow>
         let s = (case fd0 of None \<Rightarrow> s | Some a \<Rightarrow> set_fd me a None s) in
         bindO (fileclose me i s) (\<lambda>_ s. bindO (fileclose me j s) (\<lambda>_ s. Ok (- 1) s)))"
proof -
  have wg: "fd_good me w" using g by (auto simp: fd_good_def)
  have h: "has_fds me fds (fdview u)" using g(2) u by simp
  obtain fd0 x where x: "fdalloc me i u = (fd0, x)" by fastforce
  show ?thesis
  proof (cases fd0)
    case None
    then show ?thesis
      using fdalloc_view(1) [OF x h] x two_closed [OF u ij(1,4,5), of me "- 1 :: i32"] wg by (auto intro: good_end_kept)
  next
    case (Some a)
    note v = fdalloc_view(2) [OF x h Some]
    have h': "has_fds me (fds[a := Some i]) (fdview x)" using h v by simp
    obtain fd1 y where y: "fdalloc me j x = (fd1, y)" by fastforce
    show ?thesis
    proof (cases fd1)
      case None
      have "fdview (set_fd me a None x) = put_ref j 1 (put_ref i 1 w)"
        using fdview_set_fd [OF h'] v u put_fds_same [OF h] list_update_id [of fds a] by simp
      note c = two_closed [OF this ij(1,4,5), of me "- 1 :: i32"]
      show ?thesis
        using fdalloc_view(1) [OF y h' None] x y None \<open>fd0 = Some a\<close> c wg by (auto intro: good_end_kept)
    next
      case (Some b)
      note z = fdalloc_view(2) [OF y h' Some]
      have "fd_good me (fdview y)"
        using fd_good_pipe [OF g ij, of a b] v z u by simp
      then show ?thesis
        using x y Some \<open>fd0 = Some a\<close> by (auto intro!: good_end_kept [where w = "fdview y"] kept_rules)
    qed
  qed
qed

lemma sys_pipe_good:
  assumes "fd_good me (fdview s)"
  shows "good_end me (sys_pipe me s)"
proof -
  obtain fds where g: "fd_ok (fdview s)" "has_fds me fds (fdview s)" using assms by (auto simp: fd_good_def)
  show ?thesis
    unfolding sys_pipe_def
  proof (rule good_end_bind [OF kept_args2(2) [OF refl]])
    fix p t assume t: "argptr me 0 8 s = Ok p t" "fdview t = fdview s"
    show "good_end me (case p of None \<Rightarrow> Ok (- 1) t | Some p \<Rightarrow>
     bindO (pipealloc me t) (\<lambda>x s. case x of None \<Rightarrow> Ok (- 1) s | Some (rfile, wfile) \<Rightarrow>
     let (fd0, s) = fdalloc me rfile s; (fd1, s) = (if fd0 = None then (None, s) else fdalloc me wfile s) in
     case (fd0, fd1) of
       (Some a, Some b) \<Rightarrow>
         bindO (user_store me p (word_bytes (of_nat a)) s) (\<lambda>_ s.
         bindO (user_store me (p + 4) (word_bytes (of_nat b)) s) (\<lambda>_ s. Ok (0 :: i32) s))
     | _ \<Rightarrow>
         let s = (case fd0 of None \<Rightarrow> s | Some a \<Rightarrow> set_fd me a None s) in
         bindO (fileclose me rfile s) (\<lambda>_ s. bindO (fileclose me wfile s) (\<lambda>_ s. Ok (- 1) s))))"
    proof (cases p)
      case (Some q)
      show ?thesis
      proof (cases "pipealloc me t")
        case (Ok x u)
        note pv = pipealloc_view [OF Ok]
        show ?thesis
        proof (cases x)
          case None
          then show ?thesis using pv(1) assms t(2) by (simp add: Some Ok)
        next
          case (Some ij)
          obtain i j where ij: "ij = (i, j)" by (cases ij)
          have "snd (fdview s) i = 0" "snd (fdview s) j = 0" using pv(2) [of i j] t(2) fref_view [OF t(2)] by (auto simp: Some ij)
          then show ?thesis
            using pipe_fds_good [OF g, of i j u q] pv(2) [of i j] t(2) by (simp add: \<open>p = Some q\<close> Ok Some ij)
        qed
      qed (simp_all add: Some)
    qed (use t assms in simp)
  qed
qed


section \<open>fork, exit and wait\<close>

abbreviation idle :: "proc \<Rightarrow> bool" where
  "idle p \<equiv> pstate p = UNUSED \<or> pstate p = ZOMBIE"

abbreviation no_fds :: "nat option list" where
  "no_fds \<equiv> replicate NOFILE None"

lemma fdview_proc:
  "i < length (procs (ptb s)) \<Longrightarrow> fst (fdview s) ! i = (idle (the_proc i s), ofile (the_proc i s))"
  "length (fst (fdview s)) = length (procs (ptb s))"
  by (simp_all add: fdview_def the_proc_def)

lemma set_proc_view:
  "fdview (set_proc i g s) = put_fds i (idle (g (the_proc i s)), ofile (g (the_proc i s))) (fdview s)"
  by (simp add: fdview_def set_proc_def put_fds_def map_update the_proc_def)

lemma put_fds_id: "put_fds i (fst w ! i) w = w"
  by (simp add: put_fds_def)

lemma put_fds_back: "fst w ! i = x \<Longrightarrow> put_fds i x (put_fds i y w) = w"
  using put_fds_id [of i w] by simp

lemma has_fds_other [simp]: "i \<noteq> me \<Longrightarrow> has_fds me fds (put_fds i x w) = has_fds me fds w"
  by (simp add: has_fds_def put_fds_def)

lemma has_fds_proc:
  assumes "has_fds i fds (fdview s)"
  shows "i < length (procs (ptb s))" "\<not> idle (the_proc i s)" "ofile (the_proc i s) = fds"
  using assms fdview_proc [where s = s] by (auto simp: has_fds_def)

lemma fd_ok_idle: "fd_ok w \<Longrightarrow> i < length (fst w) \<Longrightarrow> fst (fst w ! i) \<Longrightarrow> fst w ! i = (True, no_fds)"
  by (intro prod_eqI) (auto simp: fd_ok_def fds_ok_def)

lemma fd_ok_flag:
  assumes "fd_ok w" "i < length (fst w)" "snd (fst w ! i) = no_fds"
  shows "fd_ok (put_fds i (b, no_fds) w)"
proof -
  have "fds_ok (b, no_fds)" by (auto simp: fds_ok_def)
  then show ?thesis
    using assms fds_ok_put [of "fst w" "(b, no_fds)" i] fd_refs_flag [OF assms(2,3), of b] by (simp add: fd_ok_def)
qed

text \<open>A new process is a slot that was free, with no descriptors.\<close>

lemma alloc_slot_view:
  assumes "alloc_slot (ptb s) = (Some i, t)"
  shows "i < length (procs (ptb s))" "pstate (the_proc i s) = UNUSED"
    "fdview (s\<lparr>ptb := t\<rparr>) = put_fds i (False, ofile (the_proc i s)) (fdview s)"
  using assms
  by (auto simp: alloc_slot_def fdview_def put_fds_def map_update the_proc_def first_slot_Some split: option.splits)

lemma allocproc_view:
  assumes "allocproc s = (r, t)" "fd_ok (fdview s)"
  shows "r = None \<Longrightarrow> fdview t = fdview s"
    and "r = Some i \<Longrightarrow> i < length (fst (fdview s)) \<and> fst (fdview s) ! i = (True, no_fds) \<and>
      fdview t = put_fds i (False, no_fds) (fdview s)"
proof -
  obtain q u where q: "alloc_slot (ptb s) = (q, u)" by fastforce
  have both: "(r = None \<longrightarrow> fdview t = fdview s) \<and> (r = Some i \<longrightarrow> i < length (fst (fdview s)) \<and>
      fst (fdview s) ! i = (True, no_fds) \<and> fdview t = put_fds i (False, no_fds) (fdview s))" for i
  proof (cases q)
    case None
    then show ?thesis using assms q by (simp add: allocproc_def)
  next
    case (Some n)
    note a = alloc_slot_view [OF q [unfolded Some]]
    have l: "n < length (fst (fdview s))" using a(1) by (simp add: fdview_proc)
    have old: "fst (fdview s) ! n = (True, no_fds)"
      using fd_ok_idle [OF assms(2) l] fdview_proc(1) [OF a(1)] a(2) by simp
    then have o: "ofile (the_proc n s) = no_fds" using fdview_proc(1) [OF a(1)] by simp
    obtain k x where k: "kalloc_k (s\<lparr>ptb := u\<rparr>) = (k, x)" by fastforce
    have x: "fdview x = put_fds n (False, no_fds) (fdview s)"
      using kalloc_k_view [OF k] a(3) o by simp
    have ox: "ofile (the_proc n (set_proc n (\<lambda>p. p\<lparr>kstack := c\<rparr>) x)) = no_fds" for c
      using x l by (intro has_fds_ofile) (simp add: has_fds_def)
    show ?thesis
      using assms(1) q Some k x ox old l put_fds_id [of n "fdview s"]
      by (auto simp: allocproc_def Let_def set_proc_view [of _ "\<lambda>p. p\<lparr>pstate := UNUSED\<rparr>"] split: if_splits)
  qed
  show "r = None \<Longrightarrow> fdview t = fdview s" using both by blast
  show "r = Some i \<Longrightarrow> i < length (fst (fdview s)) \<and> fst (fdview s) ! i = (True, no_fds) \<and>
      fdview t = put_fds i (False, no_fds) (fdview s)" using both by blast
qed


text \<open>A parent and its new child, both alive, with descriptors that are counted.\<close>

definition family :: "nat \<Rightarrow> nat \<Rightarrow> nat option list \<Rightarrow> (bool \<times> nat option list) list \<times> (nat \<Rightarrow> i32) \<Rightarrow> bool" where
  "family me np nfds w \<longleftrightarrow> fd_ok w \<and> me \<noteq> np \<and> (\<exists>fds. has_fds me fds w) \<and> has_fds np nfds w"

lemma family_good: "family me np nfds w \<Longrightarrow> fd_good me w"
  by (auto simp: family_def fd_good_def)

lemma fork_files_family:
  assumes "fork_files me np i n s = Ok x t" "family me np nfds (fdview s)" "i + n = NOFILE"
    "\<forall>k < NOFILE. i \<le> k \<longrightarrow> nfds ! k = None"
  shows "\<exists>nfds. family me np nfds (fdview t)"
  using assms
proof (induction n arbitrary: i s nfds)
  case (Suc n)
  obtain fds where g: "fd_ok (fdview s)" "me \<noteq> np" "has_fds me fds (fdview s)" "has_fds np nfds (fdview s)"
    using Suc.prems(2) by (auto simp: family_def)
  note o = has_fds_ofile [OF g(3)]
  show ?case
  proof (cases "fds ! i")
    case None
    then show ?thesis using Suc.prems Suc.IH [of "Suc i" s nfds] by (simp add: o)
  next
    case (Some f)
    have i: "i < NOFILE" using Suc.prems(3) by simp
    define u where "u = upd_file f (\<lambda>x. x\<lparr>fref := fref x + 1\<rparr>) s"
    define v where "v = set_proc np (\<lambda>p. p\<lparr>ofile := (ofile p)[i := Some f]\<rparr>) u"
    have r: "fork_files me np (Suc i) n v = Ok x t"
      using Suc.prems(1) by (auto simp: o Some filedup_def u_def v_def split: if_splits)
    have uw: "fdview u = put_ref f (snd (fdview s) f + 1) (fdview s)"
      by (simp add: u_def fdview_fref)
    then have hu: "has_fds np nfds (fdview u)" using g(4) by simp
    have vw: "fdview v = put_fds np (False, nfds[i := Some f]) (put_ref f (snd (fdview s) f + 1) (fdview s))"
      using has_fds_proc [OF hu] uw by (simp add: v_def set_proc_view)
    have "fd_ok (fdview v)"
      using fd_ok_open [OF g(1,4) i, of f] fd_ok_close(3) [OF g(1,3) i Some] Suc.prems(4) i vw by simp
    then have "family me np (nfds[i := Some f]) (fdview v)"
      using g vw by (auto simp: family_def)
    moreover have "\<forall>k < NOFILE. Suc i \<le> k \<longrightarrow> nfds[i := Some f] ! k = None"
      using Suc.prems(4) by simp
    ultimately show ?thesis
      using Suc.IH [OF r] Suc.prems(3) by simp
  qed
qed auto

lemma kept_fork_pages [kept_rules]:
  "fdview s = a \<Longrightarrow> kept fdview a (fork_shared n np v i s)"
  by (induction n arbitrary: i s) (auto simp: Let_def intro!: kept_rules)

lemma kept_fork_private [kept_rules]:
  "fdview s = a \<Longrightarrow> kept fdview a (fork_private n me np v i s)"
  by (induction n arbitrary: i s) (auto simp: Let_def intro!: kept_rules split: prod.split)

lemma kept_fork_areas [kept_rules]:
  "fdview s = a \<Longrightarrow> kept fdview a (fork_areas n me np v s)"
  by (induction n arbitrary: v s) (auto simp: Let_def intro!: kept_rules)


text \<open>The two ends of \<^verbatim>\<open>fork\<close>: the child is made runnable, or its slot freed.\<close>

lemma fork_done:
  assumes "family me np nfds (fdview s)"
  shows "fd_good me (fdview (set_proc np (\<lambda>p. p\<lparr>pstate := RUNNABLE\<rparr>) s))"
proof -
  have h: "has_fds np nfds (fdview s)" using assms by (simp add: family_def)
  then show ?thesis
    using family_good [OF assms] has_fds_proc [OF h] put_fds_same [OF h] by (simp add: set_proc_view)
qed

lemma fork_undone:
  assumes "family me np no_fds (fdview s)"
  shows "fd_good me (fdview (set_proc np (\<lambda>p. p\<lparr>kstack := 0, pstate := UNUSED\<rparr>) s))"
proof -
  have h: "has_fds np no_fds (fdview s)" using assms by (simp add: family_def)
  then have "fd_ok (put_fds np (True, no_fds) (fdview s))"
    using assms by (intro fd_ok_flag) (auto simp: family_def has_fds_def)
  then show ?thesis
    using assms has_fds_proc [OF h] by (auto simp: set_proc_view fd_good_def family_def)
qed

lemma fork_tail:
  assumes "family me np no_fds (fdview s)"
  shows "good_end me (bindO (fork_files me np 0 NOFILE s) (\<lambda>_ s.
              case cwd (the_proc me s) of
                None \<Rightarrow> Fault ''fork: no current directory''
              | Some ip \<Rightarrow>
                  let s = set_proc np (\<lambda>p. p\<lparr>cwd := Some ip\<rparr>) (idup ip s);
                      s = set_proc np (\<lambda>p. p\<lparr>pname := name_copy (pname p) (pname (the_proc me s))\<rparr>) s
                  in bindO (fork_areas page_fuel me np (vm_head me s) s) (\<lambda>_ s.
                       Ok (pid (the_proc np s)) (set_proc np (\<lambda>p. p\<lparr>pstate := RUNNABLE\<rparr>) s))))"
proof (cases "fork_files me np 0 NOFILE s")
  case (Ok x t)
  obtain nfds where f: "family me np nfds (fdview t)"
    using fork_files_family [OF Ok assms] by auto
  show ?thesis
  proof (cases "cwd (the_proc me t)")
    case (Some ip)
    show ?thesis
      using f by (auto simp: Ok Some Let_def intro!: good_end_bind [where w = "fdview t"] kept_rules fork_done)
  qed (simp add: Ok)
qed simp_all

lemma fork_good:
  assumes "fd_good me (fdview s)"
  shows "good_end me (fork me s)"
proof -
  obtain fds where g: "fd_ok (fdview s)" "has_fds me fds (fdview s)" using assms by (auto simp: fd_good_def)
  obtain r t where r: "allocproc s = (r, t)" by fastforce
  show ?thesis
  proof (cases r)
    case None
    then show ?thesis using assms allocproc_view(1) [OF r g(1)] r by (simp add: fork_def)
  next
    case (Some np)
    note a = allocproc_view(2) [OF r g(1) Some]
    have "me \<noteq> np" using a g(2) by (auto simp: has_fds_def)
    moreover have "fd_ok (fdview t)" using a fd_ok_flag [OF g(1)] by simp
    ultimately have f: "family me np no_fds (fdview t)"
      using a g(2) by (auto simp: family_def has_fds_def)
    have fam: "family me np no_fds (fdview u)" if "fdview u = fdview t" for u using f that by simp
    show ?thesis
      unfolding fork_def r Some prod.case option.case Let_def
      by (rule good_end_bind [where w = "fdview t"]; (rule kept_rules, simp)?)
        (auto intro!: good_end_bind [where w = "fdview t"] kept_rules fork_undone fork_tail [unfolded Let_def] fam)
  qed
qed


lemma exit_files_good:
  assumes "exit_files me fd n s = Ok x t" "fd_ok (fdview s)" "has_fds me fds (fdview s)" "fd + n = NOFILE"
    "\<forall>k < fd. fds ! k = None"
  shows "fd_ok (fdview t) \<and> has_fds me no_fds (fdview t)"
  using assms
proof (induction n arbitrary: fd s fds)
  case 0
  then have "fds = no_fds"
    using fd_ok_fds [OF 0(2,3)] by (auto intro!: nth_equalityI)
  then show ?case using 0 by simp
next
  case (Suc n)
  note o = has_fds_ofile [OF Suc.prems(3)]
  show ?case
  proof (cases "fds ! fd")
    case None
    then have "\<forall>k < Suc fd. fds ! k = None" using Suc.prems(5) by (auto simp: less_Suc_eq)
    then show ?thesis using Suc.IH [of "Suc fd" s fds] Suc.prems None by (simp add: o)
  next
    case (Some f)
    have i: "fd < NOFILE" using Suc.prems(4) by simp
    obtain y u where u: "fileclose me f s = Ok y u"
      "exit_files me (Suc fd) n (set_proc me (\<lambda>p. p\<lparr>ofile := (ofile p)[fd := None]\<rparr>) u) = Ok x t" (is "exit_files me _ n ?v = _")
      using Suc.prems(1) by (auto simp: o Some bindO_eq_Ok)
    have uw: "fdview u = put_ref f (snd (fdview s) f - 1) (fdview s)"
      using keptD [OF kept_fileclose [OF refl] u(1)] .
    then have hu: "has_fds me fds (fdview u)" using Suc.prems(3) by simp
    have vw: "fdview ?v = put_fds me (False, fds[fd := None]) (put_ref f (snd (fdview s) f - 1) (fdview s))"
      using has_fds_proc [OF hu] uw by (simp add: set_proc_view)
    have "fd_ok (fdview ?v)" "has_fds me (fds[fd := None]) (fdview ?v)"
      using fd_ok_close(1) [OF Suc.prems(2,3) i Some] vw Suc.prems(3) by (simp_all add: has_fds_def)
    then show ?thesis
      using Suc.IH [OF u(2)] Suc.prems(4,5) fd_ok_fds [OF Suc.prems(2,3)] i
      by (auto simp: nth_list_update less_Suc_eq)
  qed
qed

abbreviation slots :: "proc list \<Rightarrow> (bool \<times> nat option list) list" where
  "slots ps \<equiv> map (\<lambda>p. (idle p, ofile p)) ps"

lemma wakeup1_slots [simp]: "slots (wakeup1 ch ps) = slots ps"
  by (auto simp: wakeup1_def)

lemma reparent1_slots [simp]: "slots (reparent1 B ini me i ps) = slots ps"
proof (cases "i < length ps")
  case True
  then show ?thesis by (auto simp: reparent1_def Let_def map_update nth_list_update intro!: nth_equalityI)
qed (auto simp: reparent1_def Let_def list_update_beyond)

lemma reparent_slots [simp]: "slots (reparent B ini me i n ps) = slots ps"
  by (induction n arbitrary: i ps) simp_all

lemma slots_nth:
  assumes "slots ps = slots qs" "i < length qs"
  shows "ofile (ps ! i) = ofile (qs ! i)"
proof -
  have "length ps = length qs" using arg_cong [OF assms(1), of length] by simp
  then show ?thesis using arg_cong [OF assms(1), of "\<lambda>x. x ! i"] assms(2) by simp
qed

lemma exit_table_view:
  assumes "has_fds me fds (fdview s)"
  shows "fdview (set_ptb (exit_table B me) s) = put_fds me (True, fds) (fdview s)"
proof -
  let ?ps = "reparent B (initproc (ptb s)) me 0 NPROC (wakeup1 (procptr B (parent (procs (ptb s) ! me))) (procs (ptb s)))"
  have "slots ?ps = slots (procs (ptb s))" by simp
  from slots_nth [OF this, of me] have "ofile (?ps ! me) = fds"
    using has_fds_proc [OF assms] by (simp add: the_proc_def)
  then show ?thesis
    by (simp add: fdview_def set_ptb_def exit_table_def Let_def put_fds_def map_update)
qed

lemma exit_good:
  assumes "fd_good me (fdview s)" "exit me s = Ok x t"
  shows "fd_ok (fdview t)"
proof -
  obtain fds where g: "fd_ok (fdview s)" "has_fds me fds (fdview s)" using assms by (auto simp: fd_good_def)
  obtain y u where u: "exit_files me 0 NOFILE s = Ok y u"
    using assms(2) by (auto simp: exit_def bindO_eq_Ok split: if_splits)
  have e: "fd_ok (fdview u)" "has_fds me no_fds (fdview u)"
    using exit_files_good [OF u g] by auto
  have fin: "fdview (set_ptb (exit_table B me) v) = put_fds me (True, no_fds) (fdview u)" if "fdview v = fdview u" for B v
    using exit_table_view [of me no_fds v B] that e(2) by simp
  have "kept fdview (put_fds me (True, no_fds) (fdview u)) (exit me s)"
    unfolding exit_def u bindO.simps Let_def
    by (auto simp: fin intro!: kept_then [where a = "fdview u"] split: option.split) (rule kept_rules; simp)+
  then have "fdview t = put_fds me (True, no_fds) (fdview u)"
    using assms(2) by (rule keptD)
  then show ?thesis
    using fd_ok_flag [OF e(1)] e(2) by (simp add: has_fds_def)
qed

lemma wait_reap_view:
  assumes "fst (fdview s) ! i = (True, fds)" "i < length (procs (ptb s))"
  shows "fdview (set_ptb (\<lambda>t. t\<lparr>procs := wait_reap i (procs t)\<rparr>) s) = fdview s"
proof -
  have "fdview (set_ptb (\<lambda>t. t\<lparr>procs := wait_reap i (procs t)\<rparr>) s) = put_fds i (True, fds) (fdview s)"
    using assms fdview_proc(1) [OF assms(2)]
    by (simp add: fdview_def set_ptb_def wait_reap_def put_fds_def map_update the_proc_def)
  then show ?thesis using put_fds_id [of i "fdview s"] assms(1) by simp
qed

lemma wait_view:
  assumes "wait me s = Ok r t"
  shows "fdview t = fdview s"
proof -
  obtain kids z where w: "wait_scan me (procs (ptb s)) = (kids, z)" by fastforce
  show ?thesis
  proof (cases z)
    case None
    then show ?thesis using assms w by (simp add: wait_def split: if_splits)
  next
    case (Some i)
    have i: "i < length (procs (ptb s))" "idle (the_proc i s)"
      using w by (auto simp: wait_scan_def first_slot_Some the_proc_def Some)
    obtain fds where f: "fst (fdview s) ! i = (True, fds)" using fdview_proc(1) [OF i(1)] i(2) by simp
    have r: "fdview (set_ptb (\<lambda>t. t\<lparr>procs := wait_reap i (procs t)\<rparr>) u) = fdview s" if "fdview u = fdview s" for u
      using wait_reap_view [of u i fds] that f i(1) fdview_proc(2) by metis
    have "kept fdview (fdview s) (wait me s)"
      unfolding wait_def w Some prod.case option.case Let_def by (auto intro!: kept_rules r)
    then show ?thesis using assms by (rule keptD)
  qed
qed


section \<open>Every system call\<close>

definition call_good :: "nat \<Rightarrow> sysfun \<Rightarrow> bool" where
  "call_good me f \<longleftrightarrow> (\<forall>s r t. fd_good me (fdview s) \<longrightarrow> f me s = Ok r t \<longrightarrow>
     fd_ok (fdview t) \<and> (r = None \<or> fd_good me (fdview t)))"

lemma call_good_returns:
  assumes "\<And>s. fd_good me (fdview s) \<Longrightarrow> good_end me (f me s)"
  shows "call_good me (returns f)"
  unfolding call_good_def
proof (intro allI impI)
  fix s r t assume "fd_good me (fdview s)" "returns f me s = Ok r t"
  then have "fd_good me (fdview t)"
    using assms [of s] by (auto simp: returns_def bindO_eq_Ok)
  then show "fd_ok (fdview t) \<and> (r = None \<or> fd_good me (fdview t))"
    by (simp add: fd_good_def)
qed

lemma call_good_kept:
  assumes "\<And>s. kept fdview (fdview s) (f me s)"
  shows "call_good me (returns f)"
  using assms by (intro call_good_returns good_end_kept)

lemma kept_wait: "kept fdview (fdview s) (wait me s)"
  by (auto simp: kept_def dest: wait_view)

lemma exit_call_good: "call_good me sys_exit"
  by (auto simp: call_good_def sys_exit_def bindO_eq_Ok dest: exit_good)

lemma syscalls_good: "list_all (\<lambda>f. case f of None \<Rightarrow> True | Some f \<Rightarrow> call_good me f) syscalls"
proof -
  note changing = fork_good sys_pipe_good sys_dup_good sys_open_good sys_close_good
  show ?thesis
    unfolding syscalls_def list.pred_inject option.case
    by (intro conjI TrueI list.pred_inject(1) exit_call_good call_good_kept [OF kept_wait] changing [THEN call_good_returns];
        (assumption | (rule call_good_kept, rule kept_rules, rule refl)))
qed

text \<open>C1: the table of open files is counted right for ever. Let the reference count of every entry be
  the number of descriptors, over all processes, that name it, let every process have sixteen descriptors which
  name entries of the table, and none when its slot is free or it is a zombie; and let \<open>me\<close> be a process that is alive.
  Then whatever system call \<open>me\<close> makes (\<^verbatim>\<open>open\<close>, \<^verbatim>\<open>dup\<close>, \<^verbatim>\<open>close\<close>, \<^verbatim>\<open>pipe\<close>, \<^verbatim>\<open>fork\<close>, \<^verbatim>\<open>exit\<close>, \<^verbatim>\<open>wait\<close>, \<^verbatim>\<open>mmap\<close> and all the others,
  on their error paths as well), the same holds when it is done, and \<open>me\<close> is still alive unless it has exited.\<close>

theorem syscall_counts_files:
  assumes "fd_ok (fdview s)" "has_fds me fds (fdview s)" "syscall me s = Ok gone t"
  shows "fd_ok (fdview t) \<and> (gone \<or> (\<exists>fds'. has_fds me fds' (fdview t)))"
proof -
  have g: "fd_good me (fdview s)" using assms by (auto simp: fd_good_def)
  have unk: "fd_good me (fdview t)" if "unknown_call me n s = Ok gone t" for n
  proof -
    have "kept fdview (fdview s) (unknown_call me n s)"
      by (auto simp: unknown_call_def intro!: kept_rules)
    from keptD [OF this that] show ?thesis using g by simp
  qed
  let ?n = "tf_get me TF_eax s"
  show ?thesis
  proof (cases "0 <s ?n \<and> ?n <s of_nat (length syscalls) \<and> syscalls ! unat ?n \<noteq> None")
    case True
    then obtain f where f: "syscalls ! unat ?n = Some f" by auto
    obtain r u where r: "f me s = Ok r u" "gone = (r = None)" "fdview t = fdview u"
      using assms(3) True f by (auto simp: syscall_def Let_def bindO_eq_Ok split: option.splits)
    have n: "unat ?n < 2147483648" using True i32_neg_iff [of ?n] by (auto simp: word_sless_alt)
    then have "unat ?n < length syscalls"
      using True i32_small(1) [of ?n 24] by (simp add: syscalls_def)
    then have "call_good me f"
      using syscalls_good [of me] f by (auto simp: list_all_length)
    then show ?thesis
      using r g by (auto simp: call_good_def fd_good_def)
  next
    case False
    then have "unknown_call me ?n s = Ok gone t"
      using assms(3) by (auto simp: syscall_def Let_def split: if_splits)
    from unk [OF this] show ?thesis by (auto simp: fd_good_def)
  qed
qed


text \<open>A process with one open file, about to call \<^verbatim>\<open>dup(0)\<close>.\<close>

definition demo_mem_dup :: memory where
  "demo_mem_dup = store32 (demo_umem [0]) 0x8014001C 10"

definition demo_open :: kernel where
  "demo_open = set_fd 0 0 (Some 3) (upd_file 3 (\<lambda>f. f\<lparr>fref := 1\<rparr>) (demo_kernel demo_mem_dup))"

lemma demo_open_simps:
  "kst demo_open = \<lparr>mem = demo_mem_dup, use_lock = True, freelist = 0\<rparr>"
  "the_proc 0 demo_open = demo_proc\<lparr>sz := 4096, pgdir := 0x80120000, pstate := RUNNING, pid := 1, tf := 0x80140000, ofile := Some 3 # replicate 15 None\<rparr>"
  "fref (files demo_open 3) = 1"
  by (simp_all add: demo_open_def set_fd_def set_proc_def upd_file_def demo_kernel_def the_proc_def kernel.defs fs.defs logst.defs demo_proc_def numeral_eq_Suc)

lemma demo_open_ok: "fd_ok (fdview demo_open)" "has_fds 0 (Some 3 # replicate 15 None) (fdview demo_open)"
proof -
  have v: "fdview (demo_kernel m) = ((False, no_fds) # replicate 63 (True, no_fds), \<lambda>_. 0)" for m
    by (simp add: fdview_def demo_kernel_def kernel.defs fs.defs logst.defs demo_proc_def NOFILE_def)
  have ok: "fd_ok ((False, no_fds) # replicate 63 (True, no_fds), \<lambda>_. 0)"
    by (auto simp: fd_ok_def NPROC_def fds_ok_def fd_refs_def count_list_0_iff sum_list_replicate)
  have h: "has_fds 0 no_fds ((False, no_fds) # replicate 63 (True, no_fds), \<lambda>_. 0 :: i32)"
    by (simp add: has_fds_def)
  have w: "fdview demo_open = put_fds 0 (False, no_fds[0 := Some 3]) (put_ref 3 1 ((False, no_fds) # replicate 63 (True, no_fds), \<lambda>_. 0))"
    unfolding demo_open_def using h by (subst fdview_set_fd) (simp_all add: fdview_fref v)
  show "fd_ok (fdview demo_open)"
    using fd_ok_open [OF ok h, of 0 3] by (simp add: w NOFILE_def NFILE_def)
  show "has_fds 0 (Some 3 # replicate 15 None) (fdview demo_open)"
    by (simp add: w has_fds_def NOFILE_def numeral_eq_Suc)
qed

lemma demo_dup: "syscall 0 demo_open = Ok False (tf_set 0 TF_eax 1 (upd_file 3 (\<lambda>f. f\<lparr>fref := fref f + 1\<rparr>) (set_fd 0 1 (Some 3) demo_open)))"
proof -
  have m: "demo_layout demo_mem_dup" "load32 demo_mem_dup 0x80130004 = 0" "load32 demo_mem_dup 0x8014001C = 10"
    by (simp_all add: demo_mem_dup_def demo_layout_def demo_umem_def load32_def store32_def)
  have n: "tf_get 0 TF_eax demo_open = 10"
    using m(3) by (simp add: tf_get_def demo_open_simps)
  have arg: "argint 0 0 demo_open = Ok (Some 0) demo_open"
    using m(1,2) unfolding demo_layout_def
    by (simp add: argint_def fetchint_def tf_get_def user_word_def user_load_def Let_def upresent_def load32_def demo_open_simps
        demo_layout_pte [OF m(1)] uread_def uaddr_def upage_def P2V_def PTE_ADDR_def PGROUNDDOWN_def get32_def upt_conv_Cons)
  have fd: "argfd 0 0 demo_open = Ok (Some (0, 3)) demo_open"
    by (simp add: argfd_def arg i32_neg_iff i32_small NOFILE_def demo_open_simps)
  have al: "fdalloc 0 3 demo_open = (Some 1, set_fd 0 1 (Some 3) demo_open)"
    by (simp add: fdalloc_def demo_open_simps NOFILE_def upt_conv_Cons)
  have ref: "fref (files (set_fd 0 1 (Some 3) demo_open) 3) = 1"
    by (simp add: set_fd_def set_proc_def demo_open_simps)
  have dup: "sys_dup 0 demo_open = Ok 1 (upd_file 3 (\<lambda>f. f\<lparr>fref := fref f + 1\<rparr>) (set_fd 0 1 (Some 3) demo_open))"
    using ref by (simp add: sys_dup_def fd al filedup_def)
  show ?thesis
    by (simp add: syscall_def n syscalls_def returns_def dup i32_small)
qed

theorem syscall_counts_files_witness:
  "fd_ok (fdview (tf_set 0 TF_eax 1 (upd_file 3 (\<lambda>f. f\<lparr>fref := fref f + 1\<rparr>) (set_fd 0 1 (Some 3) demo_open)))) \<and>
   (\<exists>fds. has_fds 0 fds (fdview (tf_set 0 TF_eax 1 (upd_file 3 (\<lambda>f. f\<lparr>fref := fref f + 1\<rparr>) (set_fd 0 1 (Some 3) demo_open)))))"
  using syscall_counts_files [OF demo_open_ok demo_dup] by blast

end
