(* ===== verification/Areas.thy ===== *)
theory Areas
  imports Trap
begin

text \<open>
  What \<^verbatim>\<open>mmap\<close>, \<^verbatim>\<open>fork\<close> and the page-fault handler do to the address space of a process: the
  pages they map, what is in them, and the list of areas they leave.
\<close>

section \<open>Kernel data beside the pages\<close>

text \<open>The \<open>n\<close> bytes at \<open>a\<close> lie in the image of the kernel, below the pages that \<^verbatim>\<open>kalloc\<close> gives out.\<close>

definition kdata :: "ksyms \<Rightarrow> u32 \<Rightarrow> nat \<Rightarrow> bool" where
  "kdata L a n \<longleftrightarrow> 2147483648 \<le> unat a \<and> unat a + n \<le> unat (sym_end L) \<and> aligned4 a"

lemma kdata_not_kpage:
  assumes "kdata L a n" "unat (b - a) < n"
  shows "\<not> kpage L (PGROUNDDOWN b)"
proof -
  have n: "unat a + unat (b - a) < unat (sym_end L)" using assms by (simp add: kdata_def)
  then have "unat b = unat a + unat (b - a)"
    using u32_lt_4G [of "sym_end L"] unat_add_lt [of a "b - a"] by simp
  moreover have "unat (PGROUNDDOWN b) \<le> unat b" by (simp add: unat_PGROUNDDOWN)
  ultimately show ?thesis using n by (auto simp: kpage_def u32_le_iff_unat)
qed

lemma unat_add_le: "unat (a + b) \<le> unat a + unat (b :: u32)"
  by (simp add: unat_word_ariths)

lemma kdata_word:
  assumes "kdata L a n" "unat k + 4 \<le> n" "k mod 4 = 0" "x - (a + k) < 4"
  shows "\<not> kpage L (PGROUNDDOWN x)"
proof -
  have "unat (x - a) \<le> unat (x - (a + k)) + unat k"
    using unat_add_le [of "x - (a + k)" k] by (simp add: algebra_simps)
  then have "unat (x - a) < n"
    using assms(2,4) by (simp add: u32_less_iff_unat)
  then show ?thesis by (rule kdata_not_kpage [OF assms(1)])
qed

lemma aligned4_off:
  assumes "aligned4 a" "k mod 4 = 0"
  shows "aligned4 (a + k)"
proof -
  have k: "unat k mod 4 = 0" using assms(2) aligned4_unat [of k] by (simp add: aligned4_def)
  have "unat (a + k) mod 4 = (unat a + unat k) mod 4"
    using mod_mod_cancel [of 4 4294967296 "unat a + unat k"] by (simp add: unat_word_ariths)
  also have "\<dots> = (unat a mod 4 + unat k mod 4) mod 4" by (rule mod_add_eq [symmetric])
  also have "\<dots> = 0" using assms(1) k by (simp add: aligned4_unat)
  finally show ?thesis by (simp add: aligned4_unat)
qed

lemma page_aligned4: "page_aligned a \<Longrightarrow> aligned4 a"
  using mod_mod_cancel [of 4 4096 "unat a"] by (simp add: aligned4_unat page_aligned_unat)

lemma uvm_inv_pages:
  assumes "uvm_inv L k pd xs"
  shows "x \<in> set xs \<Longrightarrow> kpage L x" "x \<in> pt_pages (mem k) pd \<Longrightarrow> kpage L x"
  using assms by (auto simp: uvm_inv_def vm_inv_def free_rep_def list_all_iff pt_pages_def pt_wf_def)

text \<open>Writing elsewhere does not touch an address space.\<close>

lemma uvm_inv_frame:
  assumes inv: "uvm_inv L k pd xs" and "freelist k' = freelist k"
    and frame: "\<And>b. PGROUNDDOWN b \<in> set xs \<union> pt_pages (mem k) pd \<Longrightarrow> mem k' b = mem k b"
  shows "uvm_inv L k' pd xs" "pte_at (mem k') pd = pte_at (mem k) pd" "pt_pages (mem k') pd = pt_pages (mem k) pd"
proof -
  have vm: "free_rep L k xs" "pt_wf L (mem k) pd" "set xs \<inter> pt_pages (mem k) pd = {}"
    using inv by (auto simp: uvm_inv_def vm_inv_def)
  have "mem k' b = mem k b" if "PGROUNDDOWN b \<in> pt_pages (mem k) pd" for b using frame that by simp
  note pt = pt_frame [OF vm(2) this]
  show pte: "pte_at (mem k') pd = pte_at (mem k) pd" using pt(2) by (simp add: fun_eq_iff)
  show pp: "pt_pages (mem k') pd = pt_pages (mem k) pd" by (rule pt(4))
  have "vm_inv L k' pd xs"
    using free_rep_frame [OF vm(1) assms(2)] frame pt(3) pp vm(3) by (simp add: vm_inv_def)
  then show "uvm_inv L k' pd xs"
    by (rule uvm_inv_same [OF inv _ pte]) (simp add: pp)
qed


text \<open>Taking a page off the free list.\<close>

lemma uvm_inv_take:
  assumes inv: "uvm_inv L k pd (v # xs)"
  shows "kalloc k = (v, k\<lparr>freelist := load32 (mem k) v\<rparr>)" "kpage L v" "v \<notin> set xs" "v \<notin> pt_pages (mem k) pd"
    "v \<notin> upage (mem k) pd ` umapped (mem k) pd" "uvm_inv L (k\<lparr>freelist := load32 (mem k) v\<rparr>) pd xs"
proof -
  have vm: "free_rep L k (v # xs)" "pt_wf L (mem k) pd" "set (v # xs) \<inter> pt_pages (mem k) pd = {}"
    using inv by (auto simp: uvm_inv_def vm_inv_def)
  show "kalloc k = (v, k\<lparr>freelist := load32 (mem k) v\<rparr>)" by (rule kalloc_cons(1) [OF vm(1)])
  show "kpage L v" "v \<notin> set xs" using vm(1) by (auto simp: free_rep_def)
  show "v \<notin> pt_pages (mem k) pd" using vm(3) by simp
  show "v \<notin> upage (mem k) pd ` umapped (mem k) pd" using uvm_inv_page(2) [OF inv] by auto
  have "vm_inv L (k\<lparr>freelist := load32 (mem k) v\<rparr>) pd xs"
    using kalloc_cons(2) [OF vm(1)] vm(2,3) by (simp add: vm_inv_def)
  then show "uvm_inv L (k\<lparr>freelist := load32 (mem k) v\<rparr>) pd xs"
    by (rule uvm_inv_same [OF inv]) auto
qed

section \<open>A new area\<close>

text \<open>The words of an area, as \<^verbatim>\<open>create_vma\<close> fills them in.\<close>

definition area_at :: "memory \<Rightarrow> u32 \<Rightarrow> u32 \<Rightarrow> u32 \<Rightarrow> i32 \<Rightarrow> i32 \<Rightarrow> u32 \<Rightarrow> bool" where
  "area_at m v start en prot flgs nxt \<longleftrightarrow> vm_valid m v = 1 \<and> vm_start m v = start \<and> vm_end m v = en \<and>
     vm_prot m v = prot \<and> vm_flags m v = flgs \<and> vm_next m v = nxt"

lemma ofile_word_kst [simp]: "ofile_word me fd (s\<lparr>kst := k\<rparr>) = ofile_word me fd s"
  by (simp add: ofile_word_def fileaddr_def the_proc_def split: option.split)

lemma store_in_page:
  assumes "page_aligned v" "unat c + 4 \<le> 4096" "PGROUNDDOWN b \<noteq> v"
  shows "store32 m (v + c) x b = m b"
proof (rule store32_elsewhere)
  have "unat (b - v) \<le> unat (b - (v + c)) + unat c"
    using unat_add_le [of "b - (v + c)" c] by (simp add: algebra_simps)
  then show "\<not> b - (v + c) < 4"
    using assms in_page_iff [OF assms(1), of b] by (auto simp: u32_less_iff_unat)
qed

lemma create_vma_spec:
  assumes inv: "uvm_inv L (kst s) pd (v # xs)" and f: "ofile_word me fd s \<noteq> None"
    and prev: "kdata L prev 48"
  obtains k where "create_vma me prev nxt st len pr fl fd s = Ok v (s\<lparr>kst := k\<rparr>)"
    "uvm_inv L k pd xs" "pte_at (mem k) pd = pte_at (mem (kst s)) pd" "pt_pages (mem k) pd = pt_pages (mem (kst s)) pd"
    "area_at (mem k) v st (PGROUNDUP (st + len) - 1) pr fl nxt" "load32 (mem k) (prev + 44) = v"
    "\<And>b. PGROUNDDOWN b \<noteq> v \<Longrightarrow> \<not> b - (prev + 44) < 4 \<Longrightarrow> mem k b = mem (kst s) b"
proof -
  note tk = uvm_inv_take [OF inv]
  obtain fw where fw: "ofile_word me fd s = Some fw" using f by auto
  have pv: "page_aligned v" using tk(2) by auto
  have av: "aligned4 (v + c)" if "c mod 4 = 0" for c using aligned4_off [OF page_aligned4 [OF pv] that] .
  have ap: "aligned4 (prev + 44)" using prev by (intro aligned4_off) (auto simp: kdata_def)
  have ne: "v + c \<noteq> prev + 44" if "c < PGSIZE" for c
    using kdata_word [OF prev, of 44 "v + c"] that tk(2) pv by auto
  have ne0: "v \<noteq> prev + 44" "v \<noteq> prev" using ne [of 0] ne [of 44] by auto
  let ?m = "mem (kst s)"
  define m3 where "m3 = store32 (store32 (store32 ?m v 1) (v + 4) st) (v + 8) (PGROUNDUP (st + len) - 1)"
  define m7 where "m7 = store32 (store32 (store32 (store32 m3 (v + 20) (vm_end m3 v - st)) (v + 24) pr) (v + 28) fl) (v + 32) fd"
  define m8 where "m8 = store32 (store32 (store32 m7 (v + 36) (vm_start m7 nxt - vm_end m7 v)) (v + 40) fw) (v + 44) nxt"
  define k where "k = (kst s)\<lparr>freelist := load32 ?m v, mem := store32 m8 (prev + 44) v\<rparr>"
  have frame: "m8 b = ?m b" if "PGROUNDDOWN b \<noteq> v" for b
    using that store_in_page [OF pv, of 0] by (simp add: m8_def m7_def m3_def store_in_page [OF pv])
  have kb: "mem k b = ?m b" if "PGROUNDDOWN b \<noteq> v" "\<not> b - (prev + 44) < 4" for b
    using that frame by (simp add: k_def store32_elsewhere)
  note fr = uvm_inv_frame [OF tk(6), of k]
  have same: "mem k b = mem (kst s\<lparr>freelist := load32 ?m v\<rparr>) b"
    if "PGROUNDDOWN b \<in> set xs \<union> pt_pages (mem (kst s\<lparr>freelist := load32 ?m v\<rparr>)) pd" for b
    using that kb [of b] tk(3,4) kdata_word [OF prev, of 44 b] uvm_inv_pages [OF tk(6)] by auto
  show thesis
  proof (rule that)
    show "create_vma me prev nxt st len pr fl fd s = Ok v (s\<lparr>kst := k\<rparr>)"
      by (simp add: create_vma_def kalloc_k_def tk(1) kpage_nonzero [OF tk(2)] set_word_def upd_mem_def fw Let_def
          k_def m8_def m7_def m3_def)
    show "uvm_inv L k pd xs" "pte_at (mem k) pd = pte_at ?m pd" "pt_pages (mem k) pd = pt_pages ?m pd"
      using fr same by (simp_all add: k_def)
    show "load32 (mem k) (prev + 44) = v" by (simp add: k_def)
    show "area_at (mem k) v st (PGROUNDUP (st + len) - 1) pr fl nxt"
      using ne ne [symmetric] ne0 ne0 [symmetric] av ap page_aligned4 [OF pv]
      by (simp add: area_at_def vm_valid_def vm_start_def vm_end_def vm_prot_def vm_flags_def vm_next_def k_def m8_def m7_def m3_def
          load32_store32_other)
  qed (rule kb)
qed


section \<open>Mapping the pages of an area\<close>

lemma memset_page: "page_aligned x \<Longrightarrow> memset m x 0 PGSIZE b = (if PGROUNDDOWN b = x then 0 else m b)"
  by (simp add: memset_fill fill_def in_page_iff)

lemma memset_store:
  assumes "page_aligned x" "page_aligned v" "x \<noteq> v" "unat c + 4 \<le> 4096"
  shows "store32 (memset m x 0 PGSIZE) (v + c) w = memset (store32 m (v + c) w) x 0 PGSIZE"
proof
  fix b
  have cong: "store32 m1 (v + c) w b = store32 m2 (v + c) w b" if "m1 b = m2 b" for m1 m2 :: memory
    using that by (simp add: store32_def)
  show "store32 (memset m x 0 PGSIZE) (v + c) w b = memset (store32 m (v + c) w) x 0 PGSIZE b"
  proof (cases "PGROUNDDOWN b = v")
    case True
    then show ?thesis using assms cong [of "memset m x 0 PGSIZE" m] by (simp add: memset_page)
  qed (use assms in \<open>simp add: store_in_page memset_page\<close>)
qed

text \<open>The first page is recorded in the area, which lies in a page \<open>new\<close> of its own.\<close>

definition note_pa :: "bool \<Rightarrow> u32 \<Rightarrow> u32 \<Rightarrow> kstate \<Rightarrow> kstate" where
  "note_pa b new x k = (if b then k\<lparr>mem := store32 (mem k) (new + 12) x\<rparr> else k)"

lemma note_pa_frame:
  assumes "uvm_inv L k pd xs" "page_aligned new" "new \<notin> set xs \<union> pt_pages (mem k) pd"
  shows "uvm_inv L (note_pa b new x k) pd xs" "pte_at (mem (note_pa b new x k)) pd = pte_at (mem k) pd"
    "pt_pages (mem (note_pa b new x k)) pd = pt_pages (mem k) pd"
    "PGROUNDDOWN a \<noteq> new \<Longrightarrow> mem (note_pa b new x k) a = mem k a"
proof -
  have fr: "mem (note_pa b new x k) a = mem k a" if "PGROUNDDOWN a \<noteq> new" for a
    using that assms(2) by (simp add: note_pa_def store_in_page)
  then show "PGROUNDDOWN a \<noteq> new \<Longrightarrow> mem (note_pa b new x k) a = mem k a" .
  have "mem (note_pa b new x k) a = mem k a" if "PGROUNDDOWN a \<in> set xs \<union> pt_pages (mem k) pd" for a
    using that assms(3) by (intro fr) auto
  note u = uvm_inv_frame [OF assms(1) _ this]
  have fl: "freelist (note_pa b new x k) = freelist k" by (simp add: note_pa_def)
  show "uvm_inv L (note_pa b new x k) pd xs" "pte_at (mem (note_pa b new x k)) pd = pte_at (mem k) pd"
    "pt_pages (mem (note_pa b new x k)) pd = pt_pages (mem k) pd"
    using u [OF fl] by simp_all
qed

lemma mmap_page_anon:
  assumes inv: "uvm_inv L (kst s) pd (x # xs)" "xs \<noteq> []" "pgdir (the_proc me s) = pd"
    and i: "page_aligned i" "\<not> present (pte_at (mem (kst s)) pd i)" and anon: "flgs AND MAP_ANON \<noteq> 0"
    and new: "page_aligned new" "new \<notin> set (x # xs) \<union> pt_pages (mem (kst s)) pd"
    and w: "vm_prot (mem (kst s)) new OR PTE_U = w" "take_bit 12 w = w"
  obtains k ys where "mmap_page me new start flgs fd i s = Ok () (s\<lparr>kst := k\<rparr>)"
    "grown L pd w {i} (note_pa (i = start) new x (kst s)) (x # xs) k ys" "length xs \<le> Suc (length ys)"
proof -
  let ?k = "note_pa (i = start) new x (kst s)"
  note n = note_pa_frame [OF inv(1) new, where b = "i = start" and x = x]
  note tk = uvm_inv_take [OF inv(1)]
  have x: "page_aligned x" "x \<noteq> new" using tk(2) new(2) by auto
  have x12: "x \<noteq> new + 12"
    using PGROUNDDOWN_offset [OF new(1), of 12] PGROUNDDOWN_aligned [OF x(1)] x(2)
    by (auto simp del: PGROUNDDOWN_offset PGROUNDDOWN_aligned)
  have np: "\<not> present (pte_at (mem ?k) pd i)" using i(2) n(2) by simp
  have fl: "load32 (mem ?k) x = load32 (mem (kst s)) x" "freelist ?k = freelist (kst s)"
    using x x12 page_aligned4 new(1) aligned4_off [of new 12]
    by (auto simp: note_pa_def intro!: load32_store32_other dest: page_aligned4)
  have prot: "vm_prot (mem ?k) new = vm_prot (mem (kst s)) new"
    using new(1) aligned4_off [of new] by (simp add: note_pa_def vm_prot_def load32_store32_other page_aligned4)
  have m: "(if i = start then store32 (memset (mem (kst s)) x 0 PGSIZE) (new + 12) x else memset (mem (kst s)) x 0 PGSIZE) =
      memset (mem ?k) x 0 PGSIZE"
    using memset_store [OF x(1) new(1) x(2), of 12] by (simp add: note_pa_def)
  have prot': "vm_prot (memset (mem ?k) x 0 PGSIZE) new = vm_prot (mem (kst s)) new"
  proof -
    have "load32 (memset (mem ?k) x 0 PGSIZE) (new + 24) = load32 (mem ?k) (new + 24)"
      using load32_fill_page [OF x(1) new(1), of 6 "mem ?k"] x(2) by (simp add: entry_def memset_fill)
    then show ?thesis using prot by (simp add: vm_prot_def)
  qed
  show thesis
    using n(1) i(1) np w(2) refl
  proof (cases rule: grown_one)
    case (ok k ys)
    have "mmap_page me new start flgs fd i s = Ok () (s\<lparr>kst := k\<rparr>)"
      using ok(1) m prot' w(1) anon inv(3) kpage_nonzero [OF tk(2)] fl(1)
      by (auto simp: mmap_page_def kalloc_k_def tk(1) upd_mem_def set_word_def Let_def with_mem_def mappages_eqs the_proc_def note_pa_def)
    then show thesis using ok(2,3) by (rule that)
  qed (use inv(2) in simp)
qed


lemma note_pa_False [simp]: "note_pa False new x k = k"
  by (simp add: note_pa_def)

lemma grown_area:
  assumes "grown L pd w I k xs k' ys" "page_aligned new" "new \<notin> set xs \<union> pt_pages (mem k) pd"
  shows "new \<notin> set ys \<union> pt_pages (mem k') pd" "c < 1024 \<Longrightarrow> load32 (mem k') (entry new c) = load32 (mem k) (entry new c)"
proof -
  show "new \<notin> set ys \<union> pt_pages (mem k') pd" using grown_sets [OF assms(1)] assms(3) by blast
  show "c < 1024 \<Longrightarrow> load32 (mem k') (entry new c) = load32 (mem k) (entry new c)"
    using assms by (intro load32_entry_frame) (auto simp: grown_def)
qed

lemma area_words:
  "vm_end m v = load32 m (entry v 2)" "vm_prot m v = load32 m (entry v 6)" "vm_start m v = load32 m (entry v 1)"
  "vm_flags m v = load32 m (entry v 7)" "vm_next m v = load32 m (entry v 11)" "vm_valid m v = load32 m (entry v 0)"
  by (simp_all add: vm_end_def vm_prot_def vm_start_def vm_flags_def vm_next_def vm_valid_def entry_def)

lemma note_pa_words:
  assumes "page_aligned new"
  shows "vm_end (mem (note_pa b new x k)) new = vm_end (mem k) new" "vm_prot (mem (note_pa b new x k)) new = vm_prot (mem k) new"
    "vm_start (mem (note_pa b new x k)) new = vm_start (mem k) new" "vm_flags (mem (note_pa b new x k)) new = vm_flags (mem k) new"
    "vm_next (mem (note_pa b new x k)) new = vm_next (mem k) new" "vm_valid (mem (note_pa b new x k)) new = vm_valid (mem k) new"
  using page_aligned4 [OF assms]
  by (simp_all add: note_pa_def vm_end_def vm_prot_def vm_start_def vm_flags_def vm_next_def vm_valid_def load32_store32_other aligned4_off)

lemma mmap_pages_anon:
  assumes "uvm_inv L (kst s) pd xs" "pgdir (the_proc me s) = pd" and anon: "flgs AND MAP_ANON \<noteq> 0"
    and e: "e \<le> KERNBASE" and "vm_end (mem (kst s)) new = e"
    and "page_aligned i" "\<And>p. p \<in> pages_in i e \<Longrightarrow> \<not> present (pte_at (mem (kst s)) pd p)"
    and new: "page_aligned new" and "new \<notin> set xs \<union> pt_pages (mem (kst s)) pd"
    and "vm_prot (mem (kst s)) new OR PTE_U = w" and w: "take_bit 12 w = w"
    and "2 * card (pages_in i e) \<le> length xs" "unat e + 4096 \<le> unat i + 4096 * fuel" "0 < fuel"
    and "start \<le> i" "i = start \<Longrightarrow> i < e"
  shows "\<exists>k ys. mmap_pages fuel me new start flgs fd i s = Ok () (s\<lparr>kst := k\<rparr>) \<and>
    grown L pd w (pages_in i e) (note_pa (i = start) new (hd xs) (kst s)) xs k ys \<and> length xs \<le> length ys + 2 * card (pages_in i e)"
  using assms(1,2,5-7,9,10,12-)
proof (induction fuel arbitrary: i s xs)
  case (Suc fuel)
  show ?case
  proof (cases "i < e")
    case False
    then have "i \<noteq> start" using Suc.prems(12) by auto
    then show ?thesis
      using False Suc.prems(1,3) grown_none [OF Suc.prems(1)] by (intro exI [of _ "kst s"] exI [of _ xs]) simp
  next
    case True
    have st: "pages_in i e = {i} \<union> pages_in (i + PGSIZE) e" by (rule pages_in_step [OF Suc.prems(4) True e])
    have ni: "unat (i + PGSIZE) = unat i + 4096" by (rule page_next [OF True e])
    have fin: "finite (pages_in (i + PGSIZE) e)" and out: "i \<notin> pages_in (i + PGSIZE) e"
      using ni by (auto simp: pages_in_def u32_le_iff_unat)
    then have card: "card (pages_in i e) = Suc (card (pages_in (i + PGSIZE) e))" using st by simp
    then obtain x xs' where xs: "xs = x # xs'" "xs' \<noteq> []" using Suc.prems(8)
      by (cases xs) (auto simp: Suc_le_eq intro: that)
    have np: "\<not> present (pte_at (mem (kst s)) pd i)" using Suc.prems(5) [of i] st by simp
    let ?k0 = "note_pa (i = start) new x (kst s)"
    obtain k ys where p: "mmap_page me new start flgs fd i s = Ok () (s\<lparr>kst := k\<rparr>)"
      and g: "grown L pd w {i} ?k0 xs k ys" "length xs' \<le> Suc (length ys)"
      using mmap_page_anon [OF Suc.prems(1) [unfolded xs(1)] xs(2) Suc.prems(2,4) np anon new Suc.prems(6) [unfolded xs(1)] Suc.prems(7) w]
      unfolding xs(1) by blast
    let ?s = "s\<lparr>kst := k\<rparr>"
    have k0: "uvm_inv L ?k0 pd xs" "new \<notin> set xs \<union> pt_pages (mem ?k0) pd" "pte_at (mem ?k0) pd = pte_at (mem (kst s)) pd"
      using note_pa_frame [OF Suc.prems(1) new Suc.prems(6)] Suc.prems(6) by simp_all
    note ga = grown_area [OF g(1) new k0(2)]
    have IH: "\<exists>k' zs. mmap_pages fuel me new start flgs fd (i + PGSIZE) ?s = Ok () (?s\<lparr>kst := k'\<rparr>) \<and>
        grown L pd w (pages_in (i + PGSIZE) e) (note_pa (i + PGSIZE = start) new (hd ys) (kst ?s)) ys k' zs \<and>
        length ys \<le> length zs + 2 * card (pages_in (i + PGSIZE) e)"
    proof (rule Suc.IH)
      show "uvm_inv L (kst ?s) pd ys" using g(1) by (simp add: grown_def)
      show "vm_end (mem (kst ?s)) new = e" "vm_prot (mem (kst ?s)) new OR PTE_U = w"
        using ga(2) Suc.prems(3,7) note_pa_words(1,2) [OF new] by (simp_all add: area_words)
      show "\<not> present (pte_at (mem (kst ?s)) pd p)" if "p \<in> pages_in (i + PGSIZE) e" for p
      proof -
        have "page_aligned p" "p \<noteq> i" "p \<in> pages_in i e" using that out st by (auto simp: pages_in_def)
        then show ?thesis using grown_pte(1) [OF g(1), of p] Suc.prems(5) [of p] k0(3) by simp
      qed
      show "new \<notin> set ys \<union> pt_pages (mem (kst ?s)) pd" using ga(1) by simp
      show "2 * card (pages_in (i + PGSIZE) e) \<le> length ys" using Suc.prems(8) card g(2) xs(1) by simp
      show "unat e + 4096 \<le> unat (i + PGSIZE) + 4096 * fuel" using Suc.prems(9) ni by simp
      show "0 < fuel" using Suc.prems(9) True by (cases fuel) (simp_all add: u32_less_iff_unat)
    qed (use Suc.prems ni in \<open>auto simp: page_aligned_add u32_le_iff_unat the_proc_def\<close>)
    have "i + PGSIZE \<noteq> start" using Suc.prems(11) ni by (auto simp: u32_le_iff_unat)
    then obtain k' zs where r: "mmap_pages fuel me new start flgs fd (i + PGSIZE) ?s = Ok () (s\<lparr>kst := k'\<rparr>)"
      "grown L pd w (pages_in (i + PGSIZE) e) k ys k' zs" "length ys \<le> length zs + 2 * card (pages_in (i + PGSIZE) e)"
      using IH by auto
    have "grown L pd w ({i} \<union> pages_in (i + PGSIZE) e) ?k0 xs k' zs"
      using grown_trans [OF g(1) r(2)] out True e Suc.prems(4) by auto
    then show ?thesis
      using True p r(1,3) Suc.prems(3) st card g(2) by (intro exI [of _ k'] exI [of _ zs]) (simp add: xs(1))
  qed
qed simp


section \<open>The first mapping of a process\<close>

text \<open>The list of areas as \<^verbatim>\<open>exec\<close> leaves it: the head is a place holder in front of the space for
  mappings, the tail stands behind it.\<close>

definition fresh_areas :: "nat \<Rightarrow> kernel \<Rightarrow> bool" where
  "fresh_areas me s \<longleftrightarrow> (let m = mem (kst s); h = vm_head me s; t = vm_tail me s in
     vm_start m h = MIN_ADDR \<and> vm_end m h = MIN_ADDR - 1 \<and> vm_space_after m h = 0x20000000 \<and> vm_next m h = t \<and>
     vm_start m t = MAX_ADDR)"

lemma vm_tail_head: "vm_tail me s = vm_head me s + 48"
  by (simp add: vm_tail_def vm_head_def)

lemma kdata_part: "kdata L a n \<Longrightarrow> unat c + k \<le> n \<Longrightarrow> c mod 4 = 0 \<Longrightarrow> kdata L (a + c) k"
proof -
  assume a: "kdata L a n" "unat c + k \<le> n" "c mod 4 = 0"
  then have "unat (a + c) = unat a + unat c"
    using u32_lt_4G [of "sym_end L"] by (intro unat_add_lt) (simp_all add: kdata_def)
  then show ?thesis using a by (simp add: kdata_def aligned4_off)
qed

lemma kdata_nonzero: "kdata L a n \<Longrightarrow> a \<noteq> 0"
  by (auto simp: kdata_def)

lemma vm_head_kst [simp]: "vm_head me (s\<lparr>kst := k\<rparr>) = vm_head me s" "vm_tail me (s\<lparr>kst := k\<rparr>) = vm_tail me s"
  by (simp_all add: vm_head_def vm_tail_def)

lemma vm_head_set_word [simp]: "vm_head me (set_word a x s) = vm_head me s"
  by (simp add: set_word_def upd_mem_def)

lemma init_areas_fresh:
  assumes "kdata (ksy (ev s)) (vm_head me s) 96"
  shows "fresh_areas me (init_areas me s)"
proof -
  have a: "aligned4 (vm_head me s)" using assms by (simp add: kdata_def)
  have off: "aligned4 (vm_head me s + c)" if "c mod 4 = 0" for c using aligned4_off [OF a that] .
  have tail: "vm_head me s + 48 + c = vm_head me s + (48 + c)" for c by (simp only: add.assoc)
  show ?thesis
    unfolding fresh_areas_def init_areas_def Let_def vm_tail_head vm_head_set_word vm_start_def vm_next_def tail
    by (simp add: set_word_def upd_mem_def vm_end_def vm_space_after_def MIN_ADDR_def MAX_ADDR_def load32_store32_other a off)
qed

text \<open>A write into the head of the list.\<close>

lemma kdata_frame:
  assumes inv: "uvm_inv L k pd xs" and a: "kdata L a n" "unat c + 4 \<le> n" "c mod 4 = 0"
  shows "uvm_inv L (k\<lparr>mem := store32 (mem k) (a + c) x\<rparr>) pd xs"
    "pte_at (store32 (mem k) (a + c) x) pd = pte_at (mem k) pd"
    "pt_pages (store32 (mem k) (a + c) x) pd = pt_pages (mem k) pd"
    "kpage L (PGROUNDDOWN b) \<Longrightarrow> store32 (mem k) (a + c) x b = mem k b"
proof -
  have st: "store32 (mem k) (a + c) x b = mem k b" if "kpage L (PGROUNDDOWN b)" for b
    using that kdata_word [OF a, of b] by (auto intro: store32_elsewhere)
  then show "kpage L (PGROUNDDOWN b) \<Longrightarrow> store32 (mem k) (a + c) x b = mem k b" .
  let ?k = "k\<lparr>mem := store32 (mem k) (a + c) x\<rparr>"
  have "mem ?k b = mem k b" if "PGROUNDDOWN b \<in> set xs \<union> pt_pages (mem k) pd" for b
    using that uvm_inv_pages [OF inv] st by auto
  from uvm_inv_frame [OF inv _ this]
  show "uvm_inv L ?k pd xs" "pte_at (store32 (mem k) (a + c) x) pd = pte_at (mem k) pd"
    "pt_pages (store32 (mem k) (a + c) x) pd = pt_pages (mem k) pd"
    by simp_all
qed


text \<open>The state of memory after an area at \<open>v\<close> with pages \<open>I\<close> is put behind the area \<open>cur\<close>: the pages are
  mapped to zeroed pages that were free, every other mapping is as it was, and so is all memory
  that was not free, but for three words of the areas in front.\<close>

definition area_added :: "ksyms \<Rightarrow> u32 \<Rightarrow> u32 \<Rightarrow> u32 set \<Rightarrow> u32 \<Rightarrow> u32 \<Rightarrow> kstate \<Rightarrow> u32 list \<Rightarrow> kstate \<Rightarrow> u32 list \<Rightarrow> bool" where
  "area_added L pd w I prev cur k xs k' ys \<longleftrightarrow>
     uvm_inv L k' pd ys \<and> length xs \<le> length ys + 2 * card I + 1 \<and>
     (\<forall>va. PGROUNDDOWN va \<notin> I \<longrightarrow> pte_at (mem k') pd va = pte_at (mem k) pd va) \<and>
     (\<forall>va. PGROUNDDOWN va \<in> I \<longrightarrow>
        pte_at (mem k') pd va = V2P (upage (mem k') pd va) OR w OR PTE_P \<and>
        (\<forall>b. PGROUNDDOWN b = upage (mem k') pd va \<longrightarrow> mem k' b = 0)) \<and>
     (\<forall>b. PGROUNDDOWN b \<notin> set xs \<union> pt_pages (mem k) pd \<and> \<not> b - (cur + 36) < 4 \<and> \<not> b - (cur + 44) < 4 \<and> \<not> b - (prev + 16) < 4 \<longrightarrow>
        mem k' b = mem k b)"

lemma kdata_load:
  assumes "kdata L a n" "unat c + 4 \<le> n" "c mod 4 = 0" "\<And>b. \<not> kpage L (PGROUNDDOWN b) \<Longrightarrow> m' b = m b"
  shows "load32 m' (a + c) = load32 m (a + c)"
  using kdata_word [OF assms(1-3)] assms(4) by (intro load32_cong) auto

lemma with_mem_kst: "f (kst s) = Ok x k \<Longrightarrow> with_mem f s = Ok x (s\<lparr>kst := k\<rparr>)"
  by (simp add: with_mem_def)

lemma mmap_guard_plain:
  assumes "flgs AND MAP_GROWSUP = 0"
  shows "mmap_guard prev cur new start flgs s = Ok start (s\<lparr>kst := (kst s)\<lparr>mem :=
     (if vm_flags (mem (kst s)) prev AND MAP_GROWSUP \<noteq> 0 \<and> vm_guardstart (mem (kst s)) prev + PGSIZE = vm_start (mem (kst s)) cur
      then store32 (mem (kst s)) (prev + 16) (- 1) else mem (kst s))\<rparr>\<rparr>)"
  using assms by (simp add: mmap_guard_def Let_def set_word_def upd_mem_def)

text \<open>The last step of \<^verbatim>\<open>mmap\<close> may write one word of the area in front.\<close>

lemma area_added_guard:
  fixes k3 :: kstate and prev :: u32
  defines "k4 c \<equiv> k3\<lparr>mem := (if c then store32 (mem k3) (prev + 16) (- 1) else mem k3)\<rparr>"
  assumes g: "grown L pd w I (note_pa True v x k2) xs k3 ys" and I: "\<And>p. p \<in> I \<Longrightarrow> p < KERNBASE"
    and k2: "uvm_inv L k2 pd xs" "pte_at (mem k2) pd = pte_at (mem k) pd" "pt_pages (mem k2) pd = pt_pages (mem k) pd"
      "\<And>b. PGROUNDDOWN b \<noteq> v \<Longrightarrow> \<not> b - (cur + 36) < 4 \<Longrightarrow> \<not> b - (cur + 44) < 4 \<Longrightarrow> mem k2 b = mem k b"
    and v: "kpage L v" "v \<notin> set xs \<union> pt_pages (mem k2) pd" and prev: "kdata L prev 48"
    and len: "length xs \<le> length ys + 2 * card I"
  shows "area_added L pd w I prev cur k (v # xs) (k4 c) ys"
proof -
  have pv: "page_aligned v" using v(1) by auto
  note n = note_pa_frame [OF k2(1) pv v(2), where b = True and x = x]
  have inv3: "uvm_inv L k3 pd ys" using g by (simp add: grown_def)
  note fr = kdata_frame [OF inv3 prev, where c = 16 and x = "- 1"]
  have mem4: "mem (k4 c) b = mem k3 b" if "kpage L (PGROUNDDOWN b) \<or> \<not> b - (prev + 16) < 4" for b
    using that fr(4) [where b = b] by (auto simp: k4_def store32_elsewhere)
  have pte4: "pte_at (mem (k4 c)) pd = pte_at (mem k3) pd" using fr by (simp add: k4_def)
  have up4: "upage (mem (k4 c)) pd = upage (mem k3) pd" by (simp add: upage_def fun_eq_iff pte4)
  have "uvm_inv L (k4 c) pd ys" using fr inv3 by (simp add: k4_def)
  moreover have "pte_at (mem (k4 c)) pd va = pte_at (mem k) pd va" if "PGROUNDDOWN va \<notin> I" for va
    using grown_pte(1) [OF g that] n(2) k2(2) pte4 by simp
  moreover have "pte_at (mem (k4 c)) pd va = V2P (upage (mem (k4 c)) pd va) OR w OR PTE_P" if "PGROUNDDOWN va \<in> I" for va
    using grown_pte(2) [OF g that] pte4 up4 by simp
  moreover have "mem (k4 c) b = 0" if "PGROUNDDOWN va \<in> I" "PGROUNDDOWN b = upage (mem (k4 c)) pd va" for va b
  proof -
    have "va \<in> umapped (mem k3) pd"
      using grown_pte(2) [OF g that(1)] I [OF that(1)] below_KERNBASE [of va] by (simp add: umapped_def)
    then have "kpage L (PGROUNDDOWN b)" using uvm_inv_page(1) [OF inv3] that(2) up4 by simp
    then show ?thesis using mem4 grown_zero [OF g that(1)] that(2) up4 by simp
  qed
  moreover have "mem (k4 c) b = mem k b"
    if "PGROUNDDOWN b \<notin> set (v # xs) \<union> pt_pages (mem k) pd" "\<not> b - (cur + 36) < 4" "\<not> b - (cur + 44) < 4" "\<not> b - (prev + 16) < 4" for b
  proof -
    have "mem k3 b = mem (note_pa True v x k2) b" using g that(1) n(3) k2(3) by (simp add: grown_def)
    then show ?thesis using mem4 [of b] that n(4) [of b] k2(4) [of b] by simp
  qed
  ultimately show ?thesis using len by (simp add: area_added_def)
qed

lemma mmap_place_anon:
  assumes inv: "uvm_inv L (kst s) pd (v # xs)" and pd: "pgdir (the_proc me s) = pd"
    and fl: "flgs AND MAP_ANON \<noteq> 0" "flgs AND MAP_GROWSUP = 0" and f: "ofile_word me fd s \<noteq> None"
    and kd: "kdata L prev 48" "kdata L cur 48" "prev + 16 \<noteq> cur + 44" "prev + 16 \<noteq> cur + 36"
    and st: "page_aligned start" "start < PGROUNDUP (start + len) - 1" "PGROUNDUP (start + len) - 1 \<le> KERNBASE"
    and np: "\<And>p. p \<in> pages_in start (PGROUNDUP (start + len) - 1) \<Longrightarrow> \<not> present (pte_at (mem (kst s)) pd p)"
    and w: "take_bit 12 (prot OR PTE_U) = prot OR PTE_U"
    and len: "2 * card (pages_in start (PGROUNDUP (start + len) - 1)) \<le> length xs"
  obtains k ys where "mmap_place me False prev cur start len prot flgs fd s = Ok start (s\<lparr>kst := k\<rparr>)"
    "area_added L pd (prot OR PTE_U) (pages_in start (PGROUNDUP (start + len) - 1)) prev cur (kst s) (v # xs) k ys"
    "area_at (mem k) v start (PGROUNDUP (start + len) - 1) prot flgs (vm_next (mem (kst s)) cur)"
    "vm_next (mem k) cur = v" "vm_space_after (mem k) cur = vm_space_after (mem (kst s)) cur - len"
proof -
  let ?m = "mem (kst s)" and ?e = "PGROUNDUP (start + len) - 1" and ?w = "prot OR PTE_U"
  define k1 where "k1 = (kst s)\<lparr>mem := store32 ?m (cur + 36) (vm_space_after ?m cur - len)\<rparr>"
  have c: "aligned4 cur" "aligned4 prev" using kd by (simp_all add: kdata_def)
  have off: "aligned4 (cur + x)" "aligned4 (prev + x)" if "x mod 4 = 0" for x using that c by (simp_all add: aligned4_off)
  note f1 = kdata_frame [OF inv kd(2), where c = 36 and x = "vm_space_after ?m cur - len"]
  have inv1: "uvm_inv L k1 pd (v # xs)" "pte_at (mem k1) pd = pte_at ?m pd" "pt_pages (mem k1) pd = pt_pages ?m pd"
    using f1 by (simp_all add: k1_def)
  have nx: "vm_next (mem k1) cur = vm_next ?m cur"
    by (simp add: k1_def vm_next_def load32_store32_other off)
  obtain k2 where cv: "create_vma me cur (vm_next ?m cur) start len prot flgs fd (s\<lparr>kst := k1\<rparr>) = Ok v (s\<lparr>kst := k2\<rparr>)"
    and k2: "uvm_inv L k2 pd xs" "pte_at (mem k2) pd = pte_at (mem k1) pd" "pt_pages (mem k2) pd = pt_pages (mem k1) pd"
      "area_at (mem k2) v start ?e prot flgs (vm_next ?m cur)" "load32 (mem k2) (cur + 44) = v"
      "\<And>b. PGROUNDDOWN b \<noteq> v \<Longrightarrow> \<not> b - (cur + 44) < 4 \<Longrightarrow> mem k2 b = mem k1 b"
    using create_vma_spec [of L "s\<lparr>kst := k1\<rparr>" pd v xs me fd cur "vm_next ?m cur" start len prot flgs] inv1(1) f kd(2)
    by auto
  have v: "kpage L v" "page_aligned v" "v \<notin> set xs \<union> pt_pages (mem k2) pd" "v \<notin> set xs \<union> pt_pages ?m pd"
    using uvm_inv_take(2-4) [OF inv1(1)] k2(3) inv1(3) by auto
  let ?k3 = "note_pa True v (hd xs) k2"
  note n = note_pa_frame [OF k2(1) v(2,3), where b = True and x = "hd xs"]
  obtain k3 ys where loop: "mmap_pages page_fuel me v start flgs fd start (s\<lparr>kst := k2\<rparr>) = Ok () (s\<lparr>kst := k3\<rparr>)"
    and g: "grown L pd ?w (pages_in start ?e) ?k3 xs k3 ys" and ys: "length xs \<le> length ys + 2 * card (pages_in start ?e)"
  proof -
    have "\<exists>k ys. mmap_pages page_fuel me v start flgs fd start (s\<lparr>kst := k2\<rparr>) = Ok () (s\<lparr>kst := k2\<rparr>\<lparr>kst := k\<rparr>) \<and>
        grown L pd ?w (pages_in start ?e) (note_pa (start = start) v (hd xs) (kst (s\<lparr>kst := k2\<rparr>))) xs k ys \<and>
        length xs \<le> length ys + 2 * card (pages_in start ?e)"
      by (rule mmap_pages_anon)
        (use k2 inv1 pd fl(1) st np v len w in \<open>auto simp: area_at_def the_proc_def page_fuel_def u32_le_iff_unat\<close>)
    then show thesis using that by auto
  qed
  have cur36: "load32 (mem k2) (cur + 36) = vm_space_after ?m cur - len"
  proof -
    have "load32 (mem k2) (cur + 36) = load32 (mem k1) (cur + 36)"
    proof (rule load32_cong, rule k2(6))
      fix b assume b: "b - (cur + 36) < 4"
      show "PGROUNDDOWN b \<noteq> v" using kdata_word [OF kd(2), of 36 b] b v(1) by auto
      show "\<not> b - (cur + 44) < 4" using aligned4_disjoint [of "cur + 36" "cur + 44" b] b off by simp
    qed
    then show ?thesis by (simp add: k1_def)
  qed
  define c where "c \<longleftrightarrow> vm_flags (mem k3) prev AND MAP_GROWSUP \<noteq> 0 \<and> vm_guardstart (mem k3) prev + PGSIZE = vm_start (mem k3) cur"
  let ?k4 = "k3\<lparr>mem := (if c then store32 (mem k3) (prev + 16) (- 1) else mem k3)\<rparr>"
  have dat: "load32 (mem ?k4) (cur + x) = load32 (mem k2) (cur + x)" if "unat x + 4 \<le> 48" "x mod 4 = 0" "cur + x \<noteq> prev + 16" for x
  proof -
    have "mem k3 b = mem k2 b" if "\<not> kpage L (PGROUNDDOWN b)" for b
    proof -
      have "PGROUNDDOWN b \<notin> set xs \<union> pt_pages (mem k2) pd" "PGROUNDDOWN b \<noteq> v"
        using that uvm_inv_pages [OF k2(1)] v(1) by blast+
      then show ?thesis using g n(3) n(4) [of b] by (simp add: grown_def)
    qed
    then have "load32 (mem k3) (cur + x) = load32 (mem k2) (cur + x)" using kdata_load [OF kd(2) that(1,2)] by blast
    then show ?thesis using that by (simp add: load32_store32_other off)
  qed
  have ar: "load32 (mem ?k4) (entry v j) = load32 (mem k2) (entry v j)" if "j < 1024" "j \<noteq> 3" for j
  proof -
    have "load32 (mem ?k4) (entry v j) = load32 (mem k3) (entry v j)"
      using kdata_frame(4) [OF _ kd(1), where c = 16 and k = k3] g v(1,2) that by (intro load32_entry_frame) (auto simp: grown_def)
    also have "\<dots> = load32 (mem ?k3) (entry v j)" using grown_area(2) [OF g v(2)] v(3) n(3) that by simp
    also have "\<dots> = load32 (mem k2) (entry v j)"
      using load32_store32_entry [OF v(2,2), of 3 j "mem k2" "hd xs"] that by (simp add: note_pa_def entry_def)
    finally show ?thesis .
  qed
  show thesis
  proof (rule that)
    show "mmap_place me False prev cur start len prot flgs fd s = Ok start (s\<lparr>kst := ?k4\<rparr>)"
      using cv loop nx by (simp add: mmap_place_def set_word_def upd_mem_def k1_def mmap_guard_plain [OF fl(2)] c_def)
    show "area_added L pd ?w (pages_in start ?e) prev cur (kst s) (v # xs) ?k4 ys"
      using st(3) inv1(2,3) k2 v ys kd(1)
      by (intro area_added_guard [OF g]) (auto simp: pages_in_def k1_def store32_elsewhere)
    show "area_at (mem ?k4) v start ?e prot flgs (vm_next ?m cur)"
      using k2(4) ar [of 0] ar [of 1] ar [of 2] ar [of 6] ar [of 7] ar [of 11] by (simp add: area_at_def area_words)
    show "vm_next (mem ?k4) cur = v" using dat [of 44] k2(5) kd(3) by (simp add: vm_next_def)
    show "vm_space_after (mem ?k4) cur = vm_space_after ?m cur - len"
      using dat [of 36] kd(4) cur36 by (simp add: vm_space_after_def)
  qed
qed


lemma MIN_ADDR_page: "page_aligned MIN_ADDR" "unat MIN_ADDR = 1610612736"
  by (simp_all add: MIN_ADDR_def page_aligned_def)

lemma pages_in_roundup:
  assumes "unat x + 4095 < 4294967296" "0 < unat x"
  shows "pages_in a (PGROUNDUP x - 1) = pages_in a x"
proof -
  have ge: "unat x \<le> unat (PGROUNDUP x)" using PGROUNDUP_ge(1) [OF assms(1)] .
  then have e: "unat (PGROUNDUP x - 1) = unat (PGROUNDUP x) - 1"
    using assms(2) by (subst unat_sub_le) (simp_all add: u32_le_iff_unat)
  have "p < PGROUNDUP x - 1 \<longleftrightarrow> p < x" if p: "page_aligned p" for p
  proof -
    obtain i j where ij: "unat p = 4096 * i" "unat (PGROUNDUP x) = 4096 * j"
      using p page_aligned_PGROUNDUP [of x] unfolding page_aligned_unat mod_eq_0_iff_dvd dvd_def by blast
    have "4096 * i < 4096 * j - 1 \<longleftrightarrow> i < j" by auto
    moreover have "i < j \<longleftrightarrow> 4096 * i < unat x"
      using PGROUNDUP_least [OF assms(1) p] ge ij by (cases "unat x \<le> unat p") auto
    ultimately show ?thesis by (simp add: u32_less_iff_unat e ij)
  qed
  then show ?thesis by (auto simp: pages_in_def)
qed

lemma first_range:
  assumes "0 <s len" "len <s 0x20000000"
  defines "x \<equiv> MIN_ADDR + len"
  shows "unat x = 1610612736 + unat len" "0 < unat len" "unat len < 536870912" "MIN_ADDR < PGROUNDUP x - 1" "PGROUNDUP x - 1 \<le> KERNBASE"
    "pages_in MIN_ADDR (PGROUNDUP x - 1) = pages_in MIN_ADDR x"
proof -
  have l: "unat len < 2147483648" using assms(1) i32_neg_iff [of len] by (auto simp: word_sless_alt)
  then show len: "0 < unat len" "unat len < 536870912"
    using assms(1,2) i32_small(1) [of 0 len] i32_small(1) [of len "0x20000000"] by simp_all
  show x: "unat x = 1610612736 + unat len"
    using len unfolding x_def by (subst unat_add_lt) (simp_all add: MIN_ADDR_page)
  have b: "unat x + 4095 < 4294967296" using x len by simp
  have up: "unat x \<le> unat (PGROUNDUP x)" "unat (PGROUNDUP x) \<le> 2147483648" "unat (PGROUNDUP x) mod 4096 = 0"
    using PGROUNDUP_ge(1) [OF b] PGROUNDUP_least [OF b page_aligned_KERNBASE] x len page_aligned_PGROUNDUP [of x]
    by (simp_all only: page_aligned_unat) simp_all
  then have e: "unat (PGROUNDUP x - 1) = unat (PGROUNDUP x) - 1"
    using x by (subst unat_sub_le) (simp_all add: u32_le_iff_unat)
  show "PGROUNDUP x - 1 \<le> KERNBASE" using up e by (simp add: u32_le_iff_unat)
  obtain j where "unat (PGROUNDUP x) = 4096 * j" using up(3) unfolding mod_eq_0_iff_dvd dvd_def by blast
  then have "1610612736 + 4096 \<le> unat (PGROUNDUP x)" using up(1) x len by simp
  then show "MIN_ADDR < PGROUNDUP x - 1" using e by (simp add: u32_less_iff_unat MIN_ADDR_page)
  show "pages_in MIN_ADDR (PGROUNDUP x - 1) = pages_in MIN_ADDR x" by (rule pages_in_roundup [OF b]) (simp add: x)
qed


text \<open>The conditions of the theorems below: the address space is consistent, the areas are as \<^verbatim>\<open>exec\<close> leaves
  them, and the request is for an anonymous mapping of at most 512 megabytes.\<close>

definition first_mapping :: "nat \<Rightarrow> i32 \<Rightarrow> i32 \<Rightarrow> i32 \<Rightarrow> i32 \<Rightarrow> u32 list \<Rightarrow> kernel \<Rightarrow> bool" where
  "first_mapping me len prot flgs fd xs s \<longleftrightarrow>
     uvm_inv (ksy (ev s)) (kst s) (pgdir (the_proc me s)) xs \<and> kdata (ksy (ev s)) (vm_head me s) 96 \<and> fresh_areas me s \<and>
     flgs AND MAP_ANON \<noteq> 0 \<and> flgs AND MAP_GROWSUP = 0 \<and> ofile_word me fd s \<noteq> None \<and>
     take_bit 12 prot = prot \<and> 0 <s len \<and> len <s 0x20000000 \<and>
     (\<forall>p \<in> pages_in MIN_ADDR (MIN_ADDR + len). \<not> present (pte_at (mem (kst s)) (pgdir (the_proc me s)) p)) \<and>
     2 * card (pages_in MIN_ADDR (MIN_ADDR + len)) + 1 \<le> length xs"

lemma head_walk:
  assumes "vm_head me s \<noteq> 0" "vm_start (mem (kst s)) (vm_head me s) \<noteq> MAX_ADDR" "len <s vm_space_after (mem (kst s)) (vm_head me s)"
  shows "mmap_any me len prot flgs fd s =
    mmap_place me False (vm_head me s) (vm_head me s) (vm_end (mem (kst s)) (vm_head me s) + 1) len prot flgs fd s"
  using assms by (simp add: mmap_any_def Let_def vma_walk.simps [of _ _ "vm_head me s" "vm_head me s"] any_test_def)

lemma mmap_any_first:
  assumes "first_mapping me len prot flgs fd xs s"
  obtains k ys where "mmap_any me len prot flgs fd s = Ok MIN_ADDR (s\<lparr>kst := k\<rparr>)"
    "area_added (ksy (ev s)) (pgdir (the_proc me s)) (prot OR PTE_U) (pages_in MIN_ADDR (MIN_ADDR + len))
       (vm_head me s) (vm_head me s) (kst s) xs k ys"
    "area_at (mem k) (hd xs) MIN_ADDR (PGROUNDUP (MIN_ADDR + len) - 1) prot flgs (vm_tail me s)"
    "vm_next (mem k) (vm_head me s) = hd xs" "vm_space_after (mem k) (vm_head me s) = 0x20000000 - len"
proof -
  let ?h = "vm_head me s" and ?m = "mem (kst s)"
  note a = assms [unfolded first_mapping_def fresh_areas_def Let_def]
  note r = first_range [of len]
  obtain v ys where xs: "xs = v # ys" using a by (cases xs) auto
  have h: "kdata (ksy (ev s)) ?h 48" using a kdata_part [of _ ?h 96 0 48] by simp
  have walk: "mmap_any me len prot flgs fd s = mmap_place me False ?h ?h MIN_ADDR len prot flgs fd s"
    using a kdata_nonzero [OF h] by (subst head_walk) (auto simp: MIN_ADDR_def MAX_ADDR_def)
  have w: "take_bit 12 (prot OR PTE_U) = prot OR PTE_U" using a by (simp add: take_bit_or)
  show thesis
  proof (rule mmap_place_anon [of "ksy (ev s)" s "pgdir (the_proc me s)" v ys me flgs fd ?h ?h MIN_ADDR len prot])
    fix k zs
    assume k: "mmap_place me False ?h ?h MIN_ADDR len prot flgs fd s = Ok MIN_ADDR (s\<lparr>kst := k\<rparr>)"
      "area_added (ksy (ev s)) (pgdir (the_proc me s)) (prot OR PTE_U) (pages_in MIN_ADDR (PGROUNDUP (MIN_ADDR + len) - 1)) ?h ?h (kst s) (v # ys) k zs"
      "area_at (mem k) v MIN_ADDR (PGROUNDUP (MIN_ADDR + len) - 1) prot flgs (vm_next ?m ?h)" "vm_next (mem k) ?h = v"
      "vm_space_after (mem k) ?h = vm_space_after ?m ?h - len"
    show thesis by (rule that [of k zs]) (use k a r walk xs in simp_all)
  qed (use a xs h w r MIN_ADDR_page in simp_all)
qed



section \<open>The second one\<close>

lemma mmap_page_remap:
  assumes inv: "uvm_inv L (kst s) pd (x # xs)" and pd: "pgdir (the_proc me s) = pd"
    and new: "page_aligned new" "new \<notin> set (x # xs) \<union> pt_pages (mem (kst s)) pd"
    and pr: "present (pte_at (mem (kst s)) pd i)"
  shows "mmap_page me new start flgs fd i s = Panic ''remap''"
proof -
  note tk = uvm_inv_take [OF inv]
  have px: "page_aligned x" using tk(2) by auto
  define m where "m = (if i = start then store32 (memset (mem (kst s)) x 0 PGSIZE) (new + 12) x else memset (mem (kst s)) x 0 PGSIZE)"
  have m: "m b = mem (kst s) b" if "PGROUNDDOWN b \<noteq> x" "PGROUNDDOWN b \<noteq> new" for b
    using that new(1) px by (simp add: m_def store_in_page memset_page)
  let ?k = "(kst s)\<lparr>freelist := load32 (mem (kst s)) x, mem := m\<rparr>"
  have same: "mem ?k b = mem ((kst s)\<lparr>freelist := load32 (mem (kst s)) x\<rparr>) b"
    if "PGROUNDDOWN b \<in> set xs \<union> pt_pages (mem ((kst s)\<lparr>freelist := load32 (mem (kst s)) x\<rparr>)) pd" for b
    using that m [of b] tk(3,4) new(2) by auto
  note u = uvm_inv_frame [OF tk(6) _ same]
  have "mappages pd i PGSIZE (V2P x) perm ?k = Panic ''remap''" for perm
    using mappages_remap [OF uvm_inv_vm, of L ?k pd xs i] u pr by simp
  then show ?thesis
    using kpage_nonzero [OF tk(2)] pd
    by (auto simp: mmap_page_def kalloc_k_def tk(1) upd_mem_def set_word_def Let_def with_mem_def mappages_eqs m_def the_proc_def)
qed

lemma mmap_place_remap:
  assumes inv: "uvm_inv L (kst s) pd (v # x # xs)" and pd: "pgdir (the_proc me s) = pd" and f: "ofile_word me fd s \<noteq> None"
    and kd: "kdata L cur 48"
    and st: "start < PGROUNDUP (start + len) - 1" "present (pte_at (mem (kst s)) pd start)"
  shows "mmap_place me False prev cur start len prot flgs fd s = Panic ''remap''"
proof -
  let ?m = "mem (kst s)"
  define k1 where "k1 = (kst s)\<lparr>mem := store32 ?m (cur + 36) (vm_space_after ?m cur - len)\<rparr>"
  have "aligned4 cur" using kd by (simp add: kdata_def)
  then have nx: "vm_next (mem k1) cur = vm_next ?m cur"
    by (simp add: k1_def vm_next_def load32_store32_other aligned4_off)
  have inv1: "uvm_inv L k1 pd (v # x # xs)" "pte_at (mem k1) pd = pte_at ?m pd" "pt_pages (mem k1) pd = pt_pages ?m pd"
    using kdata_frame [OF inv kd, where c = 36 and x = "vm_space_after ?m cur - len"] by (simp_all add: k1_def)
  obtain k2 where cv: "create_vma me cur (vm_next ?m cur) start len prot flgs fd (s\<lparr>kst := k1\<rparr>) = Ok v (s\<lparr>kst := k2\<rparr>)"
    and k2: "uvm_inv L k2 pd (x # xs)" "pte_at (mem k2) pd = pte_at (mem k1) pd" "pt_pages (mem k2) pd = pt_pages (mem k1) pd"
      "area_at (mem k2) v start (PGROUNDUP (start + len) - 1) prot flgs (vm_next ?m cur)"
    using create_vma_spec [of L "s\<lparr>kst := k1\<rparr>" pd v "x # xs" me fd cur "vm_next ?m cur" start len prot flgs] inv1(1) f kd
    by auto
  have v: "page_aligned v" "v \<notin> set (x # xs) \<union> pt_pages (mem k2) pd"
    using uvm_inv_take(2-4) [OF inv1(1)] k2(3) by auto
  have "mmap_page me v start flgs fd start (s\<lparr>kst := k2\<rparr>) = Panic ''remap''"
    using mmap_page_remap [of L "s\<lparr>kst := k2\<rparr>" pd x xs me v start] k2 inv1 v pd st by (simp add: the_proc_def)
  then have "mmap_pages (Suc n) me v start flgs fd start (s\<lparr>kst := k2\<rparr>) = Panic ''remap''" for n
    using st(1) k2(4) by (simp add: area_at_def)
  then have "mmap_pages page_fuel me v start flgs fd start (s\<lparr>kst := k2\<rparr>) = Panic ''remap''"
    unfolding page_fuel_def by (metis numeral_eq_Suc)
  then show ?thesis
    using cv nx by (simp add: mmap_place_def set_word_def upd_mem_def k1_def)
qed

text \<open>
  C3: the second \<^verbatim>\<open>mmap\<close> with no fixed address brings the kernel down. The search for space begins at the head of
  the list, whose count of free bytes still covers the request, and places the new area
  behind the head once more, at \<open>0x60000000\<close>, where the first one is: \<^verbatim>\<open>mappages\<close> panics.
\<close>

theorem second_mmap_panics:
  assumes "first_mapping me len prot flgs fd xs s"
    and "2 * card (pages_in MIN_ADDR (MIN_ADDR + len)) + 3 \<le> length xs"
    and "0 <s len'" "len' <s 0x20000000 - len" "ofile_word me fd' s \<noteq> None"
  shows "bindO (mmap_any me len prot flgs fd s) (\<lambda>_ s. mmap_any me len' prot' flgs' fd' s) = Panic ''remap''"
proof -
  let ?h = "vm_head me s" and ?L = "ksy (ev s)" and ?pd = "pgdir (the_proc me s)"
  obtain k ys where r: "mmap_any me len prot flgs fd s = Ok MIN_ADDR (s\<lparr>kst := k\<rparr>)"
    and added: "area_added ?L ?pd (prot OR PTE_U) (pages_in MIN_ADDR (MIN_ADDR + len)) ?h ?h (kst s) xs k ys"
    and sp: "vm_space_after (mem k) ?h = 0x20000000 - len"
    and nx: "vm_next (mem k) ?h = hd xs"
    by (rule mmap_any_first [OF assms(1)])
  note a = assms(1) [unfolded first_mapping_def fresh_areas_def Let_def]
  note q = first_range [of len]
  have h: "kdata ?L ?h 48" "kdata ?L ?h 96" using a kdata_part [of _ ?h 96 0 48] by simp_all
  have word: "load32 (mem k) (?h + c) = load32 (mem (kst s)) (?h + c)" if "c = 4 \<or> c = 8" for c
  proof (rule load32_cong)
    fix b assume b: "b - (?h + c) < 4"
    have c: "unat c + 4 \<le> 96" "c mod 4 = 0" "c \<noteq> 36" "c \<noteq> 44" "c \<noteq> 16" using that by auto
    have "aligned4 ?h" using h by (simp add: kdata_def)
    then have "\<not> b - (?h + 36) < 4" "\<not> b - (?h + 44) < 4" "\<not> b - (?h + 16) < 4"
      using aligned4_disjoint [OF _ _ _ b] c by (simp_all add: aligned4_off)
    moreover have "PGROUNDDOWN b \<notin> set xs \<union> pt_pages (mem (kst s)) ?pd"
      using kdata_word [OF h(2) c(1,2) b] uvm_inv_pages a by blast
    ultimately show "mem k b = mem (kst s) b" using added by (simp add: area_added_def)
  qed
  have range: "0 <s len'" "len' <s 0x20000000"
  proof -
    have l: "0 < unat len" "unat len < 536870912" using a q(2,3) by auto
    then have "unat (0x20000000 - len) = 536870912 - unat len" by (subst unat_sub_le) (simp_all add: u32_le_iff_unat)
    moreover have "unat len' < 2147483648" using assms(3) i32_neg_iff [of len'] by (auto simp: word_sless_alt)
    ultimately show "len' <s 0x20000000"
      using assms(4) l i32_small(1) [of len' "0x20000000 - len"] i32_small(1) [of len' "0x20000000"] by simp
  qed (rule assms(3))
  obtain y z zs where ys: "ys = y # z # zs"
    using added assms(2) by (cases ys; cases "tl ys") (auto simp: area_added_def)
  have pr: "present (pte_at (mem k) ?pd MIN_ADDR)"
    using added q a MIN_ADDR_page by (auto simp: area_added_def pages_in_def u32_less_iff_unat)
  let ?s = "s\<lparr>kst := k\<rparr>"
  have "mmap_any me len' prot' flgs' fd' ?s = mmap_place me False ?h ?h MIN_ADDR len' prot' flgs' fd' ?s"
    using a word kdata_nonzero [OF h(1)] sp assms(4) by (subst head_walk) (auto simp: MIN_ADDR_def MAX_ADDR_def vm_start_def vm_end_def)
  moreover have "mmap_place me False ?h ?h MIN_ADDR len' prot' flgs' fd' ?s = Panic ''remap''"
    using added h(1) assms(5) first_range [OF range] pr
    by (intro mmap_place_remap [of ?L ?s ?pd y z zs]) (simp_all add: ys area_added_def the_proc_def)
  ultimately show ?thesis by (simp add: r)
qed


section \<open>Shared areas across fork\<close>

text \<open>An area that lies in the kernel's data or in a page that is neither free nor a page table.\<close>

definition safe_area :: "ksyms \<Rightarrow> kstate \<Rightarrow> u32 \<Rightarrow> u32 list \<Rightarrow> u32 \<Rightarrow> bool" where
  "safe_area L k pd xs v \<longleftrightarrow> page_aligned v \<and> v \<notin> set xs \<union> pt_pages (mem k) pd \<or> kdata L v 48"

lemma vm_inv_pages:
  assumes "vm_inv L k pd xs" "x \<in> set xs \<union> pt_pages (mem k) pd"
  shows "kpage L x"
  using assms by (auto simp: vm_inv_def free_rep_def list_all_iff pt_pages_def pt_wf_def)

lemma safe_area_load:
  assumes inv: "vm_inv L k pd xs" and v: "safe_area L k pd xs v" and c: "unat c + 4 \<le> 48" "c mod 4 = 0"
    and same: "\<And>b. PGROUNDDOWN b \<notin> set xs \<union> pt_pages (mem k) pd \<Longrightarrow> m' b = mem k b"
  shows "load32 m' (v + c) = load32 (mem k) (v + c)"
proof (rule load32_cong, rule same)
  fix b assume b: "b - (v + c) < 4"
  show "PGROUNDDOWN b \<notin> set xs \<union> pt_pages (mem k) pd"
  proof (cases "kdata L v 48")
    case True
    then show ?thesis using kdata_word [OF True c b] vm_inv_pages [OF inv] by blast
  next
    case False
    then have p: "page_aligned v" "v \<notin> set xs \<union> pt_pages (mem k) pd" using v by (auto simp: safe_area_def)
    have "unat (b - v) \<le> unat (b - (v + c)) + unat c"
      using unat_add_le [of "b - (v + c)" c] by (simp add: algebra_simps)
    then have "PGROUNDDOWN b = v" using b c(1) in_page_iff [OF p(1), of b] by (simp add: u32_less_iff_unat)
    then show ?thesis using p(2) by simp
  qed
qed

text \<open>Mapping one page when there is a free page for the page table.\<close>

lemma mappages_one_page:
  assumes inv: "vm_inv L k pd xs" "xs \<noteq> []" and a: "page_aligned a" "\<not> present (pte_at (mem k) pd a)"
  obtains k' ys where "mappages pd a PGSIZE pa perm k = Ok 0 k'"
    "pte_at (mem k') pd = (\<lambda>va. if PGROUNDDOWN va = a then pa OR perm OR PTE_P else pte_at (mem k) pd va)"
    "vm_ext L pd k xs k' ys" "length xs \<le> Suc (length ys)"
proof -
  have "map_spec (pte_at (mem k) pd) a 1 pa perm =
      (\<lambda>va. if PGROUNDDOWN va = a then pa OR perm OR PTE_P else pte_at (mem k) pd va)"
    using map_spec_Suc [OF a(1), of 0 pa perm "pte_at (mem k) pd"] by simp
  moreover have "card (missing (mem k) pd a 1) \<le> 1" by (rule card_missing_one [OF a(1)])
  moreover obtain k' ys where k: "vm_ext L pd k xs k' ys"
    "mappages pd a PGSIZE pa perm k = Ok 0 k' \<and> pte_at (mem k') pd = map_spec (pte_at (mem k) pd) a 1 pa perm \<and>
       length xs = length ys + card (missing (mem k) pd a 1) \<or> length xs < card (missing (mem k) pd a 1)"
    using mappages_page_spec [OF inv(1) a, of pa perm] unfolding mapped_or_full_def by blast
  moreover have "0 < length xs" using inv(2) by simp
  ultimately have "mappages pd a PGSIZE pa perm k = Ok 0 k'" "length xs \<le> Suc (length ys)"
    "pte_at (mem k') pd = (\<lambda>va. if PGROUNDDOWN va = a then pa OR perm OR PTE_P else pte_at (mem k) pd va)"
    by auto
  with k(1) show thesis using that by blast
qed

lemma fork_shared_loop:
  assumes "vm_inv L (kst s) pd xs" "pgdir (the_proc np s) = pd" "safe_area L (kst s) pd xs v"
    and "vm_end (mem (kst s)) v = e" "vm_pa (mem (kst s)) v = pa" "vm_prot (mem (kst s)) v OR PTE_U = w" and e: "e \<le> KERNBASE"
    and "page_aligned i" "\<And>p. p \<in> pages_in i e \<Longrightarrow> \<not> present (pte_at (mem (kst s)) pd p)"
    and "card (pages_in i e) \<le> length xs" "unat e + 4096 \<le> unat i + 4096 * fuel" "0 < fuel"
  shows "\<exists>k ys. fork_shared fuel np v i s = Ok () (s\<lparr>kst := k\<rparr>) \<and> vm_ext L pd (kst s) xs k ys \<and>
    pte_at (mem k) pd = (\<lambda>va. if PGROUNDDOWN va \<in> pages_in i e then V2P pa OR w OR PTE_P else pte_at (mem (kst s)) pd va)"
  using assms(1-6,8-)
proof (induction fuel arbitrary: i s xs)
  case (Suc fuel)
  show ?case
  proof (cases "i < e")
    case False
    then show ?thesis
      using Suc.prems(1,4) vm_ext_refl [OF Suc.prems(1)] by (intro exI [of _ "kst s"] exI [of _ xs]) (simp add: Let_def fun_eq_iff)
  next
    case True
    have st: "pages_in i e = {i} \<union> pages_in (i + PGSIZE) e" by (rule pages_in_step [OF Suc.prems(7) True e])
    have ni: "unat (i + PGSIZE) = unat i + 4096" by (rule page_next [OF True e])
    have out: "i \<notin> pages_in (i + PGSIZE) e" using ni by (auto simp: pages_in_def u32_le_iff_unat)
    then have card: "card (pages_in i e) = Suc (card (pages_in (i + PGSIZE) e))" using st by simp
    then have "xs \<noteq> []" using Suc.prems(9) by auto
    then obtain k ys where k: "mappages pd i PGSIZE (V2P pa) w (kst s) = Ok 0 k"
      "pte_at (mem k) pd = (\<lambda>va. if PGROUNDDOWN va = i then V2P pa OR w OR PTE_P else pte_at (mem (kst s)) pd va)"
      "vm_ext L pd (kst s) xs k ys" "length xs \<le> Suc (length ys)"
      using mappages_one_page [OF Suc.prems(1) _ Suc.prems(7)] Suc.prems(8) [of i] st by blast
    let ?s = "s\<lparr>kst := k\<rparr>"
    have frame: "mem k b = mem (kst s) b" if "PGROUNDDOWN b \<notin> set xs \<union> pt_pages (mem (kst s)) pd" for b
      using k(3) that by (auto simp: vm_ext_def)
    have sets: "set ys \<union> pt_pages (mem k) pd = set xs \<union> pt_pages (mem (kst s)) pd" using k(3) by (auto simp: vm_ext_def)
    note w = safe_area_load [OF Suc.prems(1,3) _ _ frame]
    have IH: "\<exists>k' zs. fork_shared fuel np v (i + PGSIZE) ?s = Ok () (?s\<lparr>kst := k'\<rparr>) \<and> vm_ext L pd (kst ?s) ys k' zs \<and>
      pte_at (mem k') pd = (\<lambda>va. if PGROUNDDOWN va \<in> pages_in (i + PGSIZE) e then V2P pa OR w OR PTE_P else pte_at (mem (kst ?s)) pd va)"
    proof (rule Suc.IH)
      show "vm_inv L (kst ?s) pd ys" using k(3) by (simp add: vm_ext_def)
      show "safe_area L (kst ?s) pd ys v" using Suc.prems(3) sets by (simp add: safe_area_def)
      show "vm_end (mem (kst ?s)) v = e" "vm_pa (mem (kst ?s)) v = pa" "vm_prot (mem (kst ?s)) v OR PTE_U = w"
        using w [of 8] w [of 12] w [of 24] Suc.prems(4-6) by (simp_all add: vm_end_def vm_pa_def vm_prot_def)
      show "\<not> present (pte_at (mem (kst ?s)) pd p)" if "p \<in> pages_in (i + PGSIZE) e" for p
      proof -
        have "page_aligned p" "p \<noteq> i" "p \<in> pages_in i e" using that out st by (auto simp: pages_in_def)
        then show ?thesis using k(2) Suc.prems(8) [of p] by simp
      qed
      show "card (pages_in (i + PGSIZE) e) \<le> length ys" using Suc.prems(9) card k(4) by simp
      show "unat e + 4096 \<le> unat (i + PGSIZE) + 4096 * fuel" using Suc.prems(10) ni by simp
      show "0 < fuel" using Suc.prems(10) True by (cases fuel) (simp_all add: u32_less_iff_unat)
    qed (use Suc.prems in \<open>simp_all add: page_aligned_add the_proc_def\<close>)
    then obtain k' zs where r: "fork_shared fuel np v (i + PGSIZE) ?s = Ok () (s\<lparr>kst := k'\<rparr>)" "vm_ext L pd k ys k' zs"
      "pte_at (mem k') pd = (\<lambda>va. if PGROUNDDOWN va \<in> pages_in (i + PGSIZE) e then V2P pa OR w OR PTE_P else pte_at (mem k) pd va)"
      by (auto cong: if_cong)
    have "fork_shared (Suc fuel) np v i s = Ok () (s\<lparr>kst := k'\<rparr>)"
      using True r(1) k(1) Suc.prems(2,4-6) by (simp add: Let_def with_mem_def mappages_eqs)
    moreover have "pte_at (mem k') pd = (\<lambda>va. if PGROUNDDOWN va \<in> pages_in i e then V2P pa OR w OR PTE_P else pte_at (mem (kst s)) pd va)"
      using r(3) k(2) st by (simp add: fun_eq_iff)
    ultimately show ?thesis using vm_ext_trans [OF k(3) r(2)] by blast
  qed
qed simp


section \<open>Areas that grow\<close>

lemma safe_area_store:
  assumes inv: "uvm_inv L k pd xs" and v: "safe_area L k pd ys v" and c: "unat c + 4 \<le> 48" "c mod 4 = 0"
    and b: "PGROUNDDOWN b \<in> set ys \<union> pt_pages (mem k) pd" "kpage L (PGROUNDDOWN b)"
  shows "store32 m (v + c) x b = m b"
proof (cases "kdata L v 48")
  case True
  then show ?thesis using kdata_word [OF True c, of b] b(2) by (auto intro: store32_elsewhere)
next
  case False
  then show ?thesis using v b(1) c(1) by (auto simp: safe_area_def intro!: store_in_page)
qed

lemma safe_area_aligned: "safe_area L k pd xs v \<Longrightarrow> aligned4 v"
  by (auto simp: safe_area_def kdata_def page_aligned4)

text \<open>The memory after a page \<open>g\<close> is mapped and three words of the area \<open>v\<close> are written.\<close>

lemma grown_then_area:
  fixes k2 :: kstate and v n1 n2 n3 :: u32
  defines "m \<equiv> store32 (store32 (store32 (mem k2) (v + 20) n1) (v + 8) n2) (v + 16) n3"
  assumes inv: "uvm_inv L k pd xs" and g: "grown L pd w {a} k xs k2 ys" and v: "safe_area L k pd xs v" and a: "a < KERNBASE"
  shows "uvm_inv L (k2\<lparr>mem := m\<rparr>) pd ys"
    "PGROUNDDOWN va = a \<Longrightarrow> pte_at m pd va = V2P (upage m pd va) OR w OR PTE_P"
    "PGROUNDDOWN va = a \<Longrightarrow> PGROUNDDOWN b = upage m pd va \<Longrightarrow> m b = 0"
    "PGROUNDDOWN va \<noteq> a \<Longrightarrow> pte_at m pd va = pte_at (mem k) pd va"
proof -
  have inv2: "uvm_inv L k2 pd ys" using g by (simp add: grown_def)
  have keep: "m b = mem k2 b" if "PGROUNDDOWN b \<in> set xs \<union> pt_pages (mem k) pd" for b
    using that safe_area_store [OF inv v _ _ that] vm_inv_pages [OF uvm_inv_vm [OF inv]] by (simp add: m_def)
  have "mem (k2\<lparr>mem := m\<rparr>) b = mem k2 b" if "PGROUNDDOWN b \<in> set ys \<union> pt_pages (mem k2) pd" for b
    using that keep grown_sets [OF g] by auto
  note f = uvm_inv_frame [OF inv2 _ this]
  have pte: "pte_at m pd = pte_at (mem k2) pd" and up: "upage m pd = upage (mem k2) pd"
    using f(2) by (simp_all add: upage_def fun_eq_iff)
  show "uvm_inv L (k2\<lparr>mem := m\<rparr>) pd ys" using f by simp
  show "PGROUNDDOWN va = a \<Longrightarrow> pte_at m pd va = V2P (upage m pd va) OR w OR PTE_P"
    "PGROUNDDOWN va \<noteq> a \<Longrightarrow> pte_at m pd va = pte_at (mem k) pd va"
    using grown_pte [OF g, of va] by (simp_all add: pte up)
  show "m b = 0" if "PGROUNDDOWN va = a" "PGROUNDDOWN b = upage m pd va"
  proof -
    have "upage (mem k2) pd va \<in> set xs \<union> pt_pages (mem k) pd" using grown_sets [OF g] that(1) by blast
    then show ?thesis using keep [of b] grown_zero [OF g, of va b] that up by simp
  qed
qed

lemma grow_area_spec:
  assumes inv: "uvm_inv L (kst s) pd (x # xs)" "xs \<noteq> []" "pgdir (the_proc me s) = pd"
    and v: "safe_area L (kst s) pd (x # xs) v" and n: "safe_area L (kst s) pd (x # xs) (vm_next (mem (kst s)) v)"
      "vm_next (mem (kst s)) v \<noteq> 0" "\<And>c. c = 8 \<or> c = 16 \<or> c = 20 \<Longrightarrow> vm_next (mem (kst s)) v + 4 \<noteq> v + c"
    and g: "page_aligned (vm_guardstart (mem (kst s)) v)" "\<not> present (pte_at (mem (kst s)) pd (vm_guardstart (mem (kst s)) v))"
    and w: "vm_prot (mem (kst s)) v OR PTE_U = w" "take_bit 12 w = w"
  defines "e \<equiv> vm_end (mem (kst s)) v + PGSIZE"
  defines "gs \<equiv> (if vm_start (mem (kst s)) (vm_next (mem (kst s)) v) - (e + 1) < 2 * PGSIZE then - 1 else e + 1)"
  obtains k ys where "grow_area me v s = Ok () (s\<lparr>kst := k\<lparr>mem :=
      store32 (store32 (store32 (mem k) (v + 20) (vm_len (mem (kst s)) v + PGSIZE)) (v + 8) e) (v + 16) gs\<rparr>\<rparr>)"
    "grown L pd w {vm_guardstart (mem (kst s)) v} (kst s) (x # xs) k ys"
proof -
  let ?m = "mem (kst s)" and ?g = "vm_guardstart (mem (kst s)) v"
  note tk = uvm_inv_take [OF inv(1)]
  have px: "page_aligned x" using tk(2) by auto
  note vm = uvm_inv_vm [OF inv(1)]
  have ms: "memset ?m x 0 PGSIZE b = ?m b" if "PGROUNDDOWN b \<notin> set (x # xs) \<union> pt_pages ?m pd" for b
    using that px by (simp add: memset_page)
  have m1: "load32 (memset ?m x 0 PGSIZE) (v + c) = load32 ?m (v + c)" if "unat c + 4 \<le> 48" "c mod 4 = 0" for c
    using safe_area_load [OF vm v that ms] .
  show thesis
    using inv(1) g w(2) refl
  proof (cases rule: grown_one)
    case (ok k ys)
    have fr: "mem k b = ?m b" if "PGROUNDDOWN b \<notin> set (x # xs) \<union> pt_pages ?m pd" for b
      using ok(2) that by (simp add: grown_def)
    have m2: "load32 (mem k) (v + c) = load32 ?m (v + c)" if "unat c + 4 \<le> 48" "c mod 4 = 0" for c
      using safe_area_load [OF vm v that fr] .
    have m3: "load32 (mem k) (vm_next ?m v + 4) = load32 ?m (vm_next ?m v + 4)"
      using safe_area_load [OF vm n(1) _ _ fr] by simp
    note al = safe_area_aligned [OF v] safe_area_aligned [OF n(1)]
    have m4: "load32 (store32 (store32 (mem k) (v + 20) n1) (v + 8) n2) (vm_next ?m v + 4) = load32 ?m (vm_next ?m v + 4)" for n1 n2
      using n(3) [of 8] n(3) [of 20] m3 aligned4_off [OF al(2), of 4] aligned4_off [OF al(1)] by (simp add: load32_store32_other)
    have "grow_area me v s = Ok () (s\<lparr>kst := k\<lparr>mem :=
      store32 (store32 (store32 (mem k) (v + 20) (vm_len (mem (kst s)) v + PGSIZE)) (v + 8) e) (v + 16) gs\<rparr>\<rparr>)"
      using ok(1) w(1) inv(3) kpage_nonzero [OF tk(2)] n(2) m1 [of 16] m1 [of 24] m2 [of 20] m2 [of 8] m2 [of 44] m4 al(1)
      by (simp add: grow_area_def kalloc_k_def tk(1) upd_mem_def set_word_def Let_def with_mem_def mappages_eqs the_proc_def vm_guardstart_def
          vm_prot_def vm_len_def vm_end_def vm_next_def vm_start_def e_def gs_def load32_store32_other aligned4_off)
    then show thesis using ok(2) by (rule that)
  qed (use inv(2) in simp)
qed


section \<open>A machine for the examples\<close>

text \<open>The process has one page, with the arguments of \<^verbatim>\<open>mmap\<close>; its areas are as \<^verbatim>\<open>exec\<close> leaves them, and five pages are free.\<close>

definition demo_area_words :: "(u32 \<times> u32) list" where
  "demo_area_words = [(0x80130004, 0), (0x80130008, 4096), (0x8013000C, 2), (0x80130010, 5), (0x80130014, 0xFFFFFFFF), (0x80130018, 0),
     (0x8010C080, 0x60000000), (0x8010C084, 0x5FFFFFFF), (0x8010C0A0, 0x20000000), (0x8010C0A8, 0x8010C0AC), (0x8010C0B0, 0x80000000),
     (0x80150000, 0x80151000), (0x80151000, 0x80152000), (0x80152000, 0x80153000), (0x80153000, 0x80154000)]"

definition demo_area_mem :: memory where
  "demo_area_mem = foldl (\<lambda>m (a, x). store32 m a x) (store32 (store32 (\<lambda>_. 0) 0x80120000 0x121007) 0x80121000 0x130007) demo_area_words"

definition demo_areas :: kernel where
  "demo_areas = (demo_kernel demo_area_mem)\<lparr>kst := \<lparr>mem = demo_area_mem, use_lock = True, freelist = 0x80150000\<rparr>\<rparr>"

lemma demo_area_load:
  "load32 demo_area_mem 0x80130004 = 0" "load32 demo_area_mem 0x80130008 = 4096" "load32 demo_area_mem 0x8013000C = 2"
  "load32 demo_area_mem 0x80130010 = 5" "load32 demo_area_mem 0x80130014 = 0xFFFFFFFF" "load32 demo_area_mem 0x80130018 = 0"
  "load32 demo_area_mem 0x8010C080 = 0x60000000" "load32 demo_area_mem 0x8010C084 = 0x5FFFFFFF" "load32 demo_area_mem 0x8010C0A0 = 0x20000000"
  "load32 demo_area_mem 0x8010C0A8 = 0x8010C0AC" "load32 demo_area_mem 0x8010C0B0 = 0x80000000"
  "load32 demo_area_mem 0x80150000 = 0x80151000" "load32 demo_area_mem 0x80151000 = 0x80152000" "load32 demo_area_mem 0x80152000 = 0x80153000"
  "load32 demo_area_mem 0x80153000 = 0x80154000" "load32 demo_area_mem 0x80154000 = 0" "demo_layout demo_area_mem"
  by (simp_all add: demo_area_mem_def demo_area_words_def load32_store32_other aligned4_def demo_layout_def)

lemma store_other_page:
  assumes "aligned4 a" "PGROUNDDOWN a \<noteq> PGROUNDDOWN b"
  shows "store32 m a v b = m b"
proof -
  let ?p = "PGROUNDDOWN a"
  have c: "unat (a - ?p) = unat a mod 4096"
    by (subst unat_sub_le) (simp_all add: u32_le_iff_unat unat_PGROUNDDOWN minus_div_mult_eq_mod)
  have "unat a mod 4096 mod 4 = 0"
    using assms(1) mod_mod_cancel [of 4 4096 "unat a"] by (simp add: aligned4_unat)
  then obtain q where q: "unat a mod 4096 = 4 * q" by (blast elim: dvdE dest: dvd_eq_mod_eq_0 [THEN iffD2])
  moreover have "unat a mod 4096 < 4096" by simp
  ultimately have "q < 1024" by simp
  with q have "unat a mod 4096 + 4 \<le> 4096" by simp
  then show ?thesis
    using store_in_page [of ?p "a - ?p" b m v] assms(2) c by simp
qed

lemma demo_area_table:
  assumes "p = 0x80120000 \<or> p = 0x80121000" "i < 1024"
  shows "load32 demo_area_mem (entry p i) = (if i = 0 then if p = 0x80120000 then 0x121007 else 0x130007 else 0)"
proof -
  have "demo_area_mem b = store32 (store32 (\<lambda>_. 0) 0x80120000 0x121007) 0x80121000 0x130007 b" if "PGROUNDDOWN b = p" for b
    using that assms(1) by (auto simp: demo_area_mem_def demo_area_words_def store_other_page aligned4_def PGROUNDDOWN_def [of "numeral _"])
  then have "load32 demo_area_mem (entry p i) = load32 (store32 (store32 (\<lambda>_. 0) (entry 0x80120000 0) 0x121007) (entry 0x80121000 0) 0x130007) (entry p i)"
    using assms by (intro load32_entry_frame) (auto simp: page_aligned_def entry_def)
  also have "\<dots> = (if i = 0 then if p = 0x80120000 then 0x121007 else 0x130007 else 0)"
    using assms by (auto simp: load32_store32_entry page_aligned_def)
  finally show ?thesis .
qed

lemma demo_area_pde: "d < 1024 \<Longrightarrow> pde_at demo_area_mem 0x80120000 d = (if d = 0 then 0x121007 else 0)"
  by (simp add: pde_at_def demo_area_table)

lemma demo_area_pte: "pte_at demo_area_mem 0x80120000 va = (if PGROUNDDOWN va = 0 then 0x130007 else 0)"
proof -
  have "PGROUNDDOWN va = 0 \<longleftrightarrow> PDX va = 0 \<and> PTX va = 0"
    using page_eq_iff [of "PGROUNDDOWN va" 0] PTX_PGROUNDDOWN [of va] by (simp add: PDX_def [of 0] PTX_def [of 0])
  then show ?thesis
    by (simp add: pte_at_def demo_area_pde pgtab_at_def PTE_ADDR_def P2V_def demo_area_table)
qed

lemma demo_areas_inv:
  "uvm_inv demo_syms \<lparr>mem = demo_area_mem, use_lock = True, freelist = 0x80150000\<rparr> 0x80120000
     [0x80150000, 0x80151000, 0x80152000, 0x80153000, 0x80154000]"
proof -
  have pt: "pt_pages demo_area_mem 0x80120000 = {0x80120000, 0x80121000}"
    by (auto simp: pt_pages_def demo_area_pde pgtab_at_def PTE_ADDR_def P2V_def split: if_splits)
  have "upage demo_area_mem 0x80120000 va = 0x80130000" "PGROUNDDOWN va = 0" if "va \<in> umapped demo_area_mem 0x80120000" for va
    using that by (auto simp: umapped_def upage_def demo_area_pte PTE_ADDR_def P2V_def split: if_splits)
  moreover have "free_rep demo_syms \<lparr>mem = demo_area_mem, use_lock = True, freelist = 0x80150000\<rparr>
      [0x80150000, 0x80151000, 0x80152000, 0x80153000, 0x80154000]"
    by (simp add: free_rep_def demo_area_load kpage_def page_aligned_def demo_syms_def V2P_def)
  moreover have "pt_wf demo_syms demo_area_mem 0x80120000"
    by (auto simp: pt_wf_def demo_area_pde pgtab_at_def PTE_ADDR_def P2V_def kpage_def page_aligned_def demo_syms_def V2P_def split: if_splits)
  ultimately show ?thesis
    by (simp add: uvm_inv_def vm_inv_def pt demo_syms_def kpage_def page_aligned_def V2P_def)
qed


lemma demo_areas_simps:
  "kst demo_areas = \<lparr>mem = demo_area_mem, use_lock = True, freelist = 0x80150000\<rparr>" "ksy (ev demo_areas) = demo_syms"
  "the_proc 0 demo_areas = demo_proc\<lparr>sz := 4096, pgdir := 0x80120000, pstate := RUNNING, pid := 1, tf := 0x80140000\<rparr>"
  "vm_head 0 demo_areas = 0x8010C07C" "vm_tail 0 demo_areas = 0x8010C0AC"
  by (simp_all add: demo_areas_def demo_kernel_def the_proc_def kernel.defs fs.defs logst.defs vm_head_def vm_tail_def procaddr_def)

lemma demo_areas_argint:
  assumes "n < 6"
  shows "argint 0 n demo_areas = Ok (Some (load32 demo_area_mem (0x80130004 + 4 * of_nat n))) demo_areas"
proof -
  have esp: "tf_get 0 TF_esp demo_areas = 0"
    using demo_area_load(17) by (simp add: demo_layout_def tf_get_def demo_areas_simps)
  have "n = 0 \<or> n = 1 \<or> n = 2 \<or> n = 3 \<or> n = 4 \<or> n = 5" using assms by auto
  then show ?thesis
    by (elim disjE) (simp_all add: argint_def esp fetchint_def user_word_def user_load_def Let_def upresent_def load32_def
        demo_areas_simps demo_layout_pte [OF demo_area_load(17)] uread_def uaddr_def upage_def P2V_def PTE_ADDR_def
        PGROUNDDOWN_def get32_def upt_conv_Cons)
qed

lemma demo_pages: "pages_in 0x60000000 0x60001000 = {0x60000000}"
  using pages_in_step [of "0x60000000" "0x60001000"] by (simp add: page_aligned_def)

lemma demo_first_mapping:
  "first_mapping 0 4096 2 5 (- 1) [0x80150000, 0x80151000, 0x80152000, 0x80153000, 0x80154000] demo_areas"
proof -
  have "aligned4 0x8010C07C" by (simp add: aligned4_def)
  then show ?thesis
    using demo_areas_inv
    by (simp add: first_mapping_def demo_pages demo_areas_simps kdata_def demo_syms_def fresh_areas_def vm_start_def vm_end_def
        vm_space_after_def vm_next_def demo_area_load MIN_ADDR_def MAX_ADDR_def MAP_ANON_def MAP_GROWSUP_def ofile_word_def
        demo_area_pte PGROUNDDOWN_def i32_small)
qed


theorem second_mmap_panics_witness:
  "bindO (mmap_any 0 4096 2 5 (- 1) demo_areas) (\<lambda>_ s. mmap_any 0 8192 2 5 (- 1) s) = Panic ''remap''"
  by (rule second_mmap_panics [OF demo_first_mapping]) (simp_all add: i32_small ofile_word_def MIN_ADDR_def demo_pages)


text \<open>The same machine with a shared area of two pages at the head of the list.\<close>

lemma demo_head_store:
  assumes "uvm_inv demo_syms k pd xs" "unat c + 4 \<le> 48" "c mod 4 = 0"
  shows "uvm_inv demo_syms (k\<lparr>mem := store32 (mem k) (0x8010C07C + c) x\<rparr>) pd xs"
    "pte_at (store32 (mem k) (0x8010C07C + c) x) pd = pte_at (mem k) pd"
proof -
  have "kdata demo_syms 0x8010C07C 48" by (simp add: kdata_def demo_syms_def aligned4_def)
  from kdata_frame [OF assms(1) this assms(2,3), of x]
  show "uvm_inv demo_syms (k\<lparr>mem := store32 (mem k) (0x8010C07C + c) x\<rparr>) pd xs"
    "pte_at (store32 (mem k) (0x8010C07C + c) x) pd = pte_at (mem k) pd" by simp_all
qed

definition demo_shared :: kernel where
  "demo_shared = demo_areas\<lparr>kst := (kst demo_areas)\<lparr>mem := store32 (store32 (store32 demo_area_mem (0x8010C07C + 8) 0x60001FFF)
     (0x8010C07C + 12) 0x80131000) (0x8010C07C + 24) 2\<rparr>\<rparr>"



text \<open>And with an area that grows, whose guard page is at \<open>0x60001000\<close>.\<close>

definition demo_growing :: kernel where
  "demo_growing = demo_areas\<lparr>kst := (kst demo_areas)\<lparr>mem := store32 (store32 (store32 (store32 demo_area_mem (0x8010C07C + 8) 0x60000FFF)
     (0x8010C07C + 16) 0x60001000) (0x8010C07C + 24) 2) (0x8010C07C + 28) 0x14\<rparr>\<rparr>"


end
