(* ===== verification/Spec2Isabelle.thy ===== *)
theory Spec2Isabelle
  imports Uvm_Copy Grep Kbd Fdtable Areas
begin

text \<open>
  \<^bold>\<open>Verification of the xv6 kernel with memory mapping.\<close>

  The repository is the teaching kernel xv6 for the x86, extended by the system calls \<^verbatim>\<open>mmap\<close> and
  \<^verbatim>\<open>munmap\<close>; the sources are in \<^verbatim>\<open>src/xv6-public\<close>. The development translates the C code into
  functions of HOL, component by component, and proves what makes each of them correct, or
  what the code does instead.

  \<^bold>\<open>How the code is read.\<close> A C integer is a word of its width (\<^typ>\<open>u8\<close>, \<^typ>\<open>u16\<close>, \<^typ>\<open>u32\<close>, \<^typ>\<open>i32\<close>; signed
  comparisons are \<open><s\<close> and \<open>\<le>s\<close>), physical memory is a function from addresses to bytes, a struct that
  the code addresses by pointer arithmetic (page tables, areas, trap frames) stays in that memory,
  and one that is only used through its own table (processes, files, inodes, buffers) is a record
  named by its index. A routine is a function of the state with a result of type
  \<^typ>\<open>('a, 's) outcome\<close>: a value and a new state, a \<^verbatim>\<open>panic\<close> with its message, an undefined action of C
  (a null pointer, an index out of range), or a run that never returns. Loops are primitive
  recursive in the number of rounds, or in a fuel \<^const>\<open>page_fuel\<close> of one more than the number of pages
  of the address space, which is enough because every such loop moves on by a page
  (\<^verbatim>\<open>mappages_terminates\<close>, \<^verbatim>\<open>freerange_frees_range\<close> and \<^verbatim>\<open>allocuvm_grows\<close> prove that they return). Records
  are extended along the layers: \<^typ>\<open>bio\<close> (buffer cache and disk), \<^typ>\<open>logst\<close> (the log), \<^typ>\<open>fs\<close> (superblock
  and inodes), \<^typ>\<open>kernel\<close> (memory, processes, files, pipes, console, clock).

  \<^bold>\<open>Concurrency.\<close> Spin locks, sleeping locks, the process table and pipes are transition systems in which
  the sections of all processors and processes interleave freely. The layers above are read as
  the code of one process: a section under a lock is one step, and a process that has to wait
  for another one never returns.

  \<^bold>\<open>Theories and the code they model.\<close>
  \<^item> \<^verbatim>\<open>Xv6_Base\<close>, \<^verbatim>\<open>Mmu\<close>, \<^verbatim>\<open>Memory\<close>, \<^verbatim>\<open>Bytes\<close>: outcomes, words, the macros of \<^verbatim>\<open>mmu.h\<close> and \<^verbatim>\<open>memlayout.h\<close>, byte
    memory with \<^verbatim>\<open>memset\<close> and \<^verbatim>\<open>memmove\<close>, layout of integers in blocks.
  \<^item> \<^verbatim>\<open>Kalloc\<close> (\<^verbatim>\<open>kalloc.c\<close>): the free list as a list of pages; what freeing, allocating and the
    start-up do to it.
  \<^item> \<^verbatim>\<open>Vm\<close>, \<^verbatim>\<open>Uvm\<close>, \<^verbatim>\<open>Uvm_Copy\<close> (\<^verbatim>\<open>vm.c\<close>): page tables as a map from addresses to entries; growing, shrinking,
    freeing and copying address spaces, with who owns which page as invariant.
  \<^item> \<^verbatim>\<open>Kstring\<close>, \<^verbatim>\<open>Print\<close>, \<^verbatim>\<open>Grep\<close> (\<^verbatim>\<open>string.c\<close>, \<^verbatim>\<open>ulib.c\<close>, \<^verbatim>\<open>printf.c\<close>, \<^verbatim>\<open>grep.c\<close>): strings, formatted output, the
    matcher against the language of its pattern.
  \<^item> \<^verbatim>\<open>Spinlock\<close>, \<^verbatim>\<open>Ptable\<close>, \<^verbatim>\<open>Sleeplock\<close> (\<^verbatim>\<open>spinlock.c\<close>, \<^verbatim>\<open>proc.c\<close>, \<^verbatim>\<open>sleeplock.c\<close>): mutual exclusion, the life
    of processes, no lost wakeups, as invariants of interleaved runs.
  \<^item> \<^verbatim>\<open>Bio\<close>, \<^verbatim>\<open>Cache\<close>, \<^verbatim>\<open>Log\<close> (\<^verbatim>\<open>bio.c\<close>, \<^verbatim>\<open>memide.c\<close>, \<^verbatim>\<open>log.c\<close>): the buffer cache as a linked list, its contract as the
    locale \<^verbatim>\<open>block_cache\<close> with the cache as an instance, transactions and recovery from a crash.
  \<^item> \<^verbatim>\<open>Fs\<close> (\<^verbatim>\<open>fs.c\<close>): blocks, inodes, directories and paths.
  \<^item> \<^verbatim>\<open>Ring\<close>, \<^verbatim>\<open>Pipe\<close>, \<^verbatim>\<open>Kbd\<close>, \<^verbatim>\<open>Console\<close> (\<^verbatim>\<open>pipe.c\<close>, \<^verbatim>\<open>kbd.c\<close>, \<^verbatim>\<open>console.c\<close>): ring buffers with wrapping
    counters as the locale \<^verbatim>\<open>ring\<close> with two instances, pipes, key codes, the line discipline.
  \<^item> \<^verbatim>\<open>Kernel\<close>, \<^verbatim>\<open>Syscall\<close>, \<^verbatim>\<open>Vma\<close>, \<^verbatim>\<open>Proc\<close>, \<^verbatim>\<open>Exec\<close>, \<^verbatim>\<open>Sysfile\<close>, \<^verbatim>\<open>Trap\<close> (\<^verbatim>\<open>file.c\<close>, \<^verbatim>\<open>syscall.c\<close>, \<^verbatim>\<open>sysfile.c\<close>, \<^verbatim>\<open>proc.c\<close>,
    \<^verbatim>\<open>exec.c\<close>, \<^verbatim>\<open>sysproc.c\<close>, \<^verbatim>\<open>trap.c\<close>): the whole kernel as one state, every system call, and the trap
    handler that dispatches them; \<^verbatim>\<open>mmap\<close>, \<^verbatim>\<open>munmap\<close> and page faults.
  \<^item> \<^verbatim>\<open>Frame\<close>, \<^verbatim>\<open>Fdtable\<close>: what each routine of the kernel leaves alone, as a predicate that is closed under
    sequencing, and from it that every system call keeps the reference count of every open file
    equal to the number of descriptors that name it.
  \<^item> \<^verbatim>\<open>Areas\<close>: \<^verbatim>\<open>mmap\<close>, \<^verbatim>\<open>fork\<close> and the page-fault handler over the page tables: the first mapping
    gives fresh zeroed pages, the second one panics, a fault in a guard page grows its area, and
    a forked child sees the first page of a shared area at every page of it.

  \<^bold>\<open>Parameters.\<close> Addresses the linker fixes are the record \<^typ>\<open>env\<close>; what devices deliver (key codes, the
  faulting address, the processor's number) is an argument.

  \<^bold>\<open>Not modelled.\<close> Code that only programs devices or the processor: \<^verbatim>\<open>ide.c\<close> (the model uses the disk in
  memory of \<^verbatim>\<open>memide.c\<close>, which has the same interface), \<^verbatim>\<open>lapic.c\<close>, \<^verbatim>\<open>ioapic.c\<close>, \<^verbatim>\<open>picirq.c\<close>, \<^verbatim>\<open>mp.c\<close>,
  \<^verbatim>\<open>uartinit\<close>, \<^verbatim>\<open>seginit\<close>, the interrupt table; the boot loader and the assembly files; user programs
  other than \<^verbatim>\<open>grep\<close>; test programs. Of the messages on the console, those of \<^verbatim>\<open>allocuvm\<close> when memory runs out,
  of \<^verbatim>\<open>iinit\<close> at start-up, and those printed on the way to a \<^verbatim>\<open>panic\<close> are left out.
\<close>

end
